(* ===== verification/Prelude.thy ===== *)
theory Prelude
  imports Main "HOL-Library.Word" "HOL-Library.Monad_Syntax"
begin

unbundle bit_operations_syntax

text \<open>
  Shared vocabulary of the development: bytes and byte slices, the errors the collection
  package returns, Go's way of failing, the collections of rewrite rules, and the list and
  option facts several components use.

  Conventions. A Go slice of bytes is a list of bytes; a nil slice and an empty slice are both
  the empty list wherever the code only looks at the length. A panic (index out of range, nil
  dereference, failed type assertion, an explicit \<open>panic\<close>) is \<open>None\<close> of an option type; an
  error value is \<open>Inl\<close> of a sum type; a method that changes its receiver returns the new
  receiver as well.
\<close>

type_synonym byte = "8 word"
type_synonym bytes = "byte list"

text \<open>The size of a SHA-256 digest (\<open>sha256.Size\<close>) and the all-zero array of that size.\<close>

definition sha_size :: nat where
  "sha_size = 32"

definition zero_digest :: bytes where
  "zero_digest = replicate sha_size 0"

lemma length_zero_digest [simp]: "length zero_digest = sha_size"
  by (simp add: zero_digest_def)

text \<open>The errors of package \<open>collection\<close>, one constructor per message.\<close>

datatype coll_error =
    NotNavigable            \<comment> \<open>data values cannot be navigated\<close>
  | WrongBufferLength       \<comment> \<open>wrong buffer length\<close>
  | QueryExceedsStake       \<comment> \<open>query exceeds parent stake\<close>
  | UpdatingUnknownNode     \<comment> \<open>updating an unknown node\<close>
  | UnknownChildren         \<comment> \<open>updating internal node with unknown children\<close>
  | NoKey                   \<comment> \<open>cannot create a record (or proof) with no key\<close>
  | UnknownSubtree          \<comment> \<open>record lies in an unknown subtree\<close>
  | EmptyKey                \<comment> \<open>cannot add empty key to collection\<close>
  | ProofNeeded             \<comment> \<open>applying update to unknown subtree. Proof needed\<close>
  | KeyCollision            \<comment> \<open>key collision\<close>
  | KeyNotFound             \<comment> \<open>key not found\<close>
  | NoQuery                 \<comment> \<open>no query specified\<close>
  | FieldOutOfRange         \<comment> \<open>field out of range\<close>
  | NoMatch                 \<comment> \<open>no match found\<close>
  | WrongNumberOfValues     \<comment> \<open>wrong number of values\<close>
  | NoSteps                 \<comment> \<open>proof has no steps\<close>
  | InvalidProof            \<comment> \<open>invalid update: proof invalid\<close>
  | UpdateCheckFailed       \<comment> \<open>update check failed\<close>

named_theorems go_simps \<open>unfolding rules for the control flow of the translated code\<close>

section \<open>Panics: the option monad\<close>

lemma bind_Some_iff [go_simps]:
  "Option.bind m f = Some y \<longleftrightarrow> (\<exists>x. m = Some x \<and> f x = Some y)"
  by (cases m) auto

lemma bind_None_iff [go_simps]:
  "Option.bind m f = None \<longleftrightarrow> (\<forall>x. m = Some x \<longrightarrow> f x = None)"
  by (cases m) auto

section \<open>Reading a slice\<close>

text \<open>\<open>xs[i]\<close> panics out of range.\<close>

definition slice_get :: "'a list \<Rightarrow> nat \<Rightarrow> 'a option" where
  "slice_get xs i = (if i < length xs then Some (xs ! i) else None)"

lemma slice_get_Some [simp]: "slice_get xs i = Some x \<longleftrightarrow> i < length xs \<and> x = xs ! i"
  by (auto simp: slice_get_def)

lemma slice_get_None [simp]: "slice_get xs i = None \<longleftrightarrow> length xs \<le> i"
  by (auto simp: slice_get_def)

lemma slice_get_in [simp]: "i < length xs \<Longrightarrow> slice_get xs i = Some (xs ! i)"
  by simp

text \<open>\<open>copy(dst, src)\<close> overwrites the common prefix of the two slices.\<close>

definition go_copy :: "'a list \<Rightarrow> 'a list \<Rightarrow> 'a list" where
  "go_copy dst src = take (length dst) src @ drop (length src) dst"

lemma go_copy_same_length: "length dst = length src \<Longrightarrow> go_copy dst src = src"
  by (simp add: go_copy_def)

lemma length_go_copy [simp]: "length (go_copy dst src) = length dst"
  by (simp add: go_copy_def)

section \<open>Options\<close>

lemma bind_SomeE:
  assumes "Option.bind m f = Some y"
  obtains x where "m = Some x" "f x = Some y"
  using assms by (cases m) auto

section \<open>Prefixes of bit strings\<close>

lemma take_Suc_eq_iff:
  assumes "n < length xs" "n < length ys"
  shows "take (Suc n) xs = take (Suc n) ys \<longleftrightarrow> take n xs = take n ys \<and> xs ! n = ys ! n"
  using assms by (simp add: take_Suc_conv_app_nth)

lemma take_eq_nth: "take n xs = take n ys \<Longrightarrow> i < n \<Longrightarrow> i < length xs \<Longrightarrow> i < length ys \<Longrightarrow> xs ! i = ys ! i"
  by (metis nth_take)

end
