(* ===== verification/Byteslice.thy ===== *)
theory Byteslice
  imports Prelude
begin

unbundle bit_operations_syntax

text \<open>
  Models \<open>omniledger/collection/byteslice.go\<close>: comparison of slices, reading and writing single
  bits (most significant bit first), and \<open>match\<close>, which compares whole bytes while it can and
  single bits at the end. \<open>bits_of\<close> is the reference view of a slice as a list of bits; every
  operation is related to it.
\<close>

section \<open>The code\<close>

function equal_from :: "bytes \<Rightarrow> bytes \<Rightarrow> nat \<Rightarrow> bool" where
  "equal_from lho rho index =
     (if index < length lho
      then if lho ! index \<noteq> rho ! index then False else equal_from lho rho (index + 1)
      else True)"
  by pat_completeness auto
termination
  by (relation "measure (\<lambda>(lho, rho, index). length lho - index)") auto

declare equal_from.simps [simp del]

definition bytes_equal :: "bytes \<Rightarrow> bytes \<Rightarrow> bool" where
  "bytes_equal lho rho =
     (if length lho \<noteq> length rho then False else equal_from lho rho 0)"

definition bit_at :: "bytes \<Rightarrow> nat \<Rightarrow> bool option" where
  "bit_at buffer index =
     (let byteIdx = index div 8; bitIdx = 7 - index mod 8
      in if byteIdx < length buffer
         then Some ((buffer ! byteIdx) AND push_bit bitIdx 1 \<noteq> 0)
         else None)"

definition setBit :: "bytes \<Rightarrow> nat \<Rightarrow> bool \<Rightarrow> bytes option" where
  "setBit buffer index val =
     (let byteIdx = index div 8; bitIdx = 7 - index mod 8
      in if byteIdx < length buffer
         then Some (if val
           then buffer[byteIdx := (buffer ! byteIdx) OR push_bit bitIdx 1]
           else buffer[byteIdx := (buffer ! byteIdx) AND NOT (push_bit bitIdx 1)])
         else None)"

function match_from :: "bytes \<Rightarrow> bytes \<Rightarrow> int \<Rightarrow> nat \<Rightarrow> bool option" where
  "match_from lho rho bits index =
     (if int index < bits
      then if int index < bits - 8
        then (case (slice_get lho (index div 8), slice_get rho (index div 8)) of
                (Some a, Some b) \<Rightarrow>
                  if a \<noteq> b then Some False else match_from lho rho bits (index + 8)
              | _ \<Rightarrow> None)
        else (case (bit_at lho index, bit_at rho index) of
                (Some a, Some b) \<Rightarrow>
                  if a \<noteq> b then Some False else match_from lho rho bits (index + 1)
              | _ \<Rightarrow> None)
      else Some True)"
  by pat_completeness auto
termination
  by (relation "measure (\<lambda>(lho, rho, bits, index). nat (bits - int index))") auto

declare match_from.simps [simp del]

definition match_bits :: "bytes \<Rightarrow> bytes \<Rightarrow> int \<Rightarrow> bool option" where
  "match_bits lho rho bits = match_from lho rho bits 0"

definition digest :: "bytes \<Rightarrow> bytes option" where
  "digest buffer =
     (if length buffer \<noteq> sha_size then None
      else Some (map (\<lambda>index. buffer ! index) [0..<sha_size]))"

section \<open>The reference view\<close>

definition byte_bits :: "byte \<Rightarrow> bool list" where
  "byte_bits w = map (\<lambda>i. bit w (7 - i)) [0..<8]"

definition bits_of :: "bytes \<Rightarrow> bool list" where
  "bits_of bs = concat (map byte_bits bs)"

lemma length_byte_bits [simp]: "length (byte_bits w) = 8"
  by (simp add: byte_bits_def)

lemma nth_byte_bits: "i < 8 \<Longrightarrow> byte_bits w ! i = bit w (7 - i)"
  by (simp add: byte_bits_def)

lemma length_bits_of [simp]: "length (bits_of bs) = 8 * length bs"
  by (induction bs) (auto simp: bits_of_def)

lemma nth_bits_of: "i < 8 * length bs \<Longrightarrow> bits_of bs ! i = bit (bs ! (i div 8)) (7 - i mod 8)"
proof (induction bs arbitrary: i)
  case Nil
  then show ?case by simp
next
  case (Cons b bs)
  show ?case
  proof (cases "i < 8")
    case True
    then show ?thesis by (simp add: bits_of_def nth_append nth_byte_bits)
  next
    case False
    then obtain j where j: "i = 8 + j" using le_Suc_ex not_less by blast
    with Cons.prems have "bits_of bs ! j = bit (bs ! (j div 8)) (7 - j mod 8)"
      by (intro Cons.IH) simp
    moreover have "(8 + j) div 8 = Suc (j div 8)" by simp
    ultimately show ?thesis using j by (simp add: bits_of_def nth_append del: div_add_self1 div_add_self2)
  qed
qed

lemma byte_bits_inject: "byte_bits v = byte_bits w \<longleftrightarrow> v = w"
proof
  assume eq: "byte_bits v = byte_bits w"
  show "v = w"
  proof (rule bit_word_eqI)
    fix n assume "n < LENGTH(8)"
    then have "byte_bits v ! (7 - n) = bit v n" "byte_bits w ! (7 - n) = bit w n"
      by (simp_all add: nth_byte_bits)
    with eq show "bit v n = bit w n" by simp
  qed
qed simp

lemma bits_of_inject: "length xs = length ys \<Longrightarrow> bits_of xs = bits_of ys \<longleftrightarrow> xs = ys"
  by (induction xs ys rule: list_induct2) (auto simp: bits_of_def byte_bits_inject)

section \<open>Correctness\<close>

lemma and_push_bit_one: "w AND push_bit n (1::byte) = 0 \<longleftrightarrow> \<not> bit w n"
  by (simp add: push_bit_eq_mult and_exp_eq_0_iff_not_bit)

lemma equal_from_iff:
  "length lho = length rho \<Longrightarrow> equal_from lho rho i \<longleftrightarrow> drop i lho = drop i rho"
proof (induction lho rho i rule: equal_from.induct)
  case (1 lho rho i)
  show ?case
  proof (cases "i < length lho")
    case True
    then have "drop i lho = lho ! i # drop (Suc i) lho" "drop i rho = rho ! i # drop (Suc i) rho"
      using "1.prems" by (simp_all add: Cons_nth_drop_Suc)
    then show ?thesis
      using True "1.IH" "1.prems" by (simp add: equal_from.simps [of lho rho i])
  next
    case False
    then show ?thesis using "1.prems" by (simp add: equal_from.simps [of lho rho i])
  qed
qed

lemma bytes_equal_iff [simp]: "bytes_equal lho rho \<longleftrightarrow> lho = rho"
  by (auto simp: bytes_equal_def equal_from_iff)

lemma bit_at_bits_of:
  "bit_at bs i = (if i < 8 * length bs then Some (bits_of bs ! i) else None)"
proof -
  have "i div 8 < length bs \<longleftrightarrow> i < 8 * length bs" by auto
  then show ?thesis by (simp add: bit_at_def nth_bits_of and_push_bit_one Let_def del: push_bit_of_1)
qed

lemma bit_at_Some [simp]:
  "bit_at bs i = Some b \<longleftrightarrow> i < 8 * length bs \<and> b = bits_of bs ! i"
  by (auto simp: bit_at_bits_of)

lemma bit_at_None [simp]: "bit_at bs i = None \<longleftrightarrow> 8 * length bs \<le> i"
  by (auto simp: bit_at_bits_of)

lemma setBit_Some_iff: "(\<exists>bs'. setBit bs i v = Some bs') \<longleftrightarrow> i < 8 * length bs"
  by (auto simp: setBit_def Let_def)

lemma setBit_length: "setBit bs i v = Some bs' \<Longrightarrow> length bs' = length bs"
  by (auto simp: setBit_def Let_def split: if_splits)

lemma seven_minus_mod_eq: "(7 - i mod 8 = 7 - j mod (8::nat)) \<longleftrightarrow> i mod 8 = j mod 8"
proof -
  have "i mod 8 < 8" "j mod 8 < 8" by simp_all
  then show ?thesis by arith
qed

lemma setBit_bits_of:
  assumes "setBit bs i v = Some bs'"
  shows "bits_of bs' = (bits_of bs)[i := v]"
proof (rule nth_equalityI)
  show "length (bits_of bs') = length ((bits_of bs)[i := v])"
    using setBit_length [OF assms] by simp
next
  fix j assume "j < length (bits_of bs')"
  then have j: "j < 8 * length bs" using setBit_length [OF assms] by simp
  have i: "i < 8 * length bs" using assms setBit_Some_iff by blast
  have ne: "j \<noteq> i \<Longrightarrow> j div 8 = i div 8 \<Longrightarrow> 7 - j mod 8 \<noteq> 7 - i mod (8::nat)"
    by (metis mult_div_mod_eq seven_minus_mod_eq)
  show "bits_of bs' ! j = (bits_of bs)[i := v] ! j"
    using assms i j ne setBit_length [OF assms]
    by (auto simp: setBit_def Let_def nth_bits_of nth_list_update bit_simps split: if_splits)
qed

lemma block_shift: "(\<forall>i<(n::nat). P (m + i)) \<longleftrightarrow> (\<forall>j. m \<le> j \<and> j < m + n \<longrightarrow> P j)"
proof (intro iffI allI impI)
  fix j assume "\<forall>i<n. P (m + i)" and j: "m \<le> j \<and> j < m + n"
  then have "P (m + (j - m))" by (metis le_add_diff_inverse nat_add_left_cancel_less)
  then show "P j" using j by simp
qed simp

lemma byte_block_iff:
  assumes "8 * k + 8 \<le> 8 * length xs" "8 * k + 8 \<le> 8 * length ys"
  shows "xs ! k = ys ! k \<longleftrightarrow> (\<forall>j. 8 * k \<le> j \<and> j < 8 * k + 8 \<longrightarrow> bits_of xs ! j = bits_of ys ! j)"
proof -
  have nth: "bits_of zs ! (8 * k + i) = byte_bits (zs ! k) ! i"
    if "i < 8" "8 * k + 8 \<le> 8 * length zs" for i zs
    using that by (simp add: nth_bits_of nth_byte_bits)
  have "xs ! k = ys ! k \<longleftrightarrow> (\<forall>i<8. byte_bits (xs ! k) ! i = byte_bits (ys ! k) ! i)"
    unfolding byte_bits_inject [symmetric] by (simp add: list_eq_iff_nth_eq)
  also have "\<dots> \<longleftrightarrow> (\<forall>i<8. bits_of xs ! (8 * k + i) = bits_of ys ! (8 * k + i))"
    using nth assms by simp
  also have "\<dots> \<longleftrightarrow> (\<forall>j. 8 * k \<le> j \<and> j < 8 * k + 8 \<longrightarrow> bits_of xs ! j = bits_of ys ! j)"
    by (rule block_shift)
  finally show ?thesis .
qed

text \<open>
  The byte steps of \<open>match\<close> are only taken at byte boundaries, because \<open>index\<close> starts at 0 and
  the single-bit phase is entered once and never left.
\<close>

lemma match_from_correct:
  assumes "bits \<le> 8 * int (length lho)" "bits \<le> 8 * int (length rho)"
    and "int index < bits - 8 \<longrightarrow> index mod 8 = 0"
  shows "match_from lho rho bits index =
    Some (\<forall>j. index \<le> j \<and> int j < bits \<longrightarrow> bits_of lho ! j = bits_of rho ! j)"
  using assms
proof (induction lho rho bits index rule: match_from.induct)
  case (1 lho rho bits index)
  consider (stop) "bits \<le> int index" | (byte) "int index < bits - 8"
    | (bit) "int index < bits" "\<not> int index < bits - 8" by linarith
  then show ?case
  proof cases
    case stop
    then show ?thesis by (subst match_from.simps) auto
  next
    case byte
    define k where "k = index div 8"
    have k: "index = 8 * k" using byte "1.prems"(3) by (auto simp: k_def)
    have len: "8 * k + 8 \<le> 8 * length lho" "8 * k + 8 \<le> 8 * length rho"
      using byte "1.prems"(1,2) k by linarith+
    have "(index \<le> j \<and> int j < bits) \<longleftrightarrow>
        (8 * k \<le> j \<and> j < 8 * k + 8) \<or> (index + 8 \<le> j \<and> int j < bits)" for j
      using byte k by linarith
    then have split: "(\<forall>j. index \<le> j \<and> int j < bits \<longrightarrow> bits_of lho ! j = bits_of rho ! j) \<longleftrightarrow>
        lho ! k = rho ! k \<and> (\<forall>j. index + 8 \<le> j \<and> int j < bits \<longrightarrow> bits_of lho ! j = bits_of rho ! j)"
      unfolding byte_block_iff [OF len] by blast
    have next_mod: "int (index + 8) < bits - 8 \<longrightarrow> (index + 8) mod 8 = 0" by (simp add: k)
    have kl: "k < length lho" "k < length rho" using len by auto
    have less: "int index < bits" using byte by linarith
    have IH: "match_from lho rho bits (index + 8) =
        Some (\<forall>j. index + 8 \<le> j \<and> int j < bits \<longrightarrow> bits_of lho ! j = bits_of rho ! j)"
      if "lho ! k = rho ! k"
      by (rule "1.IH"(1) [OF less byte refl _ _ _ "1.prems"(1,2) next_mod])
        (use kl that in \<open>simp_all add: k_def [symmetric]\<close>)
    have "match_from lho rho bits index =
        (if lho ! k \<noteq> rho ! k then Some False else match_from lho rho bits (index + 8))"
      using byte less kl by (subst match_from.simps) (simp add: k_def [symmetric])
    then show ?thesis using IH split by simp
  next
    case bit
    have len: "index < 8 * length lho" "index < 8 * length rho"
      using bit "1.prems"(1,2) by linarith+
    have eq: "(index \<le> j \<and> int j < bits) \<longleftrightarrow> j = index \<or> (index + 1 \<le> j \<and> int j < bits)" for j
      using bit(1) by linarith
    have split: "(\<forall>j. index \<le> j \<and> int j < bits \<longrightarrow> bits_of lho ! j = bits_of rho ! j) \<longleftrightarrow>
        bits_of lho ! index = bits_of rho ! index \<and>
        (\<forall>j. index + 1 \<le> j \<and> int j < bits \<longrightarrow> bits_of lho ! j = bits_of rho ! j)"
      unfolding eq by blast
    have next_mod: "int (index + 1) < bits - 8 \<longrightarrow> (index + 1) mod 8 = 0" using bit(2) by linarith
    have IH: "match_from lho rho bits (index + 1) =
        Some (\<forall>j. index + 1 \<le> j \<and> int j < bits \<longrightarrow> bits_of lho ! j = bits_of rho ! j)"
      if "bits_of lho ! index = bits_of rho ! index"
      by (rule "1.IH"(2) [OF bit refl _ _ _ "1.prems"(1,2) next_mod])
        (use len that in \<open>simp_all add: bit_at_bits_of\<close>)
    have "match_from lho rho bits index =
        (if bits_of lho ! index \<noteq> bits_of rho ! index then Some False
         else match_from lho rho bits (index + 1))"
      using bit len by (subst match_from.simps) (simp add: bit_at_bits_of)
    then show ?thesis using IH split by simp
  qed
qed

lemma match_bits_correct:
  assumes "bits \<le> 8 * int (length lho)" "bits \<le> 8 * int (length rho)"
  shows "match_bits lho rho bits =
    Some (take (nat bits) (bits_of lho) = take (nat bits) (bits_of rho))"
proof -
  have "match_bits lho rho bits =
      Some (\<forall>j. int j < bits \<longrightarrow> bits_of lho ! j = bits_of rho ! j)"
    using match_from_correct [OF assms, of 0] by (simp add: match_bits_def)
  also have "(\<forall>j. int j < bits \<longrightarrow> bits_of lho ! j = bits_of rho ! j) \<longleftrightarrow>
      take (nat bits) (bits_of lho) = take (nat bits) (bits_of rho)"
  proof -
    have "nat bits \<le> length (bits_of lho)" "nat bits \<le> length (bits_of rho)"
      using assms by auto
    then show ?thesis by (auto simp: list_eq_iff_nth_eq)
  qed
  finally show ?thesis .
qed

lemma digest_correct: "digest bs = (if length bs = sha_size then Some bs else None)"
  by (metis digest_def map_nth)

end
