(* ===== verification/Field.thy ===== *)
theory Field
  imports Byteslice
begin

unbundle bit_operations_syntax

text \<open>
  Models \<open>omniledger/collection/field.go\<close>: the interface \<open>Field\<close> as a record of its methods, and
  the two implementations, \<open>Data\<close> (raw bytes) and \<open>Stake64\<close> (64-bit unsigned stakes whose inner
  nodes carry the sum of their children, wrapping around at 64 bits).

  An \<open>interface{}\<close> argument is a \<open>gval\<close>; a failed type assertion panics (\<open>None\<close>). \<open>Navigate\<close>
  overwrites the query buffer it is given, so it returns the direction and the buffer.

  The locale \<open>merkle_field\<close> states what the collection relies on in a field; both
  implementations are interpretations of it.
\<close>

section \<open>The interface\<close>

datatype gval = GBytes bytes | GUint64 "64 word" | GSame

record field =
  Encode :: "gval \<Rightarrow> bytes option"
  Decode :: "bytes \<Rightarrow> coll_error + gval"
  Placeholder :: bytes
  Parent :: "bytes \<Rightarrow> bytes \<Rightarrow> coll_error + bytes"
  Navigate :: "bytes \<Rightarrow> bytes \<Rightarrow> bytes \<Rightarrow> bytes \<Rightarrow> coll_error + (bool \<times> bytes)"

abbreviation (input) Left :: bool where "Left \<equiv> False"
abbreviation (input) Right :: bool where "Right \<equiv> True"

section \<open>Data\<close>

definition Data_Encode :: "gval \<Rightarrow> bytes option" where
  "Data_Encode generic = (case generic of GBytes value \<Rightarrow> Some value | _ \<Rightarrow> None)"

definition Data_Decode :: "bytes \<Rightarrow> coll_error + gval" where
  "Data_Decode raw = Inr (GBytes raw)"

definition Data_Placeholder :: bytes where
  "Data_Placeholder = []"

definition Data_Parent :: "bytes \<Rightarrow> bytes \<Rightarrow> coll_error + bytes" where
  "Data_Parent left right = Inr []"

definition Data_Navigate ::
  "bytes \<Rightarrow> bytes \<Rightarrow> bytes \<Rightarrow> bytes \<Rightarrow> coll_error + (bool \<times> bytes)" where
  "Data_Navigate query parent left right = Inl NotNavigable"

definition Data :: field where
  "Data = \<lparr>Encode = Data_Encode, Decode = Data_Decode, Placeholder = Data_Placeholder,
           Parent = Data_Parent, Navigate = Data_Navigate\<rparr>"

section \<open>Big-endian 64-bit integers (encoding/binary)\<close>

definition put_uint64 :: "64 word \<Rightarrow> bytes" where
  "put_uint64 v = map (\<lambda>i. ucast (drop_bit (56 - 8 * i) v)) [0..<8]"

definition get_uint64 :: "bytes \<Rightarrow> 64 word" where
  "get_uint64 b = word_rcat (take 8 b)"

lemma length_put_uint64 [simp]: "length (put_uint64 v) = 8"
  by (simp add: put_uint64_def)

lemma bit_put_uint64:
  "i < 8 \<Longrightarrow> n < 8 \<Longrightarrow> bit (put_uint64 v ! i) n = bit v (56 - 8 * i + n)"
  by (simp add: put_uint64_def bit_simps)

lemma bit_get_uint64:
  "length b = 8 \<Longrightarrow> n < 64 \<Longrightarrow> bit (get_uint64 b) n = bit (b ! (7 - n div 8)) (n mod 8)"
  using bit_horner_sum_uint_exp_iff [of "rev b" n]
  by (auto simp: get_uint64_def word_rcat_def bit_simps rev_nth)

lemma get_put_uint64 [simp]: "get_uint64 (put_uint64 v) = v"
proof (rule bit_word_eqI)
  fix n assume "n < LENGTH(64)"
  then have n: "n < 64" by simp
  have "56 - 8 * (7 - n div 8) = 8 * (n div 8)" using n by arith
  then have "56 - 8 * (7 - n div 8) + n mod 8 = n" by simp
  then show "bit (get_uint64 (put_uint64 v)) n = bit v n"
    using n by (simp add: bit_get_uint64 bit_put_uint64)
qed

lemma put_get_uint64 [simp]:
  assumes "length b = 8"
  shows "put_uint64 (get_uint64 b) = b"
proof (rule nth_equalityI)
  fix i assume "i < length (put_uint64 (get_uint64 b))"
  then have i: "i < 8" by simp
  show "put_uint64 (get_uint64 b) ! i = b ! i"
  proof (rule bit_word_eqI)
    fix n assume "n < LENGTH(8)"
    then have n: "n < 8" by simp
    have "56 - 8 * i = 8 * (7 - i)" using i by arith
    then have "(56 - 8 * i + n) div 8 = 7 - i" "(56 - 8 * i + n) mod 8 = n" "56 - 8 * i + n < 64"
      using i n by simp_all
    then show "bit (put_uint64 (get_uint64 b) ! i) n = bit (b ! i) n"
      using i n assms by (simp add: bit_put_uint64 bit_get_uint64)
  qed
qed (simp add: assms)

section \<open>Stake64\<close>

definition Stake64_Encode :: "gval \<Rightarrow> bytes option" where
  "Stake64_Encode generic =
     (case generic of GUint64 value \<Rightarrow> Some (put_uint64 value) | _ \<Rightarrow> None)"

text \<open>\<open>Decode\<close> always returns a \<open>uint64\<close>; the type assertions of its callers cannot fail.\<close>

definition Stake64_Decode64 :: "bytes \<Rightarrow> coll_error + 64 word" where
  "Stake64_Decode64 raw =
     (if length raw \<noteq> 8 then Inl WrongBufferLength else Inr (get_uint64 raw))"

definition Stake64_Decode :: "bytes \<Rightarrow> coll_error + gval" where
  "Stake64_Decode raw =
     (case Stake64_Decode64 raw of Inl e \<Rightarrow> Inl e | Inr v \<Rightarrow> Inr (GUint64 v))"

definition Stake64_Placeholder :: bytes where
  "Stake64_Placeholder = put_uint64 0"

definition Stake64_Parent :: "bytes \<Rightarrow> bytes \<Rightarrow> coll_error + bytes" where
  "Stake64_Parent left right =
     (case Stake64_Decode64 left of
        Inl leftError \<Rightarrow> Inl leftError
      | Inr leftValue \<Rightarrow>
          (case Stake64_Decode64 right of
             Inl rightError \<Rightarrow> Inl rightError
           | Inr rightValue \<Rightarrow> Inr (put_uint64 (leftValue + rightValue))))"

definition Stake64_Navigate ::
  "bytes \<Rightarrow> bytes \<Rightarrow> bytes \<Rightarrow> bytes \<Rightarrow> coll_error + (bool \<times> bytes)" where
  "Stake64_Navigate query parent left right =
     (case Stake64_Decode64 query of
        Inl queryError \<Rightarrow> Inl queryError
      | Inr queryValue \<Rightarrow>
          (case Stake64_Decode64 parent of
             Inl parentError \<Rightarrow> Inl parentError
           | Inr parentValue \<Rightarrow>
               if queryValue \<ge> parentValue then Inl QueryExceedsStake
               else (case Stake64_Decode64 left of
                       Inl leftError \<Rightarrow> Inl leftError
                     | Inr leftValue \<Rightarrow>
                         if queryValue \<ge> leftValue
                         then Inr (Right, go_copy query (put_uint64 (queryValue - leftValue)))
                         else Inr (Left, query))))"

definition Stake64 :: field where
  "Stake64 = \<lparr>Encode = Stake64_Encode, Decode = Stake64_Decode, Placeholder = Stake64_Placeholder,
              Parent = Stake64_Parent, Navigate = Stake64_Navigate\<rparr>"

section \<open>The contract of a field\<close>

definition decodable :: "field \<Rightarrow> bytes \<Rightarrow> bool" where
  "decodable F raw \<longleftrightarrow> (\<exists>v. Decode F raw = Inr v)"

locale merkle_field =
  fixes F :: field
  assumes decode_encode: "Encode F g = Some raw \<Longrightarrow> Decode F raw = Inr g"
    and placeholder_decodable: "decodable F (Placeholder F)"
    and parent_total: "decodable F l \<Longrightarrow> decodable F r \<Longrightarrow> \<exists>p. Parent F l r = Inr p \<and> decodable F p"
begin

lemma encode_decodable: "Encode F g = Some raw \<Longrightarrow> decodable F raw"
  by (auto simp: decodable_def dest: decode_encode)

lemma encode_inject: "Encode F g = Some raw \<Longrightarrow> Encode F g' = Some raw \<Longrightarrow> g = g'"
  by (metis decode_encode sum.inject(2))

end

lemma Stake64_Decode64_put [simp]: "Stake64_Decode64 (put_uint64 v) = Inr v"
  by (simp add: Stake64_Decode64_def)

lemma decodable_Data [simp]: "decodable Data raw"
  by (simp add: decodable_def Data_def Data_Decode_def)

lemma decodable_Stake64 [simp]: "decodable Stake64 raw \<longleftrightarrow> length raw = 8"
  by (simp add: decodable_def Stake64_def Stake64_Decode_def Stake64_Decode64_def)

interpretation data_field: merkle_field Data
  by unfold_locales
    (auto simp: Data_def Data_Encode_def Data_Decode_def Data_Parent_def Data_Placeholder_def
      decodable_def split: gval.splits)

interpretation stake_field: merkle_field Stake64
proof unfold_locales
  show "Decode Stake64 raw = Inr g" if "Encode Stake64 g = Some raw" for g raw
    using that by (auto simp: Stake64_def Stake64_Encode_def Stake64_Decode_def split: gval.splits)
  show "decodable Stake64 (Placeholder Stake64)"
    by (simp add: Stake64_def Stake64_Placeholder_def decodable_def Stake64_Decode_def)
  show "\<exists>p. Parent Stake64 l r = Inr p \<and> decodable Stake64 p"
    if "decodable Stake64 l" "decodable Stake64 r" for l r
    using that by (simp add: Stake64_Decode64_def) (simp add: Stake64_def Stake64_Parent_def Stake64_Decode64_def)
qed

section \<open>Stakes as numbers\<close>

lemma Stake64_Parent_put:
  "Parent Stake64 (put_uint64 a) (put_uint64 b) = Inr (put_uint64 (a + b))"
  by (simp add: Stake64_def Stake64_Parent_def)

lemma Stake64_Navigate_put:
  "Navigate Stake64 (put_uint64 q) (put_uint64 p) (put_uint64 l) (put_uint64 r) =
    (if p \<le> q then Inl QueryExceedsStake
     else if l \<le> q then Inr (Right, put_uint64 (q - l)) else Inr (Left, put_uint64 q))"
  by (simp add: Stake64_def Stake64_Navigate_def go_copy_same_length)

end
