(* ===== verification/Scope.thy ===== *)
theory Scope
  imports Byteslice
begin

text \<open>
  Models \<open>omniledger/collection/scope.go\<close> and \<open>flag.go\<close>: the masks that say which paths of the
  tree a node keeps, and the flag type. A mask length is a Go \<open>int\<close> and may be negative.
\<close>

record flag =
  flag_value :: bool

definition flag_Enable :: "flag \<Rightarrow> flag" where
  "flag_Enable f = f\<lparr>flag_value := True\<rparr>"

definition flag_Disable :: "flag \<Rightarrow> flag" where
  "flag_Disable f = f\<lparr>flag_value := False\<rparr>"

record mask =
  mask_value :: bytes
  mask_bits :: int

definition mask_match :: "mask \<Rightarrow> bytes \<Rightarrow> int \<Rightarrow> bool option" where
  "mask_match m path bits =
     (if bits < mask_bits m then match_bits path (mask_value m) bits
      else match_bits path (mask_value m) (mask_bits m))"

record scope =
  masks :: "mask list"
  scope_all :: bool

definition scope_All :: "scope \<Rightarrow> scope" where
  "scope_All s = s\<lparr>scope_all := True, masks := []\<rparr>"

definition scope_None :: "scope \<Rightarrow> scope" where
  "scope_None s = s\<lparr>scope_all := False, masks := []\<rparr>"

definition scope_Add :: "scope \<Rightarrow> bytes \<Rightarrow> int \<Rightarrow> scope" where
  "scope_Add s val bits = s\<lparr>masks := masks s @ [\<lparr>mask_value = val, mask_bits = bits\<rparr>]\<rparr>"

fun masks_match :: "mask list \<Rightarrow> bytes \<Rightarrow> int \<Rightarrow> bool option" where
  "masks_match [] path bits = Some False"
| "masks_match (m # ms) path bits =
     (case mask_match m path bits of
        None \<Rightarrow> None
      | Some True \<Rightarrow> Some True
      | Some False \<Rightarrow> masks_match ms path bits)"

definition scope_match :: "scope \<Rightarrow> bytes \<Rightarrow> int \<Rightarrow> bool option" where
  "scope_match s path bits =
     (if length (masks s) = 0 then Some (scope_all s) else masks_match (masks s) path bits)"

definition scope_clone :: "scope \<Rightarrow> scope" where
  "scope_clone s = \<lparr>masks = masks s, scope_all = scope_all s\<rparr>"

section \<open>Meaning\<close>

text \<open>A mask whose value is long enough for its number of bits never makes \<open>match\<close> panic.\<close>

definition mask_ok :: "mask \<Rightarrow> bool" where
  "mask_ok m \<longleftrightarrow> mask_bits m \<le> 8 * int (length (mask_value m)) \<and> mask_bits m \<le> 8 * int sha_size"

definition scope_ok :: "scope \<Rightarrow> bool" where
  "scope_ok s \<longleftrightarrow> (\<forall>m \<in> set (masks s). mask_ok m)"

text \<open>A mask covers a path at a depth when the shorter of mask and path prefix agrees with it.\<close>

definition mask_covers :: "mask \<Rightarrow> bytes \<Rightarrow> int \<Rightarrow> bool" where
  "mask_covers m path bits \<longleftrightarrow>
     take (nat (min bits (mask_bits m))) (bits_of path) =
     take (nat (min bits (mask_bits m))) (bits_of (mask_value m))"

lemma mask_match_covers:
  assumes "mask_ok m" "length path = sha_size"
  shows "mask_match m path bits = Some (mask_covers m path bits)"
proof -
  have "bits < mask_bits m \<Longrightarrow> min bits (mask_bits m) = bits"
    "\<not> bits < mask_bits m \<Longrightarrow> min bits (mask_bits m) = mask_bits m" by simp_all
  then show ?thesis
    using assms by (auto simp: mask_match_def mask_ok_def mask_covers_def match_bits_correct)
qed

lemma masks_match_covers:
  assumes "length path = sha_size" "\<forall>m \<in> set ms. mask_ok m"
  shows "masks_match ms path bits = Some (\<exists>m \<in> set ms. mask_covers m path bits)"
  using assms(2) by (induction ms) (auto simp: mask_match_covers assms(1) split: bool.splits)

lemma scope_match_iff:
  assumes "scope_ok s" "length path = sha_size"
  shows "scope_match s path bits =
    Some (if masks s = [] then scope_all s else \<exists>m \<in> set (masks s). mask_covers m path bits)"
  using assms by (simp add: scope_match_def scope_ok_def masks_match_covers)

text \<open>Lowering the number of compared bits can only add matches.\<close>

lemma mask_covers_antimono:
  assumes "b \<le> b'" "mask_covers m path b'"
  shows "mask_covers m path b"
proof -
  have le: "nat (min b (mask_bits m)) \<le> nat (min b' (mask_bits m))" using assms(1) by simp
  from assms(2) have
    "take (nat (min b (mask_bits m))) (take (nat (min b' (mask_bits m))) (bits_of path)) =
     take (nat (min b (mask_bits m))) (take (nat (min b' (mask_bits m))) (bits_of (mask_value m)))"
    by (simp add: mask_covers_def)
  then show ?thesis using le by (simp add: mask_covers_def min_absorb1)
qed

lemma scope_match_antimono:
  assumes "scope_ok s" "length path = sha_size" "b \<le> b'" "scope_match s path b' = Some True"
  shows "scope_match s path b = Some True"
  using assms by (simp add: scope_match_iff split: if_splits) (meson mask_covers_antimono)

lemma scope_match_All [simp]: "scope_match (scope_All s) path bits = Some True"
  by (simp add: scope_match_def scope_All_def)

lemma scope_match_None [simp]: "scope_match (scope_None s) path bits = Some False"
  by (simp add: scope_match_def scope_None_def)

lemma scope_ok_All [simp]: "scope_ok (scope_All s)"
  by (simp add: scope_ok_def scope_All_def)

lemma scope_clone_eq [simp]: "scope_clone s = s"
  by (simp add: scope_clone_def)

end
