(* ===== verification/Protobuf.thy ===== *)
theory Protobuf
  imports Prelude
begin

text \<open>
  The preimage of a node label: \<open>toHash\<close> of \<open>omniledger/collection/singlenode.go\<close> and its wire
  format, as \<open>protobuf.Encode\<close> (\<open>vendor/github.com/dedis/protobuf/encode.go\<close>) produces it for
  this struct: fields in order with keys \<open>ID << 3 | wire type\<close>, a bool as a varint, byte slices
  and 32-byte arrays length-delimited, \<open>[][]byte\<close> as one entry per element.

  Main fact: on labels of fixed length the encoding is injective, so two nodes with equal labels
  and different contents are a collision of the hash function itself.
\<close>

record toHash =
  IsLeaf :: bool
  Key :: bytes
  Values :: "bytes list"
  LeftLabel :: bytes
  RightLabel :: bytes

fun uvarint :: "nat \<Rightarrow> bytes" where
  "uvarint x = (if x < 128 then [of_nat x] else of_nat (x mod 128 + 128) # uvarint (x div 128))"

declare uvarint.simps [simp del]

definition length_delimited :: "bytes \<Rightarrow> bytes" where
  "length_delimited b = uvarint (length b) @ b"

definition encode_values :: "bytes list \<Rightarrow> bytes" where
  "encode_values vs = concat (map (\<lambda>v. 0x1a # length_delimited v) vs)"

definition encode_toHash :: "toHash \<Rightarrow> bytes" where
  "encode_toHash d =
     [0x08, if IsLeaf d then 1 else 0]
     @ 0x12 # length_delimited (Key d)
     @ encode_values (Values d)
     @ 0x22 # length_delimited (LeftLabel d)
     @ 0x2a # length_delimited (RightLabel d)"

text \<open>\<open>toEncode.hash()\<close>; the hash function is a parameter of the development.\<close>

definition toHash_hash :: "(bytes \<Rightarrow> bytes) \<Rightarrow> toHash \<Rightarrow> bytes" where
  "toHash_hash sha d = sha (encode_toHash d)"

section \<open>The encoding can be read back\<close>

lemma of_nat_byte_eq: "m < 256 \<Longrightarrow> n < 256 \<Longrightarrow> (of_nat m :: byte) = of_nat n \<longleftrightarrow> m = n"
  by (simp add: word_of_nat_eq_iff take_bit_nat_eq_self)

lemma uvarint_prefix_free: "uvarint m @ xs = uvarint n @ ys \<Longrightarrow> m = n \<and> xs = ys"
proof (induction m arbitrary: n rule: uvarint.induct)
  case (1 m)
  have small: "(of_nat a :: byte) \<noteq> of_nat (b mod 128 + 128)" if "a < 128" for a b :: nat
    using that by (subst of_nat_byte_eq) auto
  consider "m < 128" "n < 128" | "m < 128" "\<not> n < 128" | "\<not> m < 128" "n < 128"
    | "\<not> m < 128" "\<not> n < 128" by blast
  then show ?case
  proof cases
    case 4
    then have "(of_nat (m mod 128 + 128) :: byte) = of_nat (n mod 128 + 128)"
      and "uvarint (m div 128) @ xs = uvarint (n div 128) @ ys"
      using "1.prems" by (simp_all add: uvarint.simps [of m] uvarint.simps [of n])
    then have "m mod 128 = n mod 128" "m div 128 = n div 128" "xs = ys"
      using "1.IH" 4 by (auto simp: of_nat_byte_eq)
    then show ?thesis by (metis div_mult_mod_eq)
  qed (use "1.prems" small [of m n] small [of n m] in
      \<open>auto simp: uvarint.simps [of m] uvarint.simps [of n] of_nat_byte_eq\<close>)
qed

lemma length_delimited_prefix_free:
  assumes "length_delimited a @ xs = length_delimited b @ ys"
  shows "a = b \<and> xs = ys"
proof -
  have "length a = length b \<and> a @ xs = b @ ys"
    using assms uvarint_prefix_free [of "length a" "a @ xs" "length b" "b @ ys"]
    by (simp add: length_delimited_def)
  then show ?thesis using append_eq_append_conv by blast
qed

lemma encode_values_Cons:
  "encode_values (v # vs) @ xs = 0x1a # length_delimited v @ encode_values vs @ xs"
  by (simp add: encode_values_def)

lemma encode_values_Nil [simp]: "encode_values [] = []"
  by (simp add: encode_values_def)

lemma encode_values_prefix_free:
  "encode_values vs @ 0x22 # xs = encode_values ws @ 0x22 # ys \<Longrightarrow> vs = ws \<and> xs = ys"
proof (induction vs arbitrary: ws)
  case Nil
  then show ?case by (cases ws) (simp_all add: encode_values_Cons del: append_Cons)
next
  case (Cons v vs)
  show ?case
  proof (cases ws)
    case Nil
    then show ?thesis using Cons.prems by (simp add: encode_values_Cons)
  next
    case (Cons w ws')
    then have "length_delimited v @ (encode_values vs @ 0x22 # xs)
        = length_delimited w @ (encode_values ws' @ 0x22 # ys)"
      using Cons.prems by (simp add: encode_values_Cons)
    then have "v = w" "encode_values vs @ 0x22 # xs = encode_values ws' @ 0x22 # ys"
      using length_delimited_prefix_free by blast+
    then show ?thesis using Cons.IH Cons by blast
  qed
qed

lemma encode_toHash_inject: "encode_toHash d = encode_toHash d' \<longleftrightarrow> d = d'"
proof
  assume eq: "encode_toHash d = encode_toHash d'"
  let ?rest = "\<lambda>d. length_delimited (LeftLabel d) @ 0x2a # length_delimited (RightLabel d)"
  from eq have leaf: "IsLeaf d = IsLeaf d'"
    and "length_delimited (Key d) @ encode_values (Values d) @ 0x22 # ?rest d
       = length_delimited (Key d') @ encode_values (Values d') @ 0x22 # ?rest d'"
    by (simp_all add: encode_toHash_def split: if_splits)
  then have key: "Key d = Key d'"
    and "encode_values (Values d) @ 0x22 # ?rest d = encode_values (Values d') @ 0x22 # ?rest d'"
    using length_delimited_prefix_free by blast+
  then have vs: "Values d = Values d'" and "?rest d = ?rest d'"
    using encode_values_prefix_free by blast+
  then have left: "LeftLabel d = LeftLabel d'"
    and "0x2a # length_delimited (RightLabel d) = 0x2a # length_delimited (RightLabel d')"
    using length_delimited_prefix_free by blast+
  then have "RightLabel d = RightLabel d'"
    using length_delimited_prefix_free [of "RightLabel d" "[]" "RightLabel d'" "[]"] by simp
  with leaf key vs left show "d = d'" by simp
qed simp

text \<open>
  Every function into 32 bytes has collisions, so facts about equal labels are stated for
  the byte strings that were actually hashed: the hash is injective on that finite set.
\<close>

lemma toHash_hash_eqD:
  assumes "inj_on sha A" "encode_toHash d \<in> A" "encode_toHash d' \<in> A"
    and "toHash_hash sha d = toHash_hash sha d'"
  shows "d = d'"
  using assms by (auto simp: toHash_hash_def encode_toHash_inject dest: inj_onD)

end
