(* ===== verification/Node.thy ===== *)
theory Node
  imports Field Scope Protobuf
begin

text \<open>
  Models \<open>omniledger/collection/node.go\<close> and \<open>singlenode.go\<close>: the nodes of the Merkle tree and
  the operations on a single node.

  A \<open>*node\<close> with both children nil is a \<open>Leaf\<close>, one with both children set is an \<open>Inner\<close>; the
  code always sets or clears the two pointers together. The fields that are not pointers to
  nodes form the record \<open>cell\<close>; \<open>saved\<close> is \<open>transaction.backup\<close>. Each node has exactly one
  owner (its parent, the backup of its parent, or the collection), so a node is a value here
  and a loop that climbs \<open>parent\<close> pointers is the return from a recursive descent.

  The slice \<open>values [][]byte\<close> is different: nodes do share its backing array (\<open>branch\<close> and the
  collapse in \<open>Remove\<close> copy the slice header), and \<open>Set\<close> writes elements in place. So \<open>vals\<close>
  is the address of an array in a store of value arrays, and the operations that allocate or
  write arrays thread the store. Address 0 is the nil slice, which has no elements.
\<close>

type_synonym aref = nat
type_synonym store = "bytes list list"

definition nil_ref :: aref where
  "nil_ref = 0"

definition empty_store :: store where
  "empty_store = [[]]"

definition read :: "store \<Rightarrow> aref \<Rightarrow> bytes list" where
  "read st r = (if r < length st then st ! r else [])"

text \<open>\<open>make([][]byte, n)\<close> followed by filling in the elements.\<close>

definition alloc :: "store \<Rightarrow> bytes list \<Rightarrow> store \<times> aref" where
  "alloc st vs = (st @ [vs], length st)"

record cell =
  label :: bytes
  known :: bool
  inconsistent :: bool
  key :: bytes
  vals :: aref

datatype node =
    Leaf (cell: cell) (saved: "node option")
  | Inner (cell: cell) (saved: "node option") (left: node) (right: node)

text \<open>\<open>new(node)\<close>: all fields zero.\<close>

definition new_node :: node where
  "new_node = Leaf \<lparr>label = zero_digest, known = False, inconsistent = False, key = [],
                    vals = nil_ref\<rparr> None"

fun set_cell :: "(cell \<Rightarrow> cell) \<Rightarrow> node \<Rightarrow> node" where
  "set_cell f (Leaf c b) = Leaf (f c) b"
| "set_cell f (Inner c b l r) = Inner (f c) b l r"

fun set_saved :: "node option \<Rightarrow> node \<Rightarrow> node" where
  "set_saved b' (Leaf c b) = Leaf c b'"
| "set_saved b' (Inner c b l r) = Inner c b' l r"

text \<open>Induction over the tree proper, without looking into backups.\<close>

lemma tree_induct [case_names Leaf Inner]:
  assumes "\<And>c b. P (Leaf c b)" "\<And>c b l r. P l \<Longrightarrow> P r \<Longrightarrow> P (Inner c b l r)"
  shows "P n"
  by (induction n rule: node.induct) (use assms in auto)

section \<open>node.go\<close>

fun node_leaf :: "node \<Rightarrow> bool" where
  "node_leaf (Leaf c b) = True"
| "node_leaf (Inner c b l r) = False"

definition node_placeholder :: "node \<Rightarrow> bool" where
  "node_placeholder n \<longleftrightarrow> node_leaf n \<and> length (key (cell n)) = 0"

definition node_backup :: "store \<Rightarrow> node \<Rightarrow> store \<times> node" where
  "node_backup st n =
     (case saved n of
        None \<Rightarrow>
          (let (st', copy) = alloc st (read st (vals (cell n)))
           in (st', set_saved (Some (set_saved None (set_cell (\<lambda>c. c\<lparr>vals := copy\<rparr>) n))) n))
      | Some b \<Rightarrow> (st, n))"

definition node_restore :: "node \<Rightarrow> node" where
  "node_restore n = (case saved n of None \<Rightarrow> n | Some backup \<Rightarrow> set_saved None backup)"

definition node_branch :: "node \<Rightarrow> node" where
  "node_branch n = Inner (cell n) (saved n) new_node new_node"

definition node_prune :: "node \<Rightarrow> node" where
  "node_prune n = Leaf (cell n) (saved n)"

section \<open>singlenode.go\<close>

definition generateHash :: "(bytes \<Rightarrow> bytes) \<Rightarrow> store \<Rightarrow> node \<Rightarrow> bytes" where
  "generateHash sha st n = toHash_hash sha
     (case n of
        Leaf c b \<Rightarrow>
          \<lparr>IsLeaf = True, Key = key c, Values = read st (vals c),
           LeftLabel = zero_digest, RightLabel = zero_digest\<rparr>
      | Inner c b l r \<Rightarrow>
          \<lparr>IsLeaf = False, Key = [], Values = read st (vals c),
           LeftLabel = label (cell l), RightLabel = label (cell r)\<rparr>)"

text \<open>
  The loop of \<open>update\<close> over the fields: the array as it is when the loop is left, with the
  error that ended it, if any (the remaining entries are still nil). A child with fewer
  values than there are fields makes the index expression panic.
\<close>

fun parent_values ::
  "field list \<Rightarrow> bytes list \<Rightarrow> bytes list \<Rightarrow> (coll_error option \<times> bytes list) option" where
  "parent_values [] ls rs = Some (None, [])"
| "parent_values (F # fs) (l # ls) (r # rs) =
     (case Parent F l r of
        Inl parentError \<Rightarrow> Some (Some parentError, replicate (Suc (length fs)) [])
      | Inr parentValue \<Rightarrow>
          do { (e, vs) \<leftarrow> parent_values fs ls rs; Some (e, parentValue # vs) })"
| "parent_values (F # fs) _ _ = None"

definition update ::
  "(bytes \<Rightarrow> bytes) \<Rightarrow> field list \<Rightarrow> store \<Rightarrow> node \<Rightarrow> (coll_error option \<times> store \<times> node) option" where
  "update sha fs st n =
     (if \<not> known (cell n) then Some (Some UpdatingUnknownNode, st, n)
      else case n of
        Leaf c b \<Rightarrow> Some (None, st, Leaf (c\<lparr>label := generateHash sha st n\<rparr>) b)
      | Inner c b l r \<Rightarrow>
          if \<not> known (cell l) \<or> \<not> known (cell r) then Some (Some UnknownChildren, st, n)
          else do {
            (parentError, vs) \<leftarrow> parent_values fs (read st (vals (cell l))) (read st (vals (cell r)));
            let (st', ref) = alloc st vs;
            let n' = Inner (c\<lparr>vals := ref\<rparr>) b l r;
            case parentError of
              Some e \<Rightarrow> Some (Some e, st', n')
            | None \<Rightarrow>
                Some (None, st', Inner (c\<lparr>vals := ref, label := generateHash sha st' n'\<rparr>) b l r)
          })"

definition setPlaceholder ::
  "(bytes \<Rightarrow> bytes) \<Rightarrow> field list \<Rightarrow> store \<Rightarrow> node \<Rightarrow> (coll_error option \<times> store \<times> node) option" where
  "setPlaceholder sha fs st n =
     (let (st', ref) = alloc st (map Placeholder fs)
      in update sha fs st' (Leaf ((cell n)\<lparr>known := True, key := [], vals := ref\<rparr>) (saved n)))"

section \<open>The single-node operations\<close>

lemma read_alloc_same [simp]: "read (st @ [vs]) (length st) = vs"
  by (simp add: read_def)

lemma read_append [simp]: "r < length st \<Longrightarrow> read (st @ xs) r = read st r"
  by (simp add: read_def nth_append)

lemma read_update_same [simp]: "r < length st \<Longrightarrow> read (st[r := vs]) r = vs"
  by (simp add: read_def)

lemma read_update_other [simp]: "r \<noteq> r' \<Longrightarrow> read (st[r := vs]) r' = read st r'"
  by (simp add: read_def)

lemma cell_set_cell [simp]: "cell (set_cell f n) = f (cell n)"
  by (cases n) auto

lemma saved_set_cell [simp]: "saved (set_cell f n) = saved n"
  by (cases n) auto

lemma cell_set_saved [simp]: "cell (set_saved b n) = cell n"
  by (cases n) auto

lemma saved_set_saved [simp]: "saved (set_saved b n) = b"
  by (cases n) auto

lemma node_leaf_iff: "node_leaf n \<longleftrightarrow> n = Leaf (cell n) (saved n)"
  by (cases n) auto

lemma node_leaf_set [simp]: "node_leaf (set_cell f n) = node_leaf n" "node_leaf (set_saved b n) = node_leaf n"
  by (cases n; simp)+

text \<open>\<open>restore\<close> after \<open>backup\<close> gives back the node, with its values in a fresh array.\<close>

lemma backup_restore:
  assumes "saved n = None" "node_backup st n = (st', n')"
  shows "node_restore n' = set_cell (\<lambda>c. c\<lparr>vals := length st\<rparr>) n"
    and "read st' (length st) = read st (vals (cell n))"
  using assms by (cases n; auto simp: node_backup_def node_restore_def alloc_def)+

lemma node_backup_idem: "node_backup st n = (st', n') \<Longrightarrow> node_backup st' n' = (st', n')"
  by (auto simp: node_backup_def alloc_def split: option.splits)

lemma parent_values_ok:
  assumes "\<forall>F \<in> set fs. merkle_field F"
    and "list_all2 decodable fs ls" "list_all2 decodable fs rs"
  shows "\<exists>vs. parent_values fs ls rs = Some (None, vs) \<and> list_all2 decodable fs vs"
  using assms(2,3,1)
proof (induction fs arbitrary: ls rs)
  case Nil
  then show ?case by simp
next
  case (Cons F fs)
  then obtain l ls' r rs' where "ls = l # ls'" "rs = r # rs'" "decodable F l" "decodable F r"
    by (auto simp: list_all2_Cons1)
  moreover from Cons.prems this obtain p where "Parent F l r = Inr p" "decodable F p"
    using merkle_field.parent_total [of F l r] by auto
  moreover obtain vs where "parent_values fs ls' rs' = Some (None, vs)" "list_all2 decodable fs vs"
    using Cons.IH [of ls' rs'] Cons.prems calculation by auto
  ultimately show ?case by auto
qed

lemma setPlaceholder_eq:
  "setPlaceholder sha fs st n =
     Some (None, st @ [map Placeholder fs],
       Leaf ((cell n)\<lparr>known := True, key := [], vals := length st,
         label := toHash_hash sha \<lparr>IsLeaf = True, Key = [], Values = map Placeholder fs,
           LeftLabel = zero_digest, RightLabel = zero_digest\<rparr>\<rparr>) (saved n))"
  by (simp add: setPlaceholder_def update_def alloc_def generateHash_def)

end
