(* ===== verification/Collection.thy ===== *)
theory Collection
  imports Node
begin

text \<open>
  Models \<open>omniledger/collection/collection.go\<close>: the collection, its constructors \<open>New\<close> and
  \<open>NewVerifier\<close>, and \<open>Clone\<close>. \<open>arrays\<close> is the store of the value arrays its nodes point to.
\<close>

record collection =
  root :: node
  coll_fields :: "field list"
  coll_scope :: scope
  autoCollect :: flag
  ongoing :: bool
  tx_id :: "64 word"
  arrays :: store

definition empty_scope :: scope where
  "empty_scope = \<lparr>masks = [], scope_all = False\<rparr>"

definition New :: "(bytes \<Rightarrow> bytes) \<Rightarrow> field list \<Rightarrow> collection option" where
  "New sha fs =
     (let root0 = node_branch (set_cell (\<lambda>c. c\<lparr>known := True\<rparr>) new_node) in
      do {
        (errl, st1, l) \<leftarrow> setPlaceholder sha fs empty_store (left root0);
        (if errl \<noteq> None then None else do {
          (errr, st2, r) \<leftarrow> setPlaceholder sha fs st1 (right root0);
          (if errr \<noteq> None then None else do {
            (e, st3, n) \<leftarrow> update sha fs st2 (Inner (cell root0) (saved root0) l r);
            Some \<lparr>root = n, coll_fields = fs, coll_scope = scope_All empty_scope,
                  autoCollect = flag_Enable \<lparr>flag_value = False\<rparr>,
                  ongoing = False, tx_id = 0, arrays = st3\<rparr>
          })
        })
      })"

definition NewVerifier :: "(bytes \<Rightarrow> bytes) \<Rightarrow> field list \<Rightarrow> collection option" where
  "NewVerifier sha fs =
     do {
       empty \<leftarrow> New sha fs;
       Some \<lparr>root = set_cell (\<lambda>c. c\<lparr>known := False, label := label (cell (root empty))\<rparr>) new_node,
             coll_fields = fs, coll_scope = scope_None empty_scope,
             autoCollect = flag_Enable \<lparr>flag_value = False\<rparr>,
             ongoing = False, tx_id = 0, arrays = empty_store\<rparr>
     }"

fun clone_node :: "store \<Rightarrow> store \<Rightarrow> node \<Rightarrow> store \<times> node" where
  "clone_node src dst (Leaf c b) =
     (let (dst', ref) = alloc dst (read src (vals c))
      in (dst', Leaf (c\<lparr>inconsistent := False, vals := ref\<rparr>) None))"
| "clone_node src dst (Inner c b l r) =
     (let (dst1, ref) = alloc dst (read src (vals c));
          (dst2, l') = clone_node src dst1 l;
          (dst3, r') = clone_node src dst2 r
      in (dst3, Inner (c\<lparr>inconsistent := False, vals := ref\<rparr>) None l' r'))"

definition Clone :: "collection \<Rightarrow> collection option" where
  "Clone c =
     (if ongoing c then None
      else (let (st, n) = clone_node (arrays c) empty_store (root c)
            in Some \<lparr>root = n, coll_fields = coll_fields c, coll_scope = scope_clone (coll_scope c),
                     autoCollect = autoCollect c, ongoing = False, tx_id = 0, arrays = st\<rparr>))"

definition GetRoot :: "collection \<Rightarrow> bytes" where
  "GetRoot c = key (cell (root c))"

end
