(* ===== verification/Transaction.thy ===== *)
theory Transaction
  imports Collection
begin

text \<open>
  Models \<open>omniledger/collection/transaction.go\<close>: beginning, rolling back and ending a
  transaction, and \<open>Collect\<close>, which prunes the subtrees outside the scope. The local closures
  \<open>explore\<close> are the recursive functions on nodes below; a path is passed by value in Go
  (an array), so every call works on its own copy.
\<close>

definition Begin :: "collection \<Rightarrow> collection option" where
  "Begin c = (if ongoing c then None else Some (c\<lparr>ongoing := True\<rparr>))"

section \<open>Rollback\<close>

lemma size_saved [termination_simp]: "saved n = Some b \<Longrightarrow> size b < size n"
  by (cases n) auto

lemma size_option_pos: "Suc 0 \<le> size_option size b"
  by (cases b) auto

lemma size_set_saved_None: "size (set_saved None b) \<le> size b"
  by (cases b) (auto simp: size_option_pos)

lemma size_restore_children:
  "node_restore n = Inner c b l r \<Longrightarrow> size l < size n \<and> size r < size n"
proof -
  assume res: "node_restore n = Inner c b l r"
  have "size (node_restore n) \<le> size n"
    using order.trans [OF size_set_saved_None less_imp_le [OF size_saved]]
    by (auto simp: node_restore_def split: option.splits)
  then show ?thesis using res by simp
qed

function rollback_node :: "node \<Rightarrow> node" where
  "rollback_node n =
     (if inconsistent (cell n) \<or> saved n \<noteq> None
      then (case node_restore n of
              Leaf c b \<Rightarrow> Leaf c b
            | Inner c b l r \<Rightarrow> Inner c b (rollback_node l) (rollback_node r))
      else n)"
  by pat_completeness auto
termination
  by (relation "measure size") (auto dest: size_restore_children)

declare rollback_node.simps [simp del]

definition Rollback :: "collection \<Rightarrow> collection option" where
  "Rollback c =
     (if \<not> ongoing c then None
      else Some (c\<lparr>root := rollback_node (root c), tx_id := tx_id c + 1, ongoing := False\<rparr>))"

section \<open>Collect\<close>

definition collect_cut :: "node \<Rightarrow> node" where
  "collect_cut n = node_prune (set_cell (\<lambda>c. c\<lparr>known := False, key := [], vals := nil_ref\<rparr>) n)"

fun collect_node :: "scope \<Rightarrow> node \<Rightarrow> bytes \<Rightarrow> nat \<Rightarrow> node option" where
  "collect_node sc (Leaf c b) path bitIndex =
     (if \<not> known c then Some (Leaf c b)
      else do {
        inside \<leftarrow> (if 0 < bitIndex then scope_match sc path (int bitIndex - 1) else Some True);
        Some (if \<not> inside then collect_cut (Leaf c b) else Leaf c b)
      })"
| "collect_node sc (Inner c b l r) path bitIndex =
     (if \<not> known c then Some (Inner c b l r)
      else do {
        inside \<leftarrow> (if 0 < bitIndex then scope_match sc path (int bitIndex - 1) else Some True);
        (if \<not> inside then Some (collect_cut (Inner c b l r))
         else do {
           path0 \<leftarrow> setBit path (bitIndex + 1) False;
           l' \<leftarrow> collect_node sc l path0 (bitIndex + 1);
           path1 \<leftarrow> setBit path0 (bitIndex + 1) True;
           r' \<leftarrow> collect_node sc r path1 (bitIndex + 1);
           Some (Inner c b l' r')
         })
      })"

definition Collect :: "collection \<Rightarrow> collection option" where
  "Collect c =
     (if \<not> known (cell (root c)) then Some c
      else do {
        path0 \<leftarrow> setBit zero_digest 0 False;
        m0 \<leftarrow> scope_match (coll_scope c) path0 0;
        path1 \<leftarrow> setBit path0 0 True;
        m1 \<leftarrow> scope_match (coll_scope c) path1 0;
        (if \<not> m0 \<and> \<not> m1
         then Some (c\<lparr>root := collect_cut (root c)\<rparr>)
         else (case root c of
             Leaf rc b \<Rightarrow> None
           | Inner rc b l r \<Rightarrow> do {
               path2 \<leftarrow> setBit path1 0 False;
               l' \<leftarrow> collect_node (coll_scope c) l path2 0;
               path3 \<leftarrow> setBit path2 0 True;
               r' \<leftarrow> collect_node (coll_scope c) r path3 0;
               Some (c\<lparr>root := Inner rc b l' r'\<rparr>)
             }))
      })"

section \<open>End\<close>

fun confirm_node :: "node \<Rightarrow> node" where
  "confirm_node (Leaf c b) = (if inconsistent c \<or> b \<noteq> None then Leaf c None else Leaf c b)"
| "confirm_node (Inner c b l r) =
     (if inconsistent c \<or> b \<noteq> None then Inner c None (confirm_node l) (confirm_node r)
      else Inner c b l r)"

fun fix_node ::
  "(bytes \<Rightarrow> bytes) \<Rightarrow> field list \<Rightarrow> store \<Rightarrow> node \<Rightarrow> (store \<times> node) option" where
  "fix_node sha fs st (Leaf c b) =
     (if inconsistent c
      then do {
        (e, st', n) \<leftarrow> update sha fs st (Leaf c b);
        Some (st', set_cell (\<lambda>c. c\<lparr>inconsistent := False\<rparr>) n)
      }
      else Some (st, Leaf c b))"
| "fix_node sha fs st (Inner c b l r) =
     (if inconsistent c
      then do {
        (st1, l') \<leftarrow> fix_node sha fs st l;
        (st2, r') \<leftarrow> fix_node sha fs st1 r;
        (e, st3, n) \<leftarrow> update sha fs st2 (Inner c b l' r');
        Some (st3, set_cell (\<lambda>c. c\<lparr>inconsistent := False\<rparr>) n)
      }
      else Some (st, Inner c b l r))"

definition End :: "(bytes \<Rightarrow> bytes) \<Rightarrow> collection \<Rightarrow> collection option" where
  "End sha c =
     (if \<not> ongoing c then None
      else do {
        (st, n) \<leftarrow> fix_node sha (coll_fields c) (arrays c) (confirm_node (root c));
        c1 \<leftarrow> (let c0 = c\<lparr>root := n, arrays := st\<rparr>
               in if flag_value (autoCollect c0) then Collect c0 else Some c0);
        Some (c1\<lparr>tx_id := tx_id c1 + 1, ongoing := False\<rparr>)
      })"

end
