(* ===== verification/Manipulators.thy ===== *)
theory Manipulators
  imports Transaction
begin

text \<open>
  Models \<open>omniledger/collection/manipulators.go\<close>: \<open>Add\<close>, \<open>Set\<close>, \<open>SetField\<close> and \<open>Remove\<close>. Each
  operation walks down from the root along the bits of the hash of the key, changes a leaf,
  and climbs back to the root. The walk is a recursion on the cursor; what follows the
  recursive call is the body of the climbing loop for that cursor.

  A walk returns \<open>None\<close> for a panic and \<open>Inl\<close> for an error; the code returns errors before it
  has changed anything.
\<close>

text \<open>What the climbing loop does with an ancestor.\<close>

definition mark_inconsistent :: "node \<Rightarrow> node" where
  "mark_inconsistent n = set_cell (\<lambda>c. c\<lparr>inconsistent := True\<rparr>) n"

definition climb ::
  "(bytes \<Rightarrow> bytes) \<Rightarrow> field list \<Rightarrow> bool \<Rightarrow> store \<Rightarrow> node \<Rightarrow> (store \<times> node) option" where
  "climb sha fs tx st n =
     (if tx then Some (st, mark_inconsistent n)
      else do { (e, st', n') \<leftarrow> update sha fs st n; Some (st', n') })"

definition backup_if :: "bool \<Rightarrow> store \<Rightarrow> node \<Rightarrow> store \<times> node" where
  "backup_if tx st n = (if tx then node_backup st n else (st, n))"

definition rebuild :: "cell \<Rightarrow> node option \<Rightarrow> node \<Rightarrow> node \<Rightarrow> bool \<Rightarrow> node \<Rightarrow> node" where
  "rebuild c b l r step child = (if step = Right then Inner c b l child else Inner c b child r)"

section \<open>Add\<close>

text \<open>
  The cursor is a leaf that holds another key: it becomes an inner node over the old leaf and
  a placeholder. \<open>depth\<close> is the depth of the cursor.
\<close>

definition split_leaf ::
  "(bytes \<Rightarrow> bytes) \<Rightarrow> field list \<Rightarrow> bool \<Rightarrow> nat \<Rightarrow> store \<Rightarrow> node \<Rightarrow>
   (coll_error + (store \<times> node)) option" where
  "split_leaf sha fs tx depth st cursor =
     (let old = cell cursor in
      do {
        collisionStep \<leftarrow> bit_at (sha (key old)) depth;
        let (st1, cursor1) = backup_if tx st cursor;
        let cursor2 = node_branch (set_cell (\<lambda>c. c\<lparr>key := []\<rparr>) cursor1);
        let validNode = set_cell (\<lambda>c. c\<lparr>known := True, label := label old, key := key old,
                                       vals := vals old\<rparr>) new_node;
        (err, st2, placeholder) \<leftarrow> setPlaceholder sha fs st1 new_node;
        (case err of
           Some e \<Rightarrow> Some (Inl e)
         | None \<Rightarrow> Some (Inr (st2,
             if collisionStep then Inner (cell cursor2) (saved cursor2) placeholder validNode
             else Inner (cell cursor2) (saved cursor2) validNode placeholder)))
      })"

definition put_leaf ::
  "(bytes \<Rightarrow> bytes) \<Rightarrow> field list \<Rightarrow> bool \<Rightarrow> bytes \<Rightarrow> aref \<Rightarrow> store \<Rightarrow> node \<Rightarrow>
   (store \<times> node) option" where
  "put_leaf sha fs tx k rawValues st cursor =
     (let (st1, cursor1) = backup_if tx st cursor in
      do {
        (e, st2, cursor2) \<leftarrow>
          update sha fs st1 (set_cell (\<lambda>c. c\<lparr>key := k, vals := rawValues\<rparr>) cursor1);
        Some (st2, cursor2)
      })"

function add_at ::
  "(bytes \<Rightarrow> bytes) \<Rightarrow> field list \<Rightarrow> bool \<Rightarrow> bytes \<Rightarrow> bytes \<Rightarrow> aref \<Rightarrow> nat \<Rightarrow> store \<Rightarrow> node \<Rightarrow>
   (coll_error + (store \<times> node)) option" where
  "add_at sha fs tx path k rawValues depth st (Leaf c b) = None"
| "add_at sha fs tx path k rawValues depth st (Inner c b l r) =
     (if \<not> known (cell l) \<or> \<not> known (cell r) then Some (Inl ProofNeeded)
      else case bit_at path depth of
        None \<Rightarrow> None
      | Some step \<Rightarrow>
          (let cursor = (if step = Right then r else l) in
           do {
             res \<leftarrow>
               (if node_placeholder cursor
                then do { s \<leftarrow> put_leaf sha fs tx k rawValues st cursor; Some (Inr s) }
                else if node_leaf cursor
                then (if bytes_equal k (key (cell cursor)) then Some (Inl KeyCollision)
                      else (case split_leaf sha fs tx (depth + 1) st cursor of
                          None \<Rightarrow> None
                        | Some (Inl e) \<Rightarrow> Some (Inl e)
                        | Some (Inr (st1, cursor1)) \<Rightarrow>
                            add_at sha fs tx path k rawValues (depth + 1) st1 cursor1))
                else add_at sha fs tx path k rawValues (depth + 1) st cursor);
             (case res of
                Inl e \<Rightarrow> Some (Inl e)
              | Inr (st', child) \<Rightarrow>
                  do { s \<leftarrow> climb sha fs tx st' (rebuild c b l r step child); Some (Inr s) })
           }))"
  by pat_completeness auto
termination
  by (relation "measure (\<lambda>(sha, fs, tx, path, k, rawValues, depth, st, n). 8 * length path - depth)")
    auto

declare add_at.simps(2) [simp del]

fun encode_all :: "field list \<Rightarrow> gval list \<Rightarrow> bytes list option" where
  "encode_all (F # fs) (v # vs) =
     do { raw \<leftarrow> Encode F v; raws \<leftarrow> encode_all fs vs; Some (raw # raws) }"
| "encode_all [] _ = Some []"
| "encode_all (F # fs) [] = None"

text \<open>The end of the three operations: outside a transaction the tree is collected.\<close>

definition finish :: "collection \<Rightarrow> store \<times> node \<Rightarrow> (coll_error option \<times> collection) option" where
  "finish c s =
     (let c' = c\<lparr>arrays := fst s, root := snd s\<rparr>
      in if \<not> ongoing c' then do { c'' \<leftarrow> Collect c'; Some (None, c'') } else Some (None, c'))"

definition Add ::
  "(bytes \<Rightarrow> bytes) \<Rightarrow> collection \<Rightarrow> bytes \<Rightarrow> gval list \<Rightarrow> (coll_error option \<times> collection) option" where
  "Add sha c k values =
     (if length k = 0 then Some (Some EmptyKey, c)
      else if length values \<noteq> length (coll_fields c) then None
      else do {
        raw \<leftarrow> encode_all (coll_fields c) values;
        let (st, rawValues) = alloc (arrays c) raw;
        let path = sha k;
        (if \<not> known (cell (root c)) then Some (Some ProofNeeded, c)
         else do {
           res \<leftarrow> add_at sha (coll_fields c) (ongoing c) path k rawValues 0 st (root c);
           (case res of Inl e \<Rightarrow> Some (Some e, c) | Inr s \<Rightarrow> finish c s)
         })
      })"

section \<open>Set\<close>

fun set_values :: "field list \<Rightarrow> gval list \<Rightarrow> bytes list \<Rightarrow> bytes list option" where
  "set_values [] values vs = Some vs"
| "set_values (F # fs) [] vs = None"
| "set_values (F # fs) (value # values) vs =
     (if value = GSame
      then (case vs of [] \<Rightarrow> set_values fs values []
                     | v # vs' \<Rightarrow> do { ws \<leftarrow> set_values fs values vs'; Some (v # ws) })
      else do {
        raw \<leftarrow> Encode F value;
        (case vs of [] \<Rightarrow> None
                  | v # vs' \<Rightarrow> do { ws \<leftarrow> set_values fs values vs'; Some (raw # ws) })
      })"

text \<open>
  The array the cursor points to is overwritten in place. (An array that does not exist has no
  elements, and writing none of them changes nothing.)
\<close>

definition overwrite_leaf ::
  "(bytes \<Rightarrow> bytes) \<Rightarrow> field list \<Rightarrow> bool \<Rightarrow> gval list \<Rightarrow> store \<Rightarrow> node \<Rightarrow> (store \<times> node) option" where
  "overwrite_leaf sha fs tx values st cursor =
     (let (st1, cursor1) = backup_if tx st cursor; ref = vals (cell cursor1) in
      do {
        vs \<leftarrow> set_values fs values (read st1 ref);
        (e, st2, cursor2) \<leftarrow> update sha fs (st1[ref := vs]) cursor1;
        Some (st2, cursor2)
      })"

fun set_at ::
  "(bytes \<Rightarrow> bytes) \<Rightarrow> field list \<Rightarrow> bool \<Rightarrow> bytes \<Rightarrow> bytes \<Rightarrow> gval list \<Rightarrow> nat \<Rightarrow> store \<Rightarrow> node \<Rightarrow>
   (coll_error + (store \<times> node)) option" where
  "set_at sha fs tx path k values depth st (Leaf c b) = None"
| "set_at sha fs tx path k values depth st (Inner c b l r) =
     (if \<not> known (cell l) \<or> \<not> known (cell r) then Some (Inl ProofNeeded)
      else case bit_at path depth of
        None \<Rightarrow> None
      | Some step \<Rightarrow>
          do {
             res \<leftarrow>
               (if node_leaf (if step then r else l)
                then (if \<not> bytes_equal (key (cell (if step then r else l))) k
                      then Some (Inl KeyNotFound)
                      else do {
                        s \<leftarrow> overwrite_leaf sha fs tx values st (if step then r else l);
                        Some (Inr s) })
                else if step then set_at sha fs tx path k values (depth + 1) st r
                else set_at sha fs tx path k values (depth + 1) st l);
             (case res of
                Inl e \<Rightarrow> Some (Inl e)
              | Inr (st', child) \<Rightarrow>
                  do { s \<leftarrow> climb sha fs tx st' (rebuild c b l r step child); Some (Inr s) })
           })"

declare set_at.simps(2) [simp del]

definition Set ::
  "(bytes \<Rightarrow> bytes) \<Rightarrow> collection \<Rightarrow> bytes \<Rightarrow> gval list \<Rightarrow> (coll_error option \<times> collection) option" where
  "Set sha c k values =
     (if length values \<noteq> length (coll_fields c) then None
      else (let path = sha k in
        if \<not> known (cell (root c)) then Some (Some ProofNeeded, c)
        else do {
          res \<leftarrow> set_at sha (coll_fields c) (ongoing c) path k values 0 (arrays c) (root c);
          (case res of Inl e \<Rightarrow> Some (Some e, c) | Inr s \<Rightarrow> finish c s)
        }))"

text \<open>
  \<open>field\<close> is an \<open>int\<close>: only the upper bound is checked, a negative index leaves every value as
  it is.
\<close>

definition SetField ::
  "(bytes \<Rightarrow> bytes) \<Rightarrow> collection \<Rightarrow> bytes \<Rightarrow> int \<Rightarrow> gval \<Rightarrow> (coll_error option \<times> collection) option" where
  "SetField sha c k field value =
     (if field \<ge> int (length (coll_fields c)) then None
      else Set sha c k
        (map (\<lambda>index. if int index = field then value else GSame) [0..<length (coll_fields c)]))"

section \<open>Remove\<close>

definition clear_leaf ::
  "(bytes \<Rightarrow> bytes) \<Rightarrow> field list \<Rightarrow> bool \<Rightarrow> store \<Rightarrow> node \<Rightarrow> (coll_error + (store \<times> node)) option" where
  "clear_leaf sha fs tx st cursor =
     (let (st1, cursor1) = backup_if tx st cursor in
      do {
        (err, st2, cursor2) \<leftarrow> setPlaceholder sha fs st1 cursor1;
        Some (case err of Some e \<Rightarrow> Inl e | None \<Rightarrow> Inr (st2, cursor2))
      })"

definition collapsible :: "node \<Rightarrow> node \<Rightarrow> bool" where
  "collapsible l r \<longleftrightarrow> (node_placeholder l \<and> node_leaf r) \<or> (node_placeholder r \<and> node_leaf l)"

text \<open>The label, the key and the values slice of the remaining child move to the cursor.\<close>

definition collapse :: "bool \<Rightarrow> store \<Rightarrow> node \<Rightarrow> store \<times> node" where
  "collapse tx st cursor =
     (let (st1, cursor1) = backup_if tx st cursor;
          other = cell (if node_placeholder (left cursor1) then right cursor1 else left cursor1)
      in (st1, node_prune (set_cell (\<lambda>c. c\<lparr>label := label other, key := key other,
                                            vals := vals other\<rparr>) cursor1)))"

definition climb_remove ::
  "(bytes \<Rightarrow> bytes) \<Rightarrow> field list \<Rightarrow> bool \<Rightarrow> bool \<Rightarrow> store \<Rightarrow> node \<Rightarrow> (store \<times> node) option" where
  "climb_remove sha fs tx is_root st n =
     (if \<not> is_root \<and> collapsible (left n) (right n) then Some (collapse tx st n)
      else climb sha fs tx st n)"

fun remove_at ::
  "(bytes \<Rightarrow> bytes) \<Rightarrow> field list \<Rightarrow> bool \<Rightarrow> bytes \<Rightarrow> bytes \<Rightarrow> bool \<Rightarrow> nat \<Rightarrow> store \<Rightarrow> node \<Rightarrow>
   (coll_error + (store \<times> node)) option" where
  "remove_at sha fs tx path k is_root depth st (Leaf c b) = None"
| "remove_at sha fs tx path k is_root depth st (Inner c b l r) =
     (if \<not> known (cell l) \<or> \<not> known (cell r) then Some (Inl ProofNeeded)
      else case bit_at path depth of
        None \<Rightarrow> None
      | Some step \<Rightarrow>
          do {
             res \<leftarrow>
               (if node_leaf (if step then r else l)
                then (if \<not> bytes_equal (key (cell (if step then r else l))) k
                      then Some (Inl KeyNotFound)
                      else clear_leaf sha fs tx st (if step then r else l))
                else if step then remove_at sha fs tx path k False (depth + 1) st r
                else remove_at sha fs tx path k False (depth + 1) st l);
             (case res of
                Inl e \<Rightarrow> Some (Inl e)
              | Inr (st', child) \<Rightarrow>
                  do { s \<leftarrow> climb_remove sha fs tx is_root st' (rebuild c b l r step child);
                       Some (Inr s) })
           })"

declare remove_at.simps(2) [simp del]

definition Remove ::
  "(bytes \<Rightarrow> bytes) \<Rightarrow> collection \<Rightarrow> bytes \<Rightarrow> (coll_error option \<times> collection) option" where
  "Remove sha c k =
     (let path = sha k in
      if \<not> known (cell (root c)) then Some (Some ProofNeeded, c)
      else do {
        res \<leftarrow> remove_at sha (coll_fields c) (ongoing c) path k True 0 (arrays c) (root c);
        (case res of Inl e \<Rightarrow> Some (Some e, c) | Inr s \<Rightarrow> finish c s)
      })"

end
