(* ===== verification/Invariant.thy ===== *)
theory Invariant
  imports Manipulators
begin

text \<open>
  What the operations of the collection keep true of its tree, and the key/value map the tree
  stands for.

  \<^item> \<open>tree_ok\<close>: labels are the hashes of what is below them, the values of an inner node are
    the \<open>Parent\<close> of its children's, every key lies on the path given by the bits of its hash,
    placeholders hold placeholder values. Inside a transaction the ancestors of a changed leaf are
    marked \<open>inconsistent\<close> and their own label and values say nothing until \<open>fix\<close> has run (which
    needs both children known).
  \<^item> \<open>separated\<close>: no two nodes whose values matter share a value array, which is what makes
    writing an array in place safe.
  \<^item> \<open>contents\<close>: the map from keys to values.
  \<^item> \<open>shrunk\<close>: no inner node but the root could be replaced by a leaf.
\<close>

definition path_of :: "(bytes \<Rightarrow> bytes) \<Rightarrow> bytes \<Rightarrow> bool list" where
  "path_of sha k = bits_of (sha k)"

definition on_path :: "(bytes \<Rightarrow> bytes) \<Rightarrow> bool list \<Rightarrow> bytes \<Rightarrow> bool" where
  "on_path sha pre k \<longleftrightarrow> take (length pre) (path_of sha k) = pre"

fun clean :: "node \<Rightarrow> bool" where
  "clean (Leaf c b) \<longleftrightarrow> \<not> inconsistent c \<and> b = None"
| "clean (Inner c b l r) \<longleftrightarrow> \<not> inconsistent c \<and> b = None \<and> clean l \<and> clean r"

definition values_ok :: "field list \<Rightarrow> bytes list \<Rightarrow> bool" where
  "values_ok fs vs \<longleftrightarrow> list_all2 decodable fs vs"

fun tree_ok :: "(bytes \<Rightarrow> bytes) \<Rightarrow> field list \<Rightarrow> store \<Rightarrow> bool list \<Rightarrow> node \<Rightarrow> bool" where
  "tree_ok sha fs st pre (Leaf c b) \<longleftrightarrow>
     (if known c
      then values_ok fs (read st (vals c)) \<and> label c = generateHash sha st (Leaf c b) \<and>
           (if key c = [] then read st (vals c) = map Placeholder fs else on_path sha pre (key c))
      else \<not> inconsistent c \<and> b = None \<and> key c = [])"
| "tree_ok sha fs st pre (Inner c b l r) \<longleftrightarrow>
     known c \<and> key c = [] \<and> length pre < 8 * sha_size \<and>
     tree_ok sha fs st (pre @ [False]) l \<and> tree_ok sha fs st (pre @ [True]) r \<and>
     (inconsistent c \<longrightarrow> known (cell l) \<and> known (cell r)) \<and>
     (\<not> inconsistent c \<longrightarrow>
        b = None \<and> clean l \<and> clean r \<and>
        values_ok fs (read st (vals c)) \<and> label c = generateHash sha st (Inner c b l r) \<and>
        (known (cell l) \<and> known (cell r) \<longrightarrow>
           parent_values fs (read st (vals (cell l))) (read st (vals (cell r)))
             = Some (None, read st (vals c))))"

text \<open>The value arrays that matter: those of known leaves and of consistent inner nodes.\<close>

fun refs :: "node \<Rightarrow> aref list" where
  "refs (Leaf c b) = (if known c then [vals c] else [])"
| "refs (Inner c b l r) = (if inconsistent c then [] else [vals c]) @ refs l @ refs r"

definition separated :: "store \<Rightarrow> node \<Rightarrow> bool" where
  "separated st n \<longleftrightarrow> distinct (refs n) \<and> (\<forall>r \<in> set (refs n). r < length st)"

fun contents :: "store \<Rightarrow> node \<Rightarrow> bytes \<rightharpoonup> bytes list" where
  "contents st (Leaf c b) =
     (if known c \<and> key c \<noteq> [] then [key c \<mapsto> read st (vals c)] else Map.empty)"
| "contents st (Inner c b l r) = contents st l ++ contents st r"

fun shrunk :: "node \<Rightarrow> bool" where
  "shrunk (Leaf c b) \<longleftrightarrow> True"
| "shrunk (Inner c b l r) \<longleftrightarrow>
     \<not> (known (cell l) \<and> known (cell r) \<and> collapsible l r) \<and> shrunk l \<and> shrunk r"

fun shrunk_below :: "node \<Rightarrow> bool" where
  "shrunk_below (Leaf c b) \<longleftrightarrow> True"
| "shrunk_below (Inner c b l r) \<longleftrightarrow> shrunk l \<and> shrunk r"

fun all_known :: "node \<Rightarrow> bool" where
  "all_known (Leaf c b) \<longleftrightarrow> known c"
| "all_known (Inner c b l r) \<longleftrightarrow> known c \<and> all_known l \<and> all_known r"

text \<open>Stores that agree except on a set of addresses.\<close>

definition frame :: "aref set \<Rightarrow> store \<Rightarrow> store \<Rightarrow> bool" where
  "frame W st st' \<longleftrightarrow>
     length st \<le> length st' \<and> (\<forall>r. r < length st \<longrightarrow> r \<notin> W \<longrightarrow> read st' r = read st r)"

text \<open>What the development assumes of the hash function and of the fields.\<close>

definition hash_ok :: "(bytes \<Rightarrow> bytes) \<Rightarrow> bool" where
  "hash_ok sha \<longleftrightarrow> (\<forall>x. length (sha x) = sha_size)"

definition fields_ok :: "field list \<Rightarrow> bool" where
  "fields_ok fs \<longleftrightarrow> (\<forall>F \<in> set fs. merkle_field F)"

section \<open>Frames\<close>

lemma frame_refl [simp]: "frame W st st"
  by (simp add: frame_def)

lemma frame_append [simp]: "frame W st (st @ xs)"
  by (simp add: frame_def)

lemma frame_trans: "frame W st st' \<Longrightarrow> frame W' st' st'' \<Longrightarrow> frame (W \<union> W') st st''"
  by (auto simp: frame_def)

lemma frame_mono: "frame W st st' \<Longrightarrow> W \<subseteq> W' \<Longrightarrow> frame W' st st'"
  by (auto simp: frame_def)

lemma frame_update: "frame {r} st (st[r := vs])"
  by (auto simp: frame_def)

lemma frame_read: "frame W st st' \<Longrightarrow> r < length st \<Longrightarrow> r \<notin> W \<Longrightarrow> read st' r = read st r"
  by (auto simp: frame_def)

lemma frame_length: "frame W st st' \<Longrightarrow> length st \<le> length st'"
  by (simp add: frame_def)

section \<open>Reading a tree through another store\<close>

lemma clean_imp: "clean n \<Longrightarrow> \<not> inconsistent (cell n) \<and> saved n = None"
  by (cases n) auto

lemma vals_in_refs:
  "known (cell n) \<Longrightarrow> \<not> inconsistent (cell n) \<Longrightarrow> vals (cell n) \<in> set (refs n)"
  by (cases n) auto

lemma tree_ok_cong:
  assumes "\<And>r. r \<in> set (refs n) \<Longrightarrow> read st' r = read st r"
  shows "tree_ok sha fs st' pre n = tree_ok sha fs st pre n"
  using assms
proof (induction n arbitrary: pre rule: tree_induct)
  case (Leaf c b)
  then show ?case by (simp add: generateHash_def)
next
  case (Inner c b l r)
  have sub: "tree_ok sha fs st' (pre @ [False]) l = tree_ok sha fs st (pre @ [False]) l"
    "tree_ok sha fs st' (pre @ [True]) r = tree_ok sha fs st (pre @ [True]) r"
    using Inner by auto
  have own: "read st' (vals c) = read st (vals c)" if "\<not> inconsistent c"
    using that Inner.prems by simp
  have kid: "read st' (vals (cell m)) = read st (vals (cell m))"
    if "clean m" "known (cell m)" "m = l \<or> m = r" for m
    using that clean_imp [of m] vals_in_refs [of m] Inner.prems by auto
  have "generateHash sha st' (Inner c b l r) = generateHash sha st (Inner c b l r)"
    if "\<not> inconsistent c"
    using own [OF that] by (simp add: generateHash_def)
  then show ?case
    using own kid by (cases "inconsistent c") (auto simp: sub)
qed

lemma contents_cong:
  assumes "\<And>r. r \<in> set (refs n) \<Longrightarrow> read st' r = read st r"
  shows "contents st' n = contents st n"
  using assms by (induction n rule: tree_induct) auto

lemma tree_ok_frame:
  assumes "frame W st st'" "separated st n" "W \<inter> set (refs n) = {}"
  shows "tree_ok sha fs st' pre n = tree_ok sha fs st pre n"
    and "contents st' n = contents st n" and "separated st' n"
proof -
  have eq: "read st' r = read st r" if "r \<in> set (refs n)" for r
    using assms that by (auto simp: separated_def intro!: frame_read)
  show "tree_ok sha fs st' pre n = tree_ok sha fs st pre n" "contents st' n = contents st n"
    by (rule tree_ok_cong contents_cong; use eq in blast)+
  show "separated st' n"
    using assms(2) frame_length [OF assms(1)] by (auto simp: separated_def)
qed

lemma separated_Inner:
  "separated st (Inner c b l r) \<longleftrightarrow>
     separated st l \<and> separated st r \<and> set (refs l) \<inter> set (refs r) = {} \<and>
     (\<not> inconsistent c \<longrightarrow> vals c < length st \<and> vals c \<notin> set (refs l) \<and> vals c \<notin> set (refs r))"
  by (auto simp: separated_def)

lemma known_values_ok:
  assumes "tree_ok sha fs st pre n" "clean n" "known (cell n)"
  shows "values_ok fs (read st (vals (cell n)))"
  using assms by (cases n) auto

section \<open>Keys lie on their paths\<close>

lemma length_path_of [simp]: "hash_ok sha \<Longrightarrow> length (path_of sha k) = 8 * sha_size"
  by (simp add: path_of_def hash_ok_def)

lemma on_path_Nil [simp]: "on_path sha [] k"
  by (simp add: on_path_def)

lemma on_path_snoc:
  assumes "hash_ok sha" "length pre < 8 * sha_size"
  shows "on_path sha (pre @ [b]) k \<longleftrightarrow> on_path sha pre k \<and> path_of sha k ! length pre = b"
  using assms by (auto simp: on_path_def take_Suc_conv_app_nth)

lemma on_path_imp_prefix: "on_path sha (pre @ [b]) k \<Longrightarrow> on_path sha pre k"
  by (auto simp: on_path_def) (metis append_eq_conv_conj length_append_singleton min.absorb1
      n_not_Suc_n nat_le_linear not_less_eq_eq take_take)

lemma contents_on_path:
  "tree_ok sha fs st pre n \<Longrightarrow> contents st n k = Some v \<Longrightarrow> on_path sha pre k \<and> k \<noteq> []"
proof (induction n arbitrary: pre rule: tree_induct)
  case (Leaf c b)
  then show ?case by (auto split: if_splits)
next
  case (Inner c b l r)
  from Inner.prems(2) consider "contents st r k = Some v" | "contents st l k = Some v" by auto
  then show ?case
    using Inner.IH Inner.prems(1) by cases (auto dest!: on_path_imp_prefix simp del: fun_upd_apply)
qed

lemma contents_side:
  assumes "hash_ok sha" "tree_ok sha fs st pre (Inner c b l r)"
  shows "path_of sha k ! length pre \<Longrightarrow> contents st l k = None"
    and "\<not> path_of sha k ! length pre \<Longrightarrow> contents st r k = None"
  using assms contents_on_path [of sha fs st "pre @ [False]" l k]
    contents_on_path [of sha fs st "pre @ [True]" r k]
  by (auto simp: on_path_snoc intro: ccontr)

lemma contents_Inner_at:
  assumes "hash_ok sha" "tree_ok sha fs st pre (Inner c b l r)"
  shows "contents st (Inner c b l r) k =
    (if path_of sha k ! length pre then contents st r k else contents st l k)"
  using contents_side [OF assms, of k]
  by (auto simp: map_add_def split: option.splits)

end
