(* ===== verification/TreeOps.thy ===== *)
theory TreeOps
  imports Invariant
begin

text \<open>
  The recursive walks of \<open>Add\<close>, \<open>Set\<close> and \<open>Remove\<close> keep the invariant and change exactly one key of
  the contents. One lemma, \<open>climb_node\<close>, covers the step every walk makes on its way back to the
  root, inside and outside a transaction.
\<close>

definition good :: "(bytes \<Rightarrow> bytes) \<Rightarrow> field list \<Rightarrow> store \<Rightarrow> bool list \<Rightarrow> node \<Rightarrow> bool" where
  "good sha fs st pre n \<longleftrightarrow> tree_ok sha fs st pre n \<and> separated st n"

lemma good_frame:
  assumes "frame W st st'" "good sha fs st pre n" "W \<inter> set (refs n) = {}"
  shows "good sha fs st' pre n" and "contents st' n = contents st n"
  using tree_ok_frame [of W st st' n] assms by (auto simp: good_def)

lemma good_refs_bound: "good sha fs st pre n \<Longrightarrow> r \<in> set (refs n) \<Longrightarrow> r < length st"
  by (auto simp: good_def separated_def)

lemma parent_values_good:
  assumes "fields_ok fs" "good sha fs st p1 L" "good sha fs st p2 R" "clean L" "clean R"
    and "known (cell L)" "known (cell R)"
  obtains vs where "values_ok fs vs"
    "parent_values fs (read st (vals (cell L))) (read st (vals (cell R))) = Some (None, vs)"
proof -
  have "values_ok fs (read st (vals (cell L)))" "values_ok fs (read st (vals (cell R)))"
    using assms known_values_ok by (auto simp: good_def)
  then show ?thesis
    using assms(1) parent_values_ok [of fs "read st (vals (cell L))" "read st (vals (cell R))"] that
    by (auto simp: values_ok_def fields_ok_def)
qed

text \<open>One step up, at a node whose two children are known and fine.\<close>

lemma climb_node:
  assumes fs: "fields_ok fs"
    and L: "good sha fs st (pre @ [False]) L" "known (cell L)"
    and R: "good sha fs st (pre @ [True]) R" "known (cell R)"
    and disj: "set (refs L) \<inter> set (refs R) = {}"
    and c: "known c" "key c = []" "length pre < 8 * sha_size"
    and tx: "\<not> tx \<Longrightarrow> \<not> inconsistent c \<and> b = None \<and> clean L \<and> clean R"
  obtains st' c' where "climb sha fs tx st (Inner c b L R) = Some (st', Inner c' b L R)"
    "good sha fs st' pre (Inner c' b L R)" "frame {} st st'" "known c'"
    "inconsistent c' = tx" "\<not> tx \<Longrightarrow> clean (Inner c' b L R)"
    "set (refs (Inner c' b L R)) \<subseteq> set (refs L) \<union> set (refs R) \<union> {length st..<length st'}"
    "contents st' (Inner c' b L R) = contents st L ++ contents st R"
proof (cases tx)
  case True
  have "good sha fs st pre (Inner (c\<lparr>inconsistent := True\<rparr>) b L R)"
    using L R c disj by (simp add: good_def separated_Inner)
  with True show ?thesis
    by (intro that [of st "c\<lparr>inconsistent := True\<rparr>"]) (auto simp: climb_def mark_inconsistent_def c)
next
  case False
  with tx have cl: "\<not> inconsistent c" "b = None" "clean L" "clean R" by auto
  obtain vs where vs: "values_ok fs vs"
    "parent_values fs (read st (vals (cell L))) (read st (vals (cell R))) = Some (None, vs)"
    using parent_values_good [OF fs L(1) R(1) cl(3,4) L(2) R(2)] .
  define st' where "st' = st @ [vs]"
  define c1 where "c1 = c\<lparr>vals := length st\<rparr>"
  define c' where "c' = c1\<lparr>label := generateHash sha st' (Inner c1 b L R)\<rparr>"
  have upd: "climb sha fs tx st (Inner c b L R) = Some (st', Inner c' b L R)"
    using False L(2) R(2) c vs by (simp add: climb_def update_def alloc_def st'_def c'_def c1_def)
  have fr: "frame {} st st'" by (simp add: st'_def)
  note LR = good_frame [OF fr L(1)] good_frame [OF fr R(1)]
  have old: "read st' (vals (cell m)) = read st (vals (cell m))"
    if "good sha fs st p m" "clean m" "known (cell m)" for m p
    using that clean_imp [of m] vals_in_refs [of m] good_refs_bound [of sha fs st p m] fr
    by (auto intro: frame_read)
  have hash: "generateHash sha st' (Inner c' b L R) = label c'"
    by (simp add: generateHash_def c'_def c1_def)
  have ok: "tree_ok sha fs st' pre (Inner c' b L R)"
    using LR c cl vs hash old [OF L(1)] old [OF R(1)] L(2) R(2)
    by (simp add: good_def c'_def c1_def) (simp add: st'_def)
  have "length st \<notin> set (refs L)" "length st \<notin> set (refs R)"
    using good_refs_bound [OF L(1)] good_refs_bound [OF R(1)] by auto
  then have sep: "separated st' (Inner c' b L R)"
    using LR disj by (auto simp: good_def separated_Inner) (auto simp: c'_def c1_def st'_def)
  show ?thesis
    by (rule that [OF upd _ fr])
      (use ok sep LR cl c False in \<open>auto simp: good_def c'_def c1_def st'_def\<close>)
qed
section \<open>Children of a cursor, and the result of a walk\<close>

text \<open>
  A cursor whose children are fine, whatever its own label and values are. This is what a walk
  needs of the node it stands on; a freshly split leaf is such a node.
\<close>

definition kids_ok ::
  "(bytes \<Rightarrow> bytes) \<Rightarrow> field list \<Rightarrow> bool \<Rightarrow> store \<Rightarrow> bool list \<Rightarrow> cell \<Rightarrow> node option \<Rightarrow> node \<Rightarrow> node \<Rightarrow> bool"
where
  "kids_ok sha fs tx st pre c b l r \<longleftrightarrow>
     good sha fs st (pre @ [False]) l \<and> good sha fs st (pre @ [True]) r \<and>
     set (refs l) \<inter> set (refs r) = {} \<and>
     known c \<and> key c = [] \<and> length pre < 8 * sha_size \<and>
     (\<not> tx \<longrightarrow> \<not> inconsistent c \<and> b = None \<and> clean l \<and> clean r)"

lemma kids_okI:
  "good sha fs st pre (Inner c b l r) \<Longrightarrow> (\<not> tx \<Longrightarrow> clean (Inner c b l r)) \<Longrightarrow> kids_ok sha fs tx st pre c b l r"
  by (auto simp: kids_ok_def good_def separated_Inner)

lemma kids_contents_at:
  assumes "hash_ok sha" "kids_ok sha fs tx st pre c b l r"
  shows "(contents st l ++ contents st r) k =
    (if path_of sha k ! length pre then contents st r k else contents st l k)"
proof -
  have "tree_ok sha fs st (pre @ [False]) l" "tree_ok sha fs st (pre @ [True]) r"
    "length pre < 8 * sha_size"
    using assms(2) by (auto simp: kids_ok_def good_def)
  then have "path_of sha k ! length pre \<Longrightarrow> contents st l k = None"
    "\<not> path_of sha k ! length pre \<Longrightarrow> contents st r k = None"
    using assms(1) contents_on_path [of sha fs st "pre @ [False]" l k]
      contents_on_path [of sha fs st "pre @ [True]" r k]
    by (auto simp: on_path_snoc intro: option.exhaust)
  then show ?thesis by (auto simp: map_add_def split: option.splits)
qed

text \<open>
  The result \<open>n'\<close> in store \<open>st'\<close> of a walk that started in store \<open>st\<close>: \<open>R\<close> are the arrays the old
  subtree owned (only these may be overwritten), \<open>N\<close> further arrays it may take over, \<open>m\<close> the
  new contents.
\<close>

definition post ::
  "(bytes \<Rightarrow> bytes) \<Rightarrow> field list \<Rightarrow> bool \<Rightarrow> bool list \<Rightarrow> aref set \<Rightarrow> aref set \<Rightarrow> store \<Rightarrow> store \<Rightarrow>
   node \<Rightarrow> (bytes \<rightharpoonup> bytes list) \<Rightarrow> bool" where
  "post sha fs tx pre R N st st' n' m \<longleftrightarrow>
     good sha fs st' pre n' \<and> known (cell n') \<and> (\<not> tx \<longrightarrow> clean n') \<and>
     frame R st st' \<and> set (refs n') \<subseteq> R \<union> N \<union> {length st..<length st'} \<and>
     contents st' n' = m"

lemma post_trans:
  assumes "post sha fs tx pre R1 N st1 st2 n m" "frame {} st st1"
    and "R1 \<subseteq> R \<union> {length st..<length st1}"
  shows "post sha fs tx pre R N st st2 n m"
proof -
  have len: "length st \<le> length st1" "length st1 \<le> length st2"
    using assms by (auto simp: post_def frame_def)
  have "read st2 r = read st r" if "r < length st" "r \<notin> R" for r
  proof -
    have "r \<notin> R1" using assms(3) that by auto
    then have "read st2 r = read st1 r" using assms(1) that len by (simp add: post_def frame_def)
    then show ?thesis using assms(2) that by (simp add: frame_def)
  qed
  then have "frame R st st2" using len by (simp add: frame_def)
  then show ?thesis using assms len by (fastforce simp: post_def)
qed

text \<open>The way back: the result for a child becomes the result for its parent.\<close>

definition kid_left :: "bool \<Rightarrow> node \<Rightarrow> node \<Rightarrow> node" where
  "kid_left step l ch = (if step then l else ch)"

definition kid_right :: "bool \<Rightarrow> node \<Rightarrow> node \<Rightarrow> node" where
  "kid_right step r ch = (if step then ch else r)"

lemma rebuild_kids: "rebuild c b l r step ch = Inner c b (kid_left step l ch) (kid_right step r ch)"
  by (simp add: rebuild_def kid_left_def kid_right_def)

lemma rebuilt_kids:
  assumes kids: "kids_ok sha fs tx st pre c b l r" and kn: "known (cell l)" "known (cell r)"
    and ch: "post sha fs tx (pre @ [step]) (set (refs (if step then r else l))) N st st' ch m"
    and N: "N \<inter> (set (refs l) \<union> set (refs r)) = {}"
  shows "kids_ok sha fs tx st' pre c b (kid_left step l ch) (kid_right step r ch)"
    and "known (cell (kid_left step l ch))" "known (cell (kid_right step r ch))"
    and "contents st' (if step then l else r) = contents st (if step then l else r)"
proof -
  define sib where "sib = (if step then l else r)"
  have fr: "frame (set (refs (if step then r else l))) st st'" using ch by (simp add: post_def)
  have sib: "good sha fs st (pre @ [\<not> step]) sib" "set (refs (if step then r else l)) \<inter> set (refs sib) = {}"
    "known (cell sib)" "\<not> tx \<Longrightarrow> clean sib"
    using kids kn by (auto simp: kids_ok_def sib_def)
  note sib' = good_frame [OF fr sib(1,2)]
  have ch': "good sha fs st' (pre @ [step]) ch" "known (cell ch)" "\<not> tx \<Longrightarrow> clean ch"
    "set (refs ch) \<subseteq> set (refs (if step then r else l)) \<union> N \<union> {length st..<length st'}"
    using ch by (auto simp: post_def)
  have "{length st..<length st'} \<inter> set (refs sib) = {}"
    by (fastforce dest: good_refs_bound [OF sib(1)])
  moreover have "N \<inter> set (refs sib) = {}" using N(1) by (auto simp: sib_def)
  ultimately have disj: "set (refs ch) \<inter> set (refs sib) = {}" using ch'(4) sib(2) by blast
  show "kids_ok sha fs tx st' pre c b (kid_left step l ch) (kid_right step r ch)"
    using ch' sib sib' disj kids
    by (cases step; auto simp: kid_left_def kid_right_def sib_def kids_ok_def)
  show "known (cell (kid_left step l ch))" "known (cell (kid_right step r ch))"
    using kn ch'(2) by (auto simp: kid_left_def kid_right_def)
  show "contents st' (if step then l else r) = contents st (if step then l else r)"
    using sib'(2) by (simp add: sib_def)
qed

lemma up_post:
  assumes env: "hash_ok sha"
    and kids: "kids_ok sha fs tx st pre c b l r" and kn: "known (cell l)" "known (cell r)"
    and ch: "post sha fs tx (pre @ [step]) (set (refs (if step then r else l))) N st st' ch m"
    and N: "N \<inter> (set (refs l) \<union> set (refs r)) = {}"
    and n: "good sha fs st'' pre n" "known (cell n)" "\<not> tx \<Longrightarrow> clean n" "frame {} st' st''"
      "set (refs n) \<subseteq> set (refs (kid_left step l ch)) \<union> set (refs (kid_right step r ch)) \<union>
         {length st'..<length st''}"
      "contents st'' n = contents st' (kid_left step l ch) ++ contents st' (kid_right step r ch)"
  shows "post sha fs tx pre (set (refs l) \<union> set (refs r)) N st st'' n
    (\<lambda>k. if path_of sha k ! length pre = step then m k else (contents st l ++ contents st r) k)"
proof -
  note reb = rebuilt_kids [OF kids kn ch N]
  have cont: "contents st'' n =
    (\<lambda>k. if path_of sha k ! length pre = step then m k else (contents st l ++ contents st r) k)"
  proof
    fix k
    show "contents st'' n k =
      (if path_of sha k ! length pre = step then m k else (contents st l ++ contents st r) k)"
      unfolding n(6) kids_contents_at [OF env reb(1)]
      using kids_contents_at [OF env kids, of k] reb(4) ch
      by (cases step) (auto simp: kid_left_def kid_right_def post_def)
  qed
  have fr: "frame (set (refs (if step then r else l))) st st'"
    and chr: "set (refs ch) \<subseteq> set (refs (if step then r else l)) \<union> N \<union> {length st..<length st'}"
    using ch by (auto simp: post_def)
  have len: "length st \<le> length st'" "length st' \<le> length st''"
    using fr n(4) by (auto simp: frame_def)
  have "frame (set (refs l) \<union> set (refs r)) st st''"
    using frame_trans [OF fr n(4)] by (rule frame_mono) auto
  moreover have "set (refs n) \<subseteq> set (refs l) \<union> set (refs r) \<union> N \<union> {length st..<length st''}"
    using n(5) chr len by (cases step) (fastforce simp: kid_left_def kid_right_def)+
  ultimately show ?thesis using n cont by (simp add: post_def)
qed

lemma climb_post:
  assumes env: "hash_ok sha" "fields_ok fs"
    and kids: "kids_ok sha fs tx st pre c b l r"
    and kn: "known (cell l)" "known (cell r)"
    and ch: "post sha fs tx (pre @ [step]) (set (refs (if step then r else l))) N st st' ch m"
    and N: "N \<inter> (set (refs l) \<union> set (refs r)) = {}"
  obtains st'' c'' where
    "climb sha fs tx st' (rebuild c b l r step ch) = Some (st'', rebuild c'' b l r step ch)"
    "post sha fs tx pre (set (refs l) \<union> set (refs r)) N st st'' (rebuild c'' b l r step ch)
       (\<lambda>k. if path_of sha k ! length pre = step then m k else (contents st l ++ contents st r) k)"
    "inconsistent c'' = tx"
proof -
  note reb = rebuilt_kids [OF kids kn ch N]
  obtain st'' c'' where cl:
    "climb sha fs tx st' (rebuild c b l r step ch) = Some (st'', rebuild c'' b l r step ch)"
    "good sha fs st'' pre (rebuild c'' b l r step ch)" "frame {} st' st''" "known c''" "inconsistent c'' = tx"
    "\<not> tx \<Longrightarrow> clean (rebuild c'' b l r step ch)"
    "set (refs (rebuild c'' b l r step ch)) \<subseteq> set (refs (kid_left step l ch)) \<union>
       set (refs (kid_right step r ch)) \<union> {length st'..<length st''}"
    "contents st'' (rebuild c'' b l r step ch) =
       contents st' (kid_left step l ch) ++ contents st' (kid_right step r ch)"
    unfolding rebuild_kids
    using climb_node [OF env(2), of sha st' pre "kid_left step l ch" "kid_right step r ch" c tx b]
      reb(1-3) unfolding kids_ok_def by metis
  show ?thesis
    by (rule that [OF cl(1) up_post [OF env(1) kids kn ch N cl(2) _ cl(6,3,7,8)] cl(5)])
      (use cl(4) in \<open>simp add: rebuild_kids\<close>)
qed

end
