(* ===== verification/AddCorrect.thy ===== *)
theory AddCorrect
  imports TreeOps
begin

text \<open>
  The walk of \<open>Add\<close> on trees that satisfy the invariant: it returns (no panic) unless the new key
  collides in the hash function with an existing one, its errors are the two documented ones,
  and otherwise it adds exactly the new association.
\<close>

lemma backup_if_facts:
  assumes "backup_if tx st n = (st', n')"
  shows "cell n' = cell n" "node_leaf n' = node_leaf n" "frame {} st st'"
    "refs n' = refs n" "contents st' n = contents st n \<Longrightarrow> contents st' n' = contents st' n"
    "tx \<or> (n' = n \<and> st' = st)" "generateHash sha st'' n' = generateHash sha st'' n"
  using assms
  by (cases n; auto simp: backup_if_def node_backup_def alloc_def generateHash_def
      split: if_splits option.splits)+

lemma backup_if_Leaf:
  assumes "backup_if tx st (Leaf c b) = (st', n')"
  obtains b' where "n' = Leaf c b'" "tx \<or> b' = b"
  using assms by (auto simp: backup_if_def node_backup_def alloc_def split: if_splits option.splits)

lemma frame_empty_read: "frame {} st st' \<Longrightarrow> r < length st \<Longrightarrow> read st' r = read st r"
  by (simp add: frame_def)

lemma placeholder_contents: "node_placeholder n \<Longrightarrow> contents st n = Map.empty"
  by (cases n) (auto simp: node_placeholder_def)

lemma put_leaf_post:
  assumes g: "good sha fs st p cursor" "known (cell cursor)" "\<not> tx \<Longrightarrow> clean cursor"
    and pl: "node_placeholder cursor"
    and rv: "rv < length st" "rv \<notin> set (refs cursor)" "values_ok fs (read st rv)"
    and k: "on_path sha p k" "k \<noteq> []"
  obtains st' ch where "put_leaf sha fs tx k rv st cursor = Some (st', ch)"
    "post sha fs tx p (set (refs cursor)) {rv} st st' ch [k \<mapsto> read st rv]"
    "node_leaf ch" "\<not> node_placeholder ch"
proof -
  obtain c b where cu: "cursor = Leaf c b" "key c = []" "known c"
    using pl g(2) by (cases cursor) (auto simp: node_placeholder_def)
  obtain st1 n1 where bk: "backup_if tx st cursor = (st1, n1)" by fastforce
  with cu(1) obtain b' where n1: "n1 = Leaf c b'" "tx \<or> b' = b" using backup_if_Leaf by metis
  have fr: "frame {} st st1" using backup_if_facts(3) [OF bk] .
  then have rd: "read st1 rv = read st rv" "length st \<le> length st1"
    using rv(1) by (auto simp: frame_def)
  let ?c = "c\<lparr>key := k, vals := rv\<rparr>"
  let ?ch = "Leaf (?c\<lparr>label := generateHash sha st1 (Leaf ?c b')\<rparr>) b'"
  show ?thesis
  proof (rule that [of st1 ?ch])
    show "put_leaf sha fs tx k rv st cursor = Some (st1, ?ch)"
      using bk n1 cu by (simp add: put_leaf_def update_def)
    have "generateHash sha st1 ?ch = generateHash sha st1 (Leaf ?c b')"
      by (simp add: generateHash_def)
    moreover have "\<not> tx \<Longrightarrow> clean ?ch" using g(3) n1 cu by auto
    ultimately show "post sha fs tx p (set (refs cursor)) {rv} st st1 ?ch [k \<mapsto> read st rv]"
      using cu rv k rd fr by (auto simp: post_def good_def separated_def intro: frame_mono)
  qed (use k in \<open>auto simp: node_placeholder_def\<close>)
qed

lemma on_path_full:
  assumes "hash_ok sha" "on_path sha p k" "on_path sha p k'" "8 * sha_size \<le> length p"
  shows "sha k = sha k'"
proof -
  have "path_of sha k = path_of sha k'"
    using assms by (simp add: on_path_def)
  then show ?thesis
    using assms(1) bits_of_inject [of "sha k" "sha k'"] by (simp add: path_of_def hash_ok_def)
qed

lemma bit_at_path:
  assumes "hash_ok sha" "d < 8 * sha_size"
  shows "bit_at (sha k) d = Some (path_of sha k ! d)"
  using assms by (simp add: path_of_def hash_ok_def)

lemma split_leaf_ok:
  assumes env: "hash_ok sha" "fields_ok fs"
    and g: "good sha fs st p (Leaf c b)" "known c" "\<not> tx \<Longrightarrow> clean (Leaf c b)"
    and key: "key c \<noteq> []" and len: "length p < 8 * sha_size"
  obtains st1 c1 b1 l1 r1 where
    "split_leaf sha fs tx (length p) st (Leaf c b) = Some (Inr (st1, Inner c1 b1 l1 r1))"
    "kids_ok sha fs tx st1 p c1 b1 l1 r1" "frame {} st st1"
    "set (refs l1) \<union> set (refs r1) \<subseteq> set (refs (Leaf c b)) \<union> {length st..<length st1}"
    "contents st1 l1 ++ contents st1 r1 = contents st (Leaf c b)"
    "known (cell l1)" "known (cell r1)" "node_leaf l1" "node_leaf r1"
    "node_placeholder l1 = (\<not> node_placeholder r1)" "saved (Leaf c b) = None \<or> b1 = b"
proof -
  obtain st0 n0 where bk: "backup_if tx st (Leaf c b) = (st0, n0)" by fastforce
  then obtain b' where n0: "n0 = Leaf c b'" "tx \<or> b' = b" using backup_if_Leaf by metis
  have fr: "frame {} st st0" using backup_if_facts(3) [OF bk] .
  have vlt: "vals c < length st" using g(1,2) by (auto simp: good_def separated_def)
  have vok: "values_ok fs (read st (vals c))" "label c = generateHash sha st (Leaf c b)"
    "on_path sha p (key c)"
    using g(1,2) key by (auto simp: good_def)
  define st1 where "st1 = st0 @ [map Placeholder fs]"
  have rd: "read st1 (vals c) = read st (vals c)" "vals c < length st1" "length st \<le> length st0"
    using fr vlt by (auto simp: st1_def frame_def)
  define valid where "valid = set_cell (\<lambda>d. d\<lparr>known := True, label := label c, key := key c,
    vals := vals c\<rparr>) new_node"
  define ph where "ph = Leaf ((cell new_node)\<lparr>known := True, key := [], vals := length st0,
         label := toHash_hash sha \<lparr>IsLeaf = True, Key = [], Values = map Placeholder fs,
           LeftLabel = zero_digest, RightLabel = zero_digest\<rparr>\<rparr>) None"
  define step where "step = path_of sha (key c) ! length p"
  have onp: "on_path sha (p @ [step]) (key c)"
    using vok(3) env(1) len by (simp add: on_path_snoc step_def)
  have gv: "good sha fs st1 (p @ [step]) valid" "known (cell valid)" "clean valid"
    "contents st1 valid = contents st (Leaf c b)" "refs valid = [vals c]"
    using vok rd onp key g(2)
    by (auto simp: valid_def new_node_def good_def separated_def generateHash_def)
  have dec: "values_ok fs (map Placeholder fs)"
    using env(2) by (auto simp: values_ok_def fields_ok_def list_all2_conv_all_nth
        intro: merkle_field.placeholder_decodable)
  have gp: "good sha fs st1 q ph" "known (cell ph)" "clean ph" "contents st1 ph = Map.empty"
    "refs ph = [length st0]" for q
    using dec by (auto simp: ph_def new_node_def good_def separated_def generateHash_def st1_def)
  define c1 where "c1 = c\<lparr>key := []\<rparr>"
  define l1 where "l1 = (if step then ph else valid)"
  define r1 where "r1 = (if step then valid else ph)"
  have a1: "split_leaf sha fs tx (length p) st (Leaf c b) = Some (Inr (st1, Inner c1 b' l1 r1))"
    by (simp add: split_leaf_def node_branch_def setPlaceholder_eq c1_def l1_def r1_def valid_def
        ph_def st1_def step_def new_node_def bk n0(1) bit_at_path [OF env(1) len])
  have ne: "vals c \<noteq> length st0" using vlt rd by simp
  have a2: "kids_ok sha fs tx st1 p c1 b' l1 r1"
    using gv gp g n0 len ne by (auto simp: kids_ok_def l1_def r1_def c1_def)
  have a3: "frame {} st st1"
    using frame_trans [OF fr, of "{}" st1] by (simp add: st1_def)
  have a4: "set (refs l1) \<union> set (refs r1) \<subseteq> set (refs (Leaf c b)) \<union> {length st..<length st1}"
    using gv gp g(2) rd by (auto simp: l1_def r1_def st1_def)
  have a5: "contents st1 l1 ++ contents st1 r1 = contents st (Leaf c b)"
    using gv gp by (simp add: l1_def r1_def)
  have pv: "node_placeholder ph" "\<not> node_placeholder valid" "node_leaf ph" "node_leaf valid"
    using key by (auto simp: ph_def valid_def node_placeholder_def new_node_def)
  have a6: "saved (Leaf c b) = None \<or> b' = b"
    using bk n0(1)
    by (auto simp: backup_if_def node_backup_def alloc_def split: if_splits option.splits)
  have a7: "known (cell l1)" "known (cell r1)" "node_leaf l1" "node_leaf r1"
    "node_placeholder l1 = (\<not> node_placeholder r1)"
    using gv gp pv by (auto simp: l1_def r1_def)
  show ?thesis by (rule that [OF a1 a2 a3 a4 a5 a7 a6])
qed

section \<open>The walk\<close>

definition add_child_outcome where
  "add_child_outcome sha fs tx p k rv st cu res \<longleftrightarrow>
     res = Some (Inl ProofNeeded) \<and> \<not> all_known cu \<or>
     res = Some (Inl KeyCollision) \<and> contents st cu k \<noteq> None \<or>
     (\<exists>st' ch. res = Some (Inr (st', ch)) \<and> contents st cu k = None \<and>
        post sha fs tx p (set (refs cu)) {rv} st st' ch ((contents st cu)(k \<mapsto> read st rv)))"

definition add_outcome where
  "add_outcome sha fs tx pre k rv st l r res \<longleftrightarrow>
     res = Some (Inl ProofNeeded) \<and> \<not> (all_known l \<and> all_known r) \<or>
     res = Some (Inl KeyCollision) \<and> (contents st l ++ contents st r) k \<noteq> None \<or>
     (\<exists>st' c' b' l' r'. res = Some (Inr (st', Inner c' b' l' r')) \<and>
        (contents st l ++ contents st r) k = None \<and> inconsistent c' = tx \<and>
        post sha fs tx pre (set (refs l) \<union> set (refs r)) {rv} st st' (Inner c' b' l' r')
          ((contents st l ++ contents st r)(k \<mapsto> read st rv)))"

lemma rebuild_Inner: "\<exists>l' r'. rebuild c b l r step ch = Inner c b l' r'"
  by (auto simp: rebuild_def)

text \<open>From the outcome at the child to the outcome at the cursor.\<close>

lemma add_climb:
  assumes env: "hash_ok sha" "fields_ok fs"
    and kids: "kids_ok sha fs tx st pre c b l r" and kn: "known (cell l)" "known (cell r)"
    and rv: "rv < length st" "rv \<notin> set (refs l) \<union> set (refs r)"
    and step: "step = path_of sha k ! length pre" and cu: "cu = (if step then r else l)"
    and out: "add_child_outcome sha fs tx (pre @ [step]) k rv st cu res"
  shows "add_outcome sha fs tx pre k rv st l r
    (Option.bind res (\<lambda>res. case res of Inl e \<Rightarrow> Some (Inl e)
       | Inr (st', child) \<Rightarrow> do { s \<leftarrow> climb sha fs tx st' (rebuild c b l r step child); Some (Inr s) }))"
proof -
  have at_k: "(contents st l ++ contents st r) k = contents st cu k"
    using kids_contents_at [OF env(1) kids, of k] step cu by simp
  from out consider
      (unknown) "res = Some (Inl ProofNeeded)" "\<not> all_known cu"
    | (dup) "res = Some (Inl KeyCollision)" "contents st cu k \<noteq> None"
    | (ok) st' ch where "res = Some (Inr (st', ch))" "contents st cu k = None"
        "post sha fs tx (pre @ [step]) (set (refs cu)) {rv} st st' ch
          ((contents st cu)(k \<mapsto> read st rv))"
    unfolding add_child_outcome_def by blast
  then show ?thesis
  proof cases
    case unknown
    then show ?thesis using cu by (auto simp: add_outcome_def split: if_splits)
  next
    case dup
    then show ?thesis using at_k by (auto simp: add_outcome_def)
  next
    case ok
    from climb_post [OF env kids kn ok(3) [unfolded cu], folded cu] rv obtain st'' c'' where cl:
      "climb sha fs tx st' (rebuild c b l r step ch) = Some (st'', rebuild c'' b l r step ch)"
      "post sha fs tx pre (set (refs l) \<union> set (refs r)) {rv} st st'' (rebuild c'' b l r step ch)
       (\<lambda>q. if path_of sha q ! length pre = step
            then ((contents st cu)(k \<mapsto> read st rv)) q
            else (contents st l ++ contents st r) q)"
      "inconsistent c'' = tx"
      by auto
    have "(\<lambda>q. if path_of sha q ! length pre = step
            then ((contents st cu)(k \<mapsto> read st rv)) q
            else (contents st l ++ contents st r) q)
        = (contents st l ++ contents st r)(k \<mapsto> read st rv)"
      using kids_contents_at [OF env(1) kids] step cu by (auto simp: fun_eq_iff)
    with cl ok at_k show ?thesis
      using rebuild_Inner [of c'' b l r step ch] by (auto simp: add_outcome_def)
  qed
qed

lemma add_outcome_child:
  assumes "add_outcome sha fs tx p k rv st1 l1 r1 res"
    and "frame {} st st1" "rv < length st"
    and "set (refs l1) \<union> set (refs r1) \<subseteq> set (refs cu) \<union> {length st..<length st1}"
    and "contents st1 l1 ++ contents st1 r1 = contents st cu"
    and "all_known cu \<Longrightarrow> all_known l1 \<and> all_known r1"
  shows "add_child_outcome sha fs tx p k rv st cu res"
  using assms(1,5,6) frame_empty_read [OF assms(2,3)] post_trans [OF _ assms(2,4)]
  unfolding add_outcome_def add_child_outcome_def by metis

lemma add_at_outcome:
  assumes env: "hash_ok sha" "fields_ok fs"
  shows "kids_ok sha fs tx st pre c b l r \<Longrightarrow> rv < length st \<Longrightarrow>
    rv \<notin> set (refs l) \<union> set (refs r) \<Longrightarrow> values_ok fs (read st rv) \<Longrightarrow>
    k \<noteq> [] \<Longrightarrow> on_path sha pre k \<Longrightarrow>
    (\<And>k'. (contents st l ++ contents st r) k' \<noteq> None \<Longrightarrow> sha k' = sha k \<Longrightarrow> k' = k) \<Longrightarrow>
    add_outcome sha fs tx pre k rv st l r
      (add_at sha fs tx (sha k) k rv (length pre) st (Inner c b l r))"
proof (induction "8 * sha_size - length pre" arbitrary: pre st c b l r rule: less_induct)
  case less
  note kids = less.prems(1)
  have len: "length pre < 8 * sha_size" using kids by (simp add: kids_ok_def)
  define step where "step = path_of sha k ! length pre"
  define cu where "cu = (if step then r else l)"
  define p where "p = pre @ [step]"
  have bit: "bit_at (sha k) (length pre) = Some step"
    using bit_at_path [OF env(1) len] by (simp add: step_def)
  show ?case
  proof (cases "known (cell l) \<and> known (cell r)")
    case False
    then have "\<not> (all_known l \<and> all_known r)" by (cases l; cases r) auto
    with False show ?thesis by (auto simp: add_at.simps(2) add_outcome_def)
  next
    case True
    have g: "good sha fs st p cu" "known (cell cu)" "\<not> tx \<Longrightarrow> clean cu"
      using kids True by (auto simp: kids_ok_def cu_def p_def)
    have rv: "rv \<notin> set (refs cu)" using less.prems(3) by (auto simp: cu_def)
    have onp: "on_path sha p k"
      using less.prems(6) env(1) len by (simp add: p_def on_path_snoc step_def)
    have nocoll: "contents st cu k' \<noteq> None \<Longrightarrow> sha k' = sha k \<Longrightarrow> k' = k" for k'
      using less.prems(7) [of k'] kids_contents_at [OF env(1) kids, of k']
      by (auto simp: cu_def step_def path_of_def split: if_splits)
    let ?res = "if node_placeholder cu
                then do { s \<leftarrow> put_leaf sha fs tx k rv st cu; Some (Inr s) }
                else if node_leaf cu
                then (if bytes_equal k (key (cell cu)) then Some (Inl KeyCollision)
                      else (case split_leaf sha fs tx (length pre + 1) st cu of
                          None \<Rightarrow> None
                        | Some (Inl e) \<Rightarrow> Some (Inl e)
                        | Some (Inr (st1, cursor1)) \<Rightarrow>
                            add_at sha fs tx (sha k) k rv (length pre + 1) st1 cursor1))
                else add_at sha fs tx (sha k) k rv (length pre + 1) st cu"
    have "add_child_outcome sha fs tx p k rv st cu ?res"
    proof -
      consider (ph) "node_placeholder cu" | (leaf) "\<not> node_placeholder cu" "node_leaf cu"
        | (inner) "\<not> node_leaf cu" by blast
      then show ?thesis
      proof cases
        case ph
        from put_leaf_post [OF g ph less.prems(2) rv less.prems(4) onp less.prems(5)]
        obtain st' ch where "put_leaf sha fs tx k rv st cu = Some (st', ch)"
          "post sha fs tx p (set (refs cu)) {rv} st st' ch [k \<mapsto> read st rv]" by metis
        with ph show ?thesis by (simp add: add_child_outcome_def placeholder_contents)
      next
        case leaf
        then obtain c2 b2 where cu: "cu = Leaf c2 b2" "key c2 \<noteq> []" "known c2"
          using g(2) by (cases cu) (auto simp: node_placeholder_def)
        show ?thesis
        proof (cases "k = key c2")
          case True
          with leaf cu show ?thesis by (simp add: add_child_outcome_def)
        next
          case False
          have "on_path sha p (key c2)" using g(1) cu by (simp add: good_def)
          then have plen: "length p < 8 * sha_size"
            using on_path_full [OF env(1) onp] nocoll [of "key c2"] False cu
            by (metis contents.simps(1) fun_upd_same not_less option.distinct(1))
          from split_leaf_ok [OF env g(1) [unfolded cu(1)] cu(3) g(3) [unfolded cu(1)] cu(2) plen]
          obtain st1 c1 b1 l1 r1 where sp:
            "split_leaf sha fs tx (length p) st cu = Some (Inr (st1, Inner c1 b1 l1 r1))"
            "kids_ok sha fs tx st1 p c1 b1 l1 r1" "frame {} st st1"
            "set (refs l1) \<union> set (refs r1) \<subseteq> set (refs cu) \<union> {length st..<length st1}"
            "contents st1 l1 ++ contents st1 r1 = contents st cu"
            "known (cell l1)" "known (cell r1)" "node_leaf l1" "node_leaf r1"
            using cu(1) by metis
          have rd: "read st1 rv = read st rv" "rv < length st1"
            using sp(3) less.prems(2) by (auto simp: frame_def)
          have "rv \<notin> set (refs l1) \<union> set (refs r1)" using sp(4) rv less.prems(2) by auto
          then have "add_outcome sha fs tx p k rv st1 l1 r1
              (add_at sha fs tx (sha k) k rv (length p) st1 (Inner c1 b1 l1 r1))"
            using sp(2,5) rd less.prems(4,5) onp nocoll len
            by (intro less.hyps) (auto simp: p_def)
          moreover have "all_known l1 \<and> all_known r1"
            using sp(6-9) by (cases l1; cases r1) auto
          ultimately have "add_child_outcome sha fs tx p k rv st cu
              (add_at sha fs tx (sha k) k rv (length p) st1 (Inner c1 b1 l1 r1))"
            by (intro add_outcome_child [OF _ sp(3) less.prems(2) sp(4,5)])
          with leaf cu(1) False sp(1) show ?thesis by (simp add: p_def)
        qed
      next
        case inner
        then obtain c2 b2 l2 r2 where cu: "cu = Inner c2 b2 l2 r2" by (cases cu) auto
        have "kids_ok sha fs tx st p c2 b2 l2 r2"
          by (rule kids_okI) (use g cu in auto)
        then have "add_outcome sha fs tx p k rv st l2 r2
            (add_at sha fs tx (sha k) k rv (length p) st (Inner c2 b2 l2 r2))"
          using rv less.prems(2,4,5) onp nocoll len cu by (intro less.hyps) (auto simp: p_def)
        then have "add_child_outcome sha fs tx p k rv st cu
            (add_at sha fs tx (sha k) k rv (length p) st (Inner c2 b2 l2 r2))"
          by (rule add_outcome_child [OF _ _ less.prems(2)]) (auto simp: cu)
        with inner cu show ?thesis by (simp add: p_def node_placeholder_def)
      qed
    qed
    from add_climb [OF env kids _ _ less.prems(2,3) step_def cu_def this [unfolded p_def]] True
    show ?thesis
      by (simp add: add_at.simps(2) bit cu_def [symmetric] Let_def del: bytes_equal_iff)
  qed
qed

end
