(* ===== verification/SetCorrect.thy ===== *)
theory SetCorrect
  imports AddCorrect
begin

text \<open>
  The walk of \<open>Set\<close>: it overwrites the value array of the leaf in place, which is safe because no
  other node that matters points to that array (\<open>separated\<close>).
\<close>

text \<open>The values after \<open>Set\<close>: the encoded new value, or the old one where \<open>Same\<close> was given.\<close>

fun merged :: "field list \<Rightarrow> gval list \<Rightarrow> bytes list \<Rightarrow> bytes list option" where
  "merged (F # fs) (g # gs) (v # vs) =
     do { w \<leftarrow> (if g = GSame then Some v else Encode F g); ws \<leftarrow> merged fs gs vs; Some (w # ws) }"
| "merged [] gs vs = Some []"
| "merged _ _ _ = None"

lemma set_values_merged:
  "length vs = length fs \<Longrightarrow> length gs = length fs \<Longrightarrow> set_values fs gs vs = merged fs gs vs"
proof (induction fs gs vs rule: merged.induct)
  case (1 F fs g gs v vs)
  then show ?case by (cases "Encode F g") auto
qed auto

lemma merged_ok:
  "merged fs gs vs = Some ws \<Longrightarrow> fields_ok fs \<Longrightarrow> values_ok fs vs \<Longrightarrow> values_ok fs ws"
proof (induction fs gs vs arbitrary: ws rule: merged.induct)
  case (1 F fs g gs v vs)
  then show ?case
    using merkle_field.encode_decodable [of F g]
    by (auto simp: values_ok_def fields_ok_def bind_Some_iff split: if_splits)
qed (auto simp: values_ok_def)

lemma overwrite_leaf_post:
  assumes env: "fields_ok fs"
    and g: "good sha fs st p cursor" "known (cell cursor)" "\<not> tx \<Longrightarrow> clean cursor"
    and leaf: "node_leaf cursor" "key (cell cursor) = k" "k \<noteq> []"
    and gs: "length gs = length fs" "merged fs gs (read st (vals (cell cursor))) = Some ws"
  obtains st' ch where "overwrite_leaf sha fs tx gs st cursor = Some (st', ch)"
    "post sha fs tx p (set (refs cursor)) {} st st' ch [k \<mapsto> ws]" "node_leaf ch"
    "node_placeholder ch = node_placeholder cursor"
proof -
  obtain c b where cu: "cursor = Leaf c b" "key c = k" "known c"
    using leaf g(2) by (cases cursor) auto
  obtain st1 n1 where bk: "backup_if tx st cursor = (st1, n1)" by fastforce
  with cu(1) obtain b' where n1: "n1 = Leaf c b'" "tx \<or> b' = b" using backup_if_Leaf by metis
  have fr: "frame {} st st1" using backup_if_facts(3) [OF bk] .
  have v: "vals c < length st" "values_ok fs (read st (vals c))" "on_path sha p k"
    using g(1) cu leaf by (auto simp: good_def separated_def)
  then have rd: "read st1 (vals c) = read st (vals c)" "vals c < length st1"
    using fr by (auto simp: frame_def)
  have len: "length (read st (vals c)) = length fs"
    using v(2) by (simp add: values_ok_def list_all2_lengthD)
  define st2 where "st2 = st1[vals c := ws]"
  let ?ch = "Leaf (c\<lparr>label := generateHash sha st2 (Leaf c b')\<rparr>) b'"
  have "frame {vals c} st st2"
    using frame_trans [OF fr frame_update [of "vals c" st1 ws]] by (simp add: st2_def)
  moreover have "generateHash sha st2 ?ch = generateHash sha st2 (Leaf c b')"
    by (simp add: generateHash_def)
  moreover have "values_ok fs ws" using merged_ok gs(2) env v(2) cu by auto
  moreover have "\<not> tx \<Longrightarrow> clean ?ch" using g(3) n1 cu by auto
  ultimately have "post sha fs tx p (set (refs cursor)) {} st st2 ?ch [k \<mapsto> ws]"
    using cu v leaf rd(2) by (auto simp: post_def good_def separated_def st2_def)
  moreover have "overwrite_leaf sha fs tx gs st cursor = Some (st2, ?ch)"
    using bk n1(1) cu gs(2) rd(1) set_values_merged [OF len gs(1)]
    by (simp add: overwrite_leaf_def update_def st2_def Let_def)
  ultimately show ?thesis using that cu by (simp add: node_placeholder_def)
qed

text \<open>The outcome of a walk that changes the value of an existing key.\<close>

definition set_outcome where
  "set_outcome sha fs tx pre k m' st l r res \<longleftrightarrow>
     res = Some (Inl ProofNeeded) \<and> \<not> (all_known l \<and> all_known r) \<or>
     res = Some (Inl KeyNotFound) \<and> (contents st l ++ contents st r) k = None \<or>
     (\<exists>st' c' b' l' r'. res = Some (Inr (st', Inner c' b' l' r')) \<and>
        (contents st l ++ contents st r) k \<noteq> None \<and> inconsistent c' = tx \<and>
        post sha fs tx pre (set (refs l) \<union> set (refs r)) {} st st' (Inner c' b' l' r')
          ((contents st l ++ contents st r)(k := m' ((contents st l ++ contents st r) k))))"

definition set_child_outcome where
  "set_child_outcome sha fs tx p k m' st cu res \<longleftrightarrow>
     res = Some (Inl ProofNeeded) \<and> \<not> all_known cu \<or>
     res = Some (Inl KeyNotFound) \<and> contents st cu k = None \<or>
     (\<exists>st' ch. res = Some (Inr (st', ch)) \<and> contents st cu k \<noteq> None \<and>
        post sha fs tx p (set (refs cu)) {} st st' ch
          ((contents st cu)(k := m' (contents st cu k))))"

lemma set_climb:
  assumes env: "hash_ok sha" "fields_ok fs"
    and kids: "kids_ok sha fs tx st pre c b l r" and kn: "known (cell l)" "known (cell r)"
    and step: "step = path_of sha k ! length pre" and cu: "cu = (if step then r else l)"
    and out: "set_child_outcome sha fs tx (pre @ [step]) k m' st cu res"
  shows "set_outcome sha fs tx pre k m' st l r
    (Option.bind res (\<lambda>res. case res of Inl e \<Rightarrow> Some (Inl e)
       | Inr (st', child) \<Rightarrow> do { s \<leftarrow> climb sha fs tx st' (rebuild c b l r step child); Some (Inr s) }))"
proof -
  have at_k: "(contents st l ++ contents st r) k = contents st cu k"
    using kids_contents_at [OF env(1) kids, of k] step cu by simp
  from out consider
      (unknown) "res = Some (Inl ProofNeeded)" "\<not> all_known cu"
    | (missing) "res = Some (Inl KeyNotFound)" "contents st cu k = None"
    | (ok) st' ch where "res = Some (Inr (st', ch))" "contents st cu k \<noteq> None"
        "post sha fs tx (pre @ [step]) (set (refs cu)) {} st st' ch
          ((contents st cu)(k := m' (contents st cu k)))"
    unfolding set_child_outcome_def by metis
  then show ?thesis
  proof cases
    case unknown
    then show ?thesis using cu by (auto simp: set_outcome_def split: if_splits)
  next
    case missing
    then show ?thesis using at_k by (auto simp: set_outcome_def)
  next
    case ok
    from climb_post [OF env kids kn ok(3) [unfolded cu], folded cu] obtain st'' c'' where cl:
      "climb sha fs tx st' (rebuild c b l r step ch) = Some (st'', rebuild c'' b l r step ch)"
      "post sha fs tx pre (set (refs l) \<union> set (refs r)) {} st st'' (rebuild c'' b l r step ch)
       (\<lambda>q. if path_of sha q ! length pre = step
            then ((contents st cu)(k := m' (contents st cu k))) q
            else (contents st l ++ contents st r) q)"
      "inconsistent c'' = tx"
      by auto
    have "(\<lambda>q. if path_of sha q ! length pre = step
            then ((contents st cu)(k := m' (contents st cu k))) q
            else (contents st l ++ contents st r) q)
        = (contents st l ++ contents st r)(k := m' ((contents st l ++ contents st r) k))"
      using kids_contents_at [OF env(1) kids] step cu by (auto simp: fun_eq_iff)
    with cl ok at_k show ?thesis
      using rebuild_Inner [of c'' b l r step ch] by (auto simp: set_outcome_def)
  qed
qed

text \<open>The equation of the walk with the next cursor named once.\<close>

lemma set_at_Inner:
  "set_at sha fs tx path k values depth st (Inner c b l r) =
     (if \<not> known (cell l) \<or> \<not> known (cell r) then Some (Inl ProofNeeded)
      else case bit_at path depth of
        None \<Rightarrow> None
      | Some step \<Rightarrow>
          (let cu = (if step then r else l) in
           Option.bind
             (if node_leaf cu
              then (if \<not> bytes_equal (key (cell cu)) k then Some (Inl KeyNotFound)
                    else do { s \<leftarrow> overwrite_leaf sha fs tx values st cu; Some (Inr s) })
              else set_at sha fs tx path k values (depth + 1) st cu)
             (\<lambda>res. case res of Inl e \<Rightarrow> Some (Inl e)
                | Inr (st', child) \<Rightarrow>
                    do { s \<leftarrow> climb sha fs tx st' (rebuild c b l r step child); Some (Inr s) })))"
  by (auto simp: set_at.simps(2) Let_def split: option.split)

lemma leaf_contents_key:
  "node_leaf n \<Longrightarrow> known (cell n) \<Longrightarrow> k \<noteq> [] \<Longrightarrow>
    contents st n k = (if key (cell n) = k then Some (read st (vals (cell n))) else None)"
  by (cases n) auto

lemma set_at_outcome:
  assumes env: "hash_ok sha" "fields_ok fs" and k: "k \<noteq> []" and gs: "length gs = length fs"
  shows "kids_ok sha fs tx st pre c b l r \<Longrightarrow> on_path sha pre k \<Longrightarrow>
    (\<And>vs. (contents st l ++ contents st r) k = Some vs \<Longrightarrow> merged fs gs vs \<noteq> None) \<Longrightarrow>
    set_outcome sha fs tx pre k (\<lambda>v. Option.bind v (merged fs gs)) st l r
      (set_at sha fs tx (sha k) k gs (length pre) st (Inner c b l r))"
proof (induction "8 * sha_size - length pre" arbitrary: pre c b l r rule: less_induct)
  case less
  note kids = less.prems(1)
  let ?m = "\<lambda>v. Option.bind v (merged fs gs)"
  have len: "length pre < 8 * sha_size" using kids by (simp add: kids_ok_def)
  define step where "step = path_of sha k ! length pre"
  define cu where "cu = (if step then r else l)"
  define p where "p = pre @ [step]"
  have bit: "bit_at (sha k) (length pre) = Some step"
    using bit_at_path [OF env(1) len] by (simp add: step_def)
  show ?case
  proof (cases "known (cell l) \<and> known (cell r)")
    case False
    then have "\<not> (all_known l \<and> all_known r)" by (cases l; cases r) auto
    with False show ?thesis by (auto simp: set_at.simps(2) set_outcome_def)
  next
    case True
    have g: "good sha fs st p cu" "known (cell cu)" "\<not> tx \<Longrightarrow> clean cu"
      using kids True by (auto simp: kids_ok_def cu_def p_def)
    have onp: "on_path sha p k"
      using less.prems(2) env(1) len by (simp add: p_def on_path_snoc step_def)
    have at_k: "(contents st l ++ contents st r) k = contents st cu k"
      using kids_contents_at [OF env(1) kids, of k] by (simp add: cu_def step_def)
    let ?res = "if node_leaf cu
                then (if \<not> bytes_equal (key (cell cu)) k then Some (Inl KeyNotFound)
                      else do { s \<leftarrow> overwrite_leaf sha fs tx gs st cu; Some (Inr s) })
                else set_at sha fs tx (sha k) k gs (length pre + 1) st cu"
    have "set_child_outcome sha fs tx p k ?m st cu ?res"
    proof (cases "node_leaf cu")
      case leaf: True
      show ?thesis
      proof (cases "key (cell cu) = k")
        case False
        with leaf g k show ?thesis by (simp add: set_child_outcome_def leaf_contents_key)
      next
        case eq: True
        then have c: "contents st cu k = Some (read st (vals (cell cu)))"
          using leaf g k by (simp add: leaf_contents_key)
        then obtain ws where ws: "merged fs gs (read st (vals (cell cu))) = Some ws"
          using less.prems(3) at_k by auto
        have "contents st cu = [k \<mapsto> read st (vals (cell cu))]"
          using leaf eq k g(2) by (cases cu) auto
        from overwrite_leaf_post [OF env(2) g leaf eq k gs ws] obtain st' ch where
          "overwrite_leaf sha fs tx gs st cu = Some (st', ch)"
          "post sha fs tx p (set (refs cu)) {} st st' ch [k \<mapsto> ws]" by metis
        with \<open>contents st cu = _\<close> leaf eq ws show ?thesis
          by (simp add: set_child_outcome_def)
      qed
    next
      case inner: False
      then obtain c2 b2 l2 r2 where cu: "cu = Inner c2 b2 l2 r2" by (cases cu) auto
      have "kids_ok sha fs tx st p c2 b2 l2 r2"
        by (rule kids_okI) (use g cu in auto)
      then have out: "set_outcome sha fs tx p k ?m st l2 r2
          (set_at sha fs tx (sha k) k gs (length p) st (Inner c2 b2 l2 r2))"
        using onp len cu less.prems(3) at_k by (intro less.hyps) (auto simp: p_def)
      show ?thesis
        using out post_trans [of sha fs tx p "set (refs l2) \<union> set (refs r2)" "{}" st _ _ _ st "set (refs cu)"]
        unfolding cu set_outcome_def set_child_outcome_def
        by (auto simp: p_def)
    qed
    from set_climb [OF env kids _ _ step_def cu_def this [unfolded p_def]] True
    show ?thesis
      by (simp add: set_at_Inner bit cu_def [symmetric] Let_def del: bytes_equal_iff)
  qed
qed

end
