(* ===== verification/RemoveCorrect.thy ===== *)
theory RemoveCorrect
  imports SetCorrect
begin

text \<open>
  The walk of \<open>Remove\<close>: it clears the leaf and, on the way back, replaces every inner node that is
  left with a placeholder and a leaf by that leaf.
\<close>

lemma clear_leaf_post:
  assumes env: "fields_ok fs"
    and g: "good sha fs st p cursor" "known (cell cursor)" "\<not> tx \<Longrightarrow> clean cursor"
    and leaf: "node_leaf cursor"
  obtains st' ch where "clear_leaf sha fs tx st cursor = Some (Inr (st', ch))"
    "post sha fs tx p (set (refs cursor)) {} st st' ch Map.empty" "node_placeholder ch"
proof -
  obtain c b where cu: "cursor = Leaf c b" "known c" using leaf g(2) by (cases cursor) auto
  obtain st1 n1 where bk: "backup_if tx st cursor = (st1, n1)" by fastforce
  with cu(1) obtain b' where n1: "n1 = Leaf c b'" "tx \<or> b' = b" using backup_if_Leaf by metis
  have fr: "frame {} st st1" using backup_if_facts(3) [OF bk] .
  let ?st = "st1 @ [map Placeholder fs]"
  let ?ch = "Leaf (c\<lparr>known := True, key := [], vals := length st1,
         label := toHash_hash sha \<lparr>IsLeaf = True, Key = [], Values = map Placeholder fs,
           LeftLabel = zero_digest, RightLabel = zero_digest\<rparr>\<rparr>) b'"
  have dec: "values_ok fs (map Placeholder fs)"
    using env by (auto simp: values_ok_def fields_ok_def list_all2_conv_all_nth
        intro: merkle_field.placeholder_decodable)
  have "frame (set (refs cursor)) st ?st"
    using frame_trans [OF fr, of "{}" ?st] by (auto intro: frame_mono)
  moreover have "\<not> tx \<Longrightarrow> clean ?ch" using g(3) n1 cu by auto
  ultimately have "post sha fs tx p (set (refs cursor)) {} st ?st ?ch Map.empty"
    using dec frame_length [OF fr] by (auto simp: post_def good_def separated_def generateHash_def)
  moreover have "clear_leaf sha fs tx st cursor = Some (Inr (?st, ?ch))"
    using bk n1(1) by (simp add: clear_leaf_def setPlaceholder_eq)
  ultimately show ?thesis by (intro that) (auto simp: node_placeholder_def)
qed

lemma collapse_node:
  assumes kids: "kids_ok sha fs tx st pre c b L R" "known (cell L)" "known (cell R)"
    and col: "collapsible L R"
  obtains st' c' b' where "collapse tx st (Inner c b L R) = (st', Leaf c' b')"
    "good sha fs st' pre (Leaf c' b')" "frame {} st st'" "known c'"
    "\<not> tx \<Longrightarrow> clean (Leaf c' b')"
    "set (refs (Leaf c' b')) \<subseteq> set (refs L) \<union> set (refs R)"
    "contents st' (Leaf c' b') = contents st L ++ contents st R"
proof -
  obtain st1 n1 where bk: "backup_if tx st (Inner c b L R) = (st1, n1)" by fastforce
  then obtain b' where n1: "n1 = Inner c b' L R" "tx \<or> b' = b"
    by (auto simp: backup_if_def node_backup_def alloc_def split: if_splits option.splits)
  have fr: "frame {} st st1" using backup_if_facts(3) [OF bk] .
  define other where "other = (if node_placeholder L then R else L)"
  have "node_leaf other" "known (cell other)"
    using col kids(2,3) by (auto simp: other_def collapsible_def node_placeholder_def)
  then obtain d e where o: "other = Leaf d e" "known d" by (cases other) auto
  obtain p where g: "good sha fs st (pre @ [p]) other"
    using kids(1) by (cases "node_placeholder L") (auto simp: other_def kids_ok_def)
  note g1 = good_frame [OF fr g, simplified]
  define c' where "c' = c\<lparr>label := label d, key := key d, vals := vals d\<rparr>"
  have "collapse tx st (Inner c b L R) = (st1, Leaf c' b')"
    using bk n1(1) o by (auto simp: collapse_def c'_def other_def node_prune_def split: if_splits)
  moreover have "known c'" "\<not> tx \<Longrightarrow> clean (Leaf c' b')"
    using kids(1) n1 by (auto simp: c'_def kids_ok_def)
  moreover have "good sha fs st1 pre (Leaf c' b')"
    using g1(1) o kids(1)
    by (auto simp: good_def separated_def c'_def generateHash_def kids_ok_def dest: on_path_imp_prefix)
  moreover have "set (refs (Leaf c' b')) \<subseteq> set (refs L) \<union> set (refs R)"
    using o by (auto simp: c'_def other_def split: if_splits)
  moreover have "contents st1 (Leaf c' b') = contents st other"
    using g1(2) o kids(1) by (auto simp: c'_def kids_ok_def)
  moreover have "contents st other = contents st L ++ contents st R"
    using col placeholder_contents [of L st] placeholder_contents [of R st]
    by (auto simp: other_def collapsible_def)
  ultimately show ?thesis using fr that by simp
qed

lemma climb_remove_post:
  assumes env: "hash_ok sha" "fields_ok fs"
    and kids: "kids_ok sha fs tx st pre c b l r"
    and kn: "known (cell l)" "known (cell r)"
    and ch: "post sha fs tx (pre @ [step]) (set (refs (if step then r else l))) {} st st' ch m"
  obtains st'' n where
    "climb_remove sha fs tx is_root st' (rebuild c b l r step ch) = Some (st'', n)"
    "post sha fs tx pre (set (refs l) \<union> set (refs r)) {} st st'' n
       (\<lambda>k. if path_of sha k ! length pre = step then m k else (contents st l ++ contents st r) k)"
    "is_root \<Longrightarrow> \<not> node_leaf n" "node_leaf n \<or> inconsistent (cell n) = tx"
proof (cases "\<not> is_root \<and> collapsible (kid_left step l ch) (kid_right step r ch)")
  case True
  note reb = rebuilt_kids [OF kids kn ch]
  obtain st'' c' b' where co:
    "collapse tx st' (rebuild c b l r step ch) = (st'', Leaf c' b')"
    "good sha fs st'' pre (Leaf c' b')" "frame {} st' st''" "known c'"
    "\<not> tx \<Longrightarrow> clean (Leaf c' b')"
    "set (refs (Leaf c' b')) \<subseteq> set (refs (kid_left step l ch)) \<union> set (refs (kid_right step r ch))"
    "contents st'' (Leaf c' b') = contents st' (kid_left step l ch) ++ contents st' (kid_right step r ch)"
    unfolding rebuild_kids using collapse_node [OF reb(1-3)] True by auto
  have "post sha fs tx pre (set (refs l) \<union> set (refs r)) {} st st'' (Leaf c' b')
       (\<lambda>k. if path_of sha k ! length pre = step then m k else (contents st l ++ contents st r) k)"
    by (rule up_post [OF env(1) kids kn ch _ co(2) _ co(5,3) _ co(7)]) (use co(4,6) in auto)
  then show ?thesis
    using True co(1) by (intro that) (auto simp: climb_remove_def rebuild_kids)
next
  case False
  from climb_post [OF env kids kn ch] obtain st'' c'' where cl:
    "climb sha fs tx st' (rebuild c b l r step ch) = Some (st'', rebuild c'' b l r step ch)"
    "post sha fs tx pre (set (refs l) \<union> set (refs r)) {} st st'' (rebuild c'' b l r step ch)
       (\<lambda>k. if path_of sha k ! length pre = step then m k else (contents st l ++ contents st r) k)"
    "inconsistent c'' = tx" by auto
  show ?thesis
    by (rule that [OF _ cl(2)]) (use False cl in \<open>auto simp: climb_remove_def rebuild_kids\<close>)
qed

definition remove_child_outcome where
  "remove_child_outcome sha fs tx p k st cu res \<longleftrightarrow>
     res = Some (Inl ProofNeeded) \<and> \<not> all_known cu \<or>
     res = Some (Inl KeyNotFound) \<and> contents st cu k = None \<or>
     (\<exists>st' ch. res = Some (Inr (st', ch)) \<and> contents st cu k \<noteq> None \<and>
        post sha fs tx p (set (refs cu)) {} st st' ch ((contents st cu)(k := None)))"

definition remove_outcome where
  "remove_outcome sha fs tx pre k is_root st l r res \<longleftrightarrow>
     res = Some (Inl ProofNeeded) \<and> \<not> (all_known l \<and> all_known r) \<or>
     res = Some (Inl KeyNotFound) \<and> (contents st l ++ contents st r) k = None \<or>
     (\<exists>st' n. res = Some (Inr (st', n)) \<and> (is_root \<longrightarrow> \<not> node_leaf n) \<and>
        (node_leaf n \<or> inconsistent (cell n) = tx) \<and>
        (contents st l ++ contents st r) k \<noteq> None \<and>
        post sha fs tx pre (set (refs l) \<union> set (refs r)) {} st st' n
          ((contents st l ++ contents st r)(k := None)))"

lemma remove_climb:
  assumes env: "hash_ok sha" "fields_ok fs"
    and kids: "kids_ok sha fs tx st pre c b l r" and kn: "known (cell l)" "known (cell r)"
    and step: "step = path_of sha k ! length pre" and cu: "cu = (if step then r else l)"
    and out: "remove_child_outcome sha fs tx (pre @ [step]) k st cu res"
  shows "remove_outcome sha fs tx pre k is_root st l r
    (Option.bind res (\<lambda>res. case res of Inl e \<Rightarrow> Some (Inl e)
       | Inr (st', child) \<Rightarrow>
           do { s \<leftarrow> climb_remove sha fs tx is_root st' (rebuild c b l r step child); Some (Inr s) }))"
proof -
  have at_k: "(contents st l ++ contents st r) k = contents st cu k"
    using kids_contents_at [OF env(1) kids, of k] step cu by simp
  from out consider
      (unknown) "res = Some (Inl ProofNeeded)" "\<not> all_known cu"
    | (missing) "res = Some (Inl KeyNotFound)" "contents st cu k = None"
    | (ok) st' ch where "res = Some (Inr (st', ch))" "contents st cu k \<noteq> None"
        "post sha fs tx (pre @ [step]) (set (refs cu)) {} st st' ch ((contents st cu)(k := None))"
    unfolding remove_child_outcome_def by metis
  then show ?thesis
  proof cases
    case unknown
    then show ?thesis using cu by (auto simp: remove_outcome_def split: if_splits)
  next
    case missing
    then show ?thesis using at_k by (auto simp: remove_outcome_def)
  next
    case ok
    from climb_remove_post [OF env kids kn ok(3) [unfolded cu], folded cu, of is_root] obtain st'' n where cl:
      "climb_remove sha fs tx is_root st' (rebuild c b l r step ch) = Some (st'', n)"
      "post sha fs tx pre (set (refs l) \<union> set (refs r)) {} st st'' n
       (\<lambda>q. if path_of sha q ! length pre = step
            then ((contents st cu)(k := None)) q else (contents st l ++ contents st r) q)"
      "is_root \<Longrightarrow> \<not> node_leaf n" "node_leaf n \<or> inconsistent (cell n) = tx" by auto
    have "(\<lambda>q. if path_of sha q ! length pre = step
            then ((contents st cu)(k := None)) q else (contents st l ++ contents st r) q)
        = (contents st l ++ contents st r)(k := None)"
      using kids_contents_at [OF env(1) kids] step cu by (auto simp: fun_eq_iff)
    with cl ok at_k show ?thesis by (auto simp: remove_outcome_def)
  qed
qed

lemma remove_at_Inner:
  "remove_at sha fs tx path k is_root depth st (Inner c b l r) =
     (if \<not> known (cell l) \<or> \<not> known (cell r) then Some (Inl ProofNeeded)
      else case bit_at path depth of
        None \<Rightarrow> None
      | Some step \<Rightarrow>
          (let cu = (if step then r else l) in
           Option.bind
             (if node_leaf cu
              then (if \<not> bytes_equal (key (cell cu)) k then Some (Inl KeyNotFound)
                    else clear_leaf sha fs tx st cu)
              else remove_at sha fs tx path k False (depth + 1) st cu)
             (\<lambda>res. case res of Inl e \<Rightarrow> Some (Inl e)
                | Inr (st', child) \<Rightarrow>
                    do { s \<leftarrow> climb_remove sha fs tx is_root st' (rebuild c b l r step child);
                         Some (Inr s) })))"
  by (auto simp: remove_at.simps(2) Let_def split: option.split)

lemma remove_at_outcome:
  assumes env: "hash_ok sha" "fields_ok fs" and k: "k \<noteq> []"
  shows "kids_ok sha fs tx st pre c b l r \<Longrightarrow> on_path sha pre k \<Longrightarrow>
    remove_outcome sha fs tx pre k is_root st l r
      (remove_at sha fs tx (sha k) k is_root (length pre) st (Inner c b l r))"
proof (induction "8 * sha_size - length pre" arbitrary: pre c b l r is_root rule: less_induct)
  case less
  note kids = less.prems(1)
  have len: "length pre < 8 * sha_size" using kids by (simp add: kids_ok_def)
  define step where "step = path_of sha k ! length pre"
  define cu where "cu = (if step then r else l)"
  define p where "p = pre @ [step]"
  have bit: "bit_at (sha k) (length pre) = Some step"
    using bit_at_path [OF env(1) len] by (simp add: step_def)
  show ?case
  proof (cases "known (cell l) \<and> known (cell r)")
    case False
    then have "\<not> (all_known l \<and> all_known r)" by (cases l; cases r) auto
    with False show ?thesis by (auto simp: remove_at.simps(2) remove_outcome_def)
  next
    case True
    have g: "good sha fs st p cu" "known (cell cu)" "\<not> tx \<Longrightarrow> clean cu"
      using kids True by (auto simp: kids_ok_def cu_def p_def)
    have onp: "on_path sha p k"
      using less.prems(2) env(1) len by (simp add: p_def on_path_snoc step_def)
    let ?res = "if node_leaf cu
                then (if \<not> bytes_equal (key (cell cu)) k then Some (Inl KeyNotFound)
                      else clear_leaf sha fs tx st cu)
                else remove_at sha fs tx (sha k) k False (length pre + 1) st cu"
    have "remove_child_outcome sha fs tx p k st cu ?res"
    proof (cases "node_leaf cu")
      case leaf: True
      show ?thesis
      proof (cases "key (cell cu) = k")
        case False
        with leaf g k show ?thesis by (simp add: remove_child_outcome_def leaf_contents_key)
      next
        case eq: True
        have c: "(contents st cu)(k := None) = Map.empty" "contents st cu k \<noteq> None"
          using leaf eq k g(2) by (cases cu; auto simp: fun_eq_iff)+
        from clear_leaf_post [OF env(2) g leaf] obtain st' ch where
          "clear_leaf sha fs tx st cu = Some (Inr (st', ch))"
          "post sha fs tx p (set (refs cu)) {} st st' ch Map.empty" by metis
        with c leaf eq show ?thesis by (simp add: remove_child_outcome_def)
      qed
    next
      case inner: False
      then obtain c2 b2 l2 r2 where cu: "cu = Inner c2 b2 l2 r2" by (cases cu) auto
      have "kids_ok sha fs tx st p c2 b2 l2 r2"
        by (rule kids_okI) (use g cu in auto)
      then have out: "remove_outcome sha fs tx p k False st l2 r2
          (remove_at sha fs tx (sha k) k False (length p) st (Inner c2 b2 l2 r2))"
        using onp len by (intro less.hyps) (auto simp: p_def)
      show ?thesis
        using out post_trans [of sha fs tx p "set (refs l2) \<union> set (refs r2)" "{}" st _ _ _ st "set (refs cu)"]
        unfolding cu remove_outcome_def remove_child_outcome_def
        by (auto simp: p_def)
    qed
    from remove_climb [OF env kids _ _ step_def cu_def this [unfolded p_def], of is_root] True
    show ?thesis
      by (simp add: remove_at_Inner bit cu_def [symmetric] Let_def del: bytes_equal_iff)
  qed
qed

end
