(* ===== verification/CollectCorrect.thy ===== *)
theory CollectCorrect
  imports RemoveCorrect
begin

text \<open>
  \<open>Collect\<close> forgets subtrees outside the scope: it keeps the labels (so proofs against the root
  still verify), never changes a value it keeps, and keeps every key whose whole path is in scope.
\<close>

definition in_scope :: "scope \<Rightarrow> (bytes \<Rightarrow> bytes) \<Rightarrow> bytes \<Rightarrow> bool" where
  "in_scope sc sha k \<longleftrightarrow> scope_match sc (sha k) (int (8 * sha_size)) = Some True"

lemma in_scope_All: "masks sc = [] \<Longrightarrow> in_scope sc sha k = scope_all sc"
  by (simp add: in_scope_def scope_match_def)

lemma scope_match_prefix:
  assumes "scope_ok sc" "length path = sha_size" "length path' = sha_size"
    and "take (nat b) (bits_of path) = take (nat b) (bits_of path')"
  shows "scope_match sc path b = scope_match sc path' b"
proof -
  have eq: "take (nat (min b x)) (bits_of path) = take (nat (min b x)) (bits_of path')" for x
  proof -
    have "take (nat (min b x)) (take (nat b) (bits_of path))
        = take (nat (min b x)) (take (nat b) (bits_of path'))" using assms(4) by simp
    then show ?thesis by (simp add: min_def split: if_splits)
  qed
  then have "mask_covers m path b = mask_covers m path' b" for m
    by (simp add: mask_covers_def)
  then show ?thesis using assms(1-3) by (simp add: scope_match_iff)
qed

lemma in_scope_prefix:
  assumes "scope_ok sc" "hash_ok sha" "in_scope sc sha k" "on_path sha pre k"
    and "length path = sha_size" "take (length pre) (bits_of path) = pre"
    and "b \<le> int (length pre)" "length pre \<le> 8 * sha_size"
  shows "scope_match sc path b = Some True"
proof -
  have len: "length (sha k) = sha_size" using assms(2) by (simp add: hash_ok_def)
  have "take (nat b) (bits_of path) = take (nat b) (take (length pre) (bits_of path))"
    using assms(7) by simp
  also have "\<dots> = take (nat b) (bits_of (sha k))"
    using assms(4,6,7) by (simp add: on_path_def path_of_def)
      (metis min_absorb1 nat_le_iff take_take)
  finally have "scope_match sc path b = scope_match sc (sha k) b"
    using scope_match_prefix assms(1,5) len by blast
  also have "\<dots> = Some True"
    using scope_match_antimono [OF assms(1) len _ assms(3) [unfolded in_scope_def]] assms(7,8) by simp
  finally show ?thesis .
qed

text \<open>What pruning below a node may do.\<close>

definition collected ::
  "scope \<Rightarrow> (bytes \<Rightarrow> bytes) \<Rightarrow> field list \<Rightarrow> store \<Rightarrow> bool list \<Rightarrow> node \<Rightarrow> node \<Rightarrow> bool" where
  "collected sc sha fs st pre n n' \<longleftrightarrow>
     good sha fs st pre n' \<and> clean n' \<and> label (cell n') = label (cell n) \<and>
     set (refs n') \<subseteq> set (refs n) \<and> contents st n' \<subseteq>\<^sub>m contents st n \<and>
     (\<forall>k. in_scope sc sha k \<longrightarrow> on_path sha pre k \<longrightarrow> contents st n' k = contents st n k) \<and>
     (known (cell n') \<longrightarrow> known (cell n) \<and> cell n' = cell n \<and> node_leaf n' = node_leaf n) \<and>
     (shrunk n \<longrightarrow> shrunk n')"

lemma collected_refl: "good sha fs st pre n \<Longrightarrow> clean n \<Longrightarrow> collected sc sha fs st pre n n"
  by (simp add: collected_def)

lemma collected_cut:
  assumes "clean n" "\<And>k. in_scope sc sha k \<Longrightarrow> on_path sha pre k \<Longrightarrow> False"
  shows "collected sc sha fs st pre n (collect_cut n)"
  using assms by (cases n) (auto simp: collected_def collect_cut_def node_prune_def good_def separated_def)

lemma collected_Inner:
  assumes hash: "hash_ok sha" and g: "good sha fs st pre (Inner c b l r)" "clean (Inner c b l r)"
    and l: "collected sc sha fs st (pre @ [False]) l l'"
    and r: "collected sc sha fs st (pre @ [True]) r r'"
  shows "collected sc sha fs st pre (Inner c b l r) (Inner c b l' r')"
proof -
  have hash_eq: "generateHash sha st (Inner c b l' r') = generateHash sha st (Inner c b l r)"
    using l r by (simp add: generateHash_def collected_def)
  have ok: "tree_ok sha fs st pre (Inner c b l' r')"
    using g l r hash_eq
    by (simp add: good_def collected_def del: contents.simps) metis
  have sep: "separated st (Inner c b l' r')"
    using g l r unfolding good_def collected_def separated_Inner by blast
  have len: "length pre < 8 * sha_size" using g by (simp add: good_def)
  have ok0: "tree_ok sha fs st pre (Inner c b l r)" using g(1) by (simp only: good_def)
  note at = contents_Inner_at [OF hash ok] contents_Inner_at [OF hash ok0]
  have "contents st (Inner c b l' r') k = contents st (Inner c b l r) k"
    if "in_scope sc sha k" "on_path sha pre k" for k
    using that l r hash len
    by (cases "path_of sha k ! length pre")
      (simp_all only: at if_True if_False, simp_all add: collected_def on_path_snoc)
  moreover have "contents st (Inner c b l' r') \<subseteq>\<^sub>m contents st (Inner c b l r)"
    unfolding map_le_def
  proof
    fix k assume "k \<in> dom (contents st (Inner c b l' r'))"
    then show "contents st (Inner c b l' r') k = contents st (Inner c b l r) k"
      using l r unfolding domIff at by (auto simp: collected_def map_le_def domIff split: if_splits)
  qed
  moreover have "collapsible l' r' \<Longrightarrow> known (cell l') \<Longrightarrow> known (cell r') \<Longrightarrow> collapsible l r"
    using l r by (auto simp: collapsible_def node_placeholder_def collected_def)
  ultimately show ?thesis
    unfolding collected_def good_def
    using ok sep g l r by (simp add: collected_def good_def del: contents.simps tree_ok.simps) blast
qed

text \<open>The scope test of a node at depth \<open>d\<close> returns, and a refused node holds no key in scope.\<close>

lemma collect_test:
  assumes "hash_ok sha" "scope_ok sc" "length pre = Suc d" "length pre \<le> 8 * sha_size"
    and "length path = sha_size" "take (length pre) (bits_of path) = pre"
  obtains m where "(if 0 < d then scope_match sc path (int d - 1) else Some True) = Some m"
    "\<And>k. \<not> m \<Longrightarrow> in_scope sc sha k \<Longrightarrow> on_path sha pre k \<Longrightarrow> False"
proof (cases "0 < d")
  case False
  then show ?thesis by (intro that [of True]) auto
next
  case True
  obtain m where m: "scope_match sc path (int d - 1) = Some m"
    using scope_match_iff [OF assms(2,5)] by blast
  show ?thesis
  proof (rule that [of m])
    show "(if 0 < d then scope_match sc path (int d - 1) else Some True) = Some m"
      using True m by simp
    fix k assume "\<not> m" "in_scope sc sha k" "on_path sha pre k"
    then show False
      using in_scope_prefix [OF assms(2,1) _ _ assms(5,6) _ assms(4), of k "int d - 1"] assms(3) m
      by simp
  qed
qed

lemma collect_node_collected:
  assumes hash: "hash_ok sha" and sc: "scope_ok sc"
  shows "good sha fs st pre n \<Longrightarrow> clean n \<Longrightarrow> length pre = Suc d \<Longrightarrow> length pre \<le> 8 * sha_size \<Longrightarrow>
    length path = sha_size \<Longrightarrow> take (length pre) (bits_of path) = pre \<Longrightarrow>
    \<exists>n'. collect_node sc n path d = Some n' \<and> collected sc sha fs st pre n n'"
proof (induction n arbitrary: pre path d rule: tree_induct)
  case (Leaf c b)
  obtain m where m: "(if 0 < d then scope_match sc path (int d - 1) else Some True) = Some m"
    "\<And>k. \<not> m \<Longrightarrow> in_scope sc sha k \<Longrightarrow> on_path sha pre k \<Longrightarrow> False"
    using collect_test [OF hash sc Leaf.prems(3-6)] by blast
  then show ?case
    using collected_refl [OF Leaf.prems(1,2), of sc] collected_cut [OF Leaf.prems(2) m(2)]
    by (cases m) (auto simp del: scope_match_def)
next
  case (Inner c b l r)
  obtain m where m: "(if 0 < d then scope_match sc path (int d - 1) else Some True) = Some m"
    "\<And>k. \<not> m \<Longrightarrow> in_scope sc sha k \<Longrightarrow> on_path sha pre k \<Longrightarrow> False"
    using collect_test [OF hash sc Inner.prems(3-6)] by blast
  have k: "known c" "length pre < 8 * sha_size" using Inner.prems(1) by (auto simp: good_def)
  show ?case
  proof (cases m)
    case False
    then show ?thesis
      using k m(1) collected_cut [OF Inner.prems(2) m(2)] by simp
  next
    case True
    have d: "d + 1 = length pre" "d + 1 < 8 * length path" using Inner.prems(3,5) k by auto
    then obtain path0 where p0: "setBit path (d + 1) False = Some path0" using setBit_Some_iff by blast
    note len0 = setBit_length [OF p0] and bits0 = setBit_bits_of [OF p0]
    have "d + 1 < 8 * length path0" using d len0 by simp
    then obtain path1 where p1: "setBit path0 (d + 1) True = Some path1" using setBit_Some_iff by blast
    note len1 = setBit_length [OF p1] and bits1 = setBit_bits_of [OF p1]
    have ext: "take (length (pre @ [x])) ((bits_of path)[length pre := x]) = pre @ [x]" for x
      using Inner.prems(6) d by (simp add: take_Suc_conv_app_nth)
    have "take (length (pre @ [False])) (bits_of path0) = pre @ [False]"
      unfolding bits0 d(1) by (rule ext)
    moreover have "take (length (pre @ [True])) (bits_of path1) = pre @ [True]"
      unfolding bits1 bits0 d(1) list_update_overwrite by (rule ext)
    moreover have "good sha fs st (pre @ [False]) l" "good sha fs st (pre @ [True]) r" "clean l" "clean r"
      using Inner.prems(1,2) by (auto simp: good_def separated_Inner)
    ultimately obtain l' r' where kids: "collect_node sc l path0 (d + 1) = Some l'"
      "collect_node sc r path1 (d + 1) = Some r'" and
      coll: "collected sc sha fs st (pre @ [False]) l l'" "collected sc sha fs st (pre @ [True]) r r'"
      using Inner.IH(1) [of "pre @ [False]" "d + 1" path0] Inner.IH(2) [of "pre @ [True]" "d + 1" path1]
        Inner.prems(3,5) k len0 len1 by auto
    show ?thesis
      using k m(1) True p0 p1 kids collected_Inner [OF hash Inner.prems(1,2) coll] by simp
  qed
qed

end
