(* ===== verification/CollectionCorrect.thy ===== *)
theory CollectionCorrect
  imports CollectCorrect
begin

text \<open>
  The operations of a whole collection. \<open>coll_ok\<close> is its invariant, \<open>kv\<close> the key/value map it
  stands for, \<open>tree_label\<close> the Merkle root. \<open>becomes\<close> is the contract of a write: the collection
  stands for the new map, except that outside a transaction keys out of scope may be forgotten.
\<close>

definition kv :: "collection \<Rightarrow> bytes \<rightharpoonup> bytes list" where
  "kv c = contents (arrays c) (root c)"

definition tree_label :: "collection \<Rightarrow> bytes" where
  "tree_label c = label (cell (root c))"

definition coll_ok :: "(bytes \<Rightarrow> bytes) \<Rightarrow> collection \<Rightarrow> bool" where
  "coll_ok sha c \<longleftrightarrow>
     good sha (coll_fields c) (arrays c) [] (root c) \<and>
     fields_ok (coll_fields c) \<and> scope_ok (coll_scope c) \<and>
     (known (cell (root c)) \<longrightarrow> \<not> node_leaf (root c)) \<and>
     (\<not> ongoing c \<longrightarrow> clean (root c))"

text \<open>No other key of the collection has the hash of \<open>k\<close>.\<close>

definition no_collision :: "(bytes \<Rightarrow> bytes) \<Rightarrow> collection \<Rightarrow> bytes \<Rightarrow> bool" where
  "no_collision sha c k \<longleftrightarrow> (\<forall>k' \<in> dom (kv c). sha k' = sha k \<longrightarrow> k' = k)"

definition same_config :: "collection \<Rightarrow> collection \<Rightarrow> bool" where
  "same_config c c' \<longleftrightarrow>
     coll_fields c' = coll_fields c \<and> coll_scope c' = coll_scope c \<and>
     autoCollect c' = autoCollect c"

definition becomes ::
  "(bytes \<Rightarrow> bytes) \<Rightarrow> collection \<Rightarrow> (bytes \<rightharpoonup> bytes list) \<Rightarrow> collection \<Rightarrow> bool" where
  "becomes sha c m c' \<longleftrightarrow>
     coll_ok sha c' \<and> same_config c c' \<and> ongoing c' = ongoing c \<and> kv c' \<subseteq>\<^sub>m m \<and>
     (\<forall>q. ongoing c \<or> in_scope (coll_scope c) sha q \<longrightarrow> kv c' q = m q)"

lemma same_config_refl [simp]: "same_config c c"
  by (simp add: same_config_def)

lemma becomes_exact:
  "becomes sha c m c' \<Longrightarrow> ongoing c \<or> (\<forall>q. in_scope (coll_scope c) sha q) \<Longrightarrow> kv c' = m"
  by (auto simp: becomes_def)

section \<open>Collect\<close>

definition collects :: "(bytes \<Rightarrow> bytes) \<Rightarrow> collection \<Rightarrow> collection \<Rightarrow> bool" where
  "collects sha c c' \<longleftrightarrow>
     coll_ok sha c' \<and> clean (root c') \<and> same_config c c' \<and> ongoing c' = ongoing c \<and>
     tx_id c' = tx_id c \<and> tree_label c' = tree_label c \<and> kv c' \<subseteq>\<^sub>m kv c \<and>
     (\<forall>q. in_scope (coll_scope c) sha q \<longrightarrow> kv c' q = kv c q)"

lemma collectsI:
  assumes "coll_ok sha c" "clean (root c)"
    and "collected (coll_scope c) sha (coll_fields c) (arrays c) [] (root c) n"
    and "known (cell n) \<Longrightarrow> \<not> node_leaf n"
  shows "collects sha c (c\<lparr>root := n\<rparr>)"
  using assms by (auto simp: collects_def collected_def coll_ok_def same_config_def kv_def
      tree_label_def clean_imp simp del: contents.simps)

lemma Collect_total:
  assumes hash: "hash_ok sha" and ok: "coll_ok sha c" and cl: "clean (root c)"
  shows "\<exists>c'. Collect c = Some c' \<and> collects sha c c'"
proof (cases "known (cell (root c))")
  case False
  have "collects sha c (c\<lparr>root := root c\<rparr>)"
    using collected_refl ok cl False by (intro collectsI [OF ok cl]) (auto simp: coll_ok_def)
  with False show ?thesis by (simp add: Collect_def)
next
  case True
  then obtain rc b l r where root: "root c = Inner rc b l r"
    using ok by (cases "root c") (auto simp: coll_ok_def)
  let ?sc = "coll_scope c"
  have sc: "scope_ok ?sc" using ok by (simp add: coll_ok_def)
  obtain p0 where p0: "setBit zero_digest 0 False = Some p0"
    using setBit_Some_iff [of zero_digest 0] by (auto simp: sha_size_def)
  have l0: "length p0 = sha_size" using setBit_length [OF p0] by simp
  obtain p1 where p1: "setBit p0 0 True = Some p1"
    using setBit_Some_iff [of p0 0] l0 by (auto simp: sha_size_def)
  have l1: "length p1 = sha_size" using setBit_length [OF p1] l0 by simp
  obtain p2 where p2: "setBit p1 0 False = Some p2"
    using setBit_Some_iff [of p1 0] l1 by (auto simp: sha_size_def)
  have l2: "length p2 = sha_size" using setBit_length [OF p2] l1 by simp
  obtain p3 where p3: "setBit p2 0 True = Some p3"
    using setBit_Some_iff [of p2 0] l2 by (auto simp: sha_size_def)
  have l3: "length p3 = sha_size" using setBit_length [OF p3] l2 by simp
  obtain m0 m1 where m: "scope_match ?sc p0 0 = Some m0" "scope_match ?sc p1 0 = Some m1"
    using scope_match_iff [OF sc l0] scope_match_iff [OF sc l1] by blast
  have g: "good sha (coll_fields c) (arrays c) [] (Inner rc b l r)" "clean (Inner rc b l r)"
    using ok cl root by (auto simp: coll_ok_def)
  have rk: "known rc" using True root by simp
  note pre = True root p0 p1 m
  show ?thesis
  proof (cases "m0 \<or> m1")
    case False
    have no: "\<not> in_scope ?sc sha k" for k
      using in_scope_prefix [OF sc hash, of k "[]" p0 0] m l0 False by auto
    have "collects sha c (c\<lparr>root := collect_cut (root c)\<rparr>)"
      by (intro collectsI [OF ok cl] collected_cut [OF cl])
        (simp_all add: no collect_cut_def node_prune_def)
    then show ?thesis using False pre rk by (simp add: Collect_def)
  next
    case m01: True
    have sub: "good sha (coll_fields c) (arrays c) [False] l" "clean l"
      "good sha (coll_fields c) (arrays c) [True] r" "clean r"
      using g by (auto simp: good_def separated_Inner)
    have bits: "take 1 (bits_of p2) = [False]" "take 1 (bits_of p3) = [True]"
      using setBit_bits_of [OF p2] setBit_bits_of [OF p3] l1 l2
      by (auto simp: take_Suc_conv_app_nth sha_size_def)
    obtain l' where l': "collect_node ?sc l p2 0 = Some l'"
      "collected ?sc sha (coll_fields c) (arrays c) [False] l l'"
      using collect_node_collected [OF hash sc sub(1,2), of 0 p2] l2 bits by (auto simp: sha_size_def)
    obtain r' where r': "collect_node ?sc r p3 0 = Some r'"
      "collected ?sc sha (coll_fields c) (arrays c) [True] r r'"
      using collect_node_collected [OF hash sc sub(3,4), of 0 p3] l3 bits by (auto simp: sha_size_def)
    have "collected ?sc sha (coll_fields c) (arrays c) [] (root c) (Inner rc b l' r')"
      unfolding root by (rule collected_Inner [OF hash g]) (use l' r' in auto)
    then have "collects sha c (c\<lparr>root := Inner rc b l' r'\<rparr>)"
      by (intro collectsI [OF ok cl]) auto
    then show ?thesis
      using m01 pre rk l' r' p2 p3 by (auto simp: Collect_def)
  qed
qed

text \<open>With the whole tree in scope nothing is forgotten.\<close>

lemma collect_node_All:
  assumes "\<And>path b. length path = sha_size \<Longrightarrow> scope_match sc path b = Some True"
  shows "tree_ok sha fs st pre n \<Longrightarrow> length pre = Suc d \<Longrightarrow> length path = sha_size \<Longrightarrow>
    collect_node sc n path d = Some n"
proof (induction n arbitrary: pre path d rule: tree_induct)
  case (Leaf c b)
  then show ?case using assms by simp
next
  case (Inner c b l r)
  have "d + 1 < 8 * length path" using Inner.prems by simp
  then obtain p0 where p0: "setBit path (d + 1) False = Some p0" using setBit_Some_iff by blast
  have l0: "length p0 = sha_size" using setBit_length [OF p0] Inner.prems by simp
  have "d + 1 < 8 * length p0" using Inner.prems l0 by simp
  then obtain p1 where p1: "setBit p0 (d + 1) True = Some p1" using setBit_Some_iff by blast
  have l1: "length p1 = sha_size" using setBit_length [OF p1] l0 by simp
  have "(if 0 < d then scope_match sc path (int d - 1) else Some True) = Some True"
    using assms Inner.prems by simp
  then show ?case
    using Inner.prems p0 p1 Inner.IH(1) [of "pre @ [False]" "d + 1" p0]
      Inner.IH(2) [of "pre @ [True]" "d + 1" p1] l0 l1 by simp
qed

section \<open>Writes\<close>

lemma finish_post:
  assumes hash: "hash_ok sha" and ok: "coll_ok sha c"
    and post: "post sha (coll_fields c) (ongoing c) [] R N st st' n m" "\<not> node_leaf n"
  shows "\<exists>c'. finish c (st', n) = Some (None, c') \<and> becomes sha c m c'"
proof -
  let ?c = "c\<lparr>arrays := st', root := n\<rparr>"
  have ok': "coll_ok sha ?c" "kv ?c = m" "\<not> ongoing c \<Longrightarrow> clean n"
    using ok post by (auto simp: coll_ok_def post_def kv_def)
  show ?thesis
  proof (cases "ongoing c")
    case True
    with ok' show ?thesis by (simp add: finish_def becomes_def same_config_def)
  next
    case False
    then obtain c' where "Collect ?c = Some c'" "collects sha ?c c'"
      using Collect_total [OF hash ok'(1)] ok'(3) by auto
    with False ok' show ?thesis
      by (auto simp: finish_def becomes_def collects_def same_config_def)
  qed
qed

lemma coll_ok_root:
  assumes "coll_ok sha c" "known (cell (root c))"
  obtains rc b l r where "root c = Inner rc b l r"
    "kids_ok sha (coll_fields c) (ongoing c) (arrays c) [] rc b l r"
    "kv c = contents (arrays c) l ++ contents (arrays c) r"
    "all_known (root c) \<longleftrightarrow> all_known l \<and> all_known r"
proof -
  obtain rc b l r where root: "root c = Inner rc b l r"
    using assms by (cases "root c") (auto simp: coll_ok_def)
  moreover have "kids_ok sha (coll_fields c) (ongoing c) (arrays c) [] rc b l r"
    by (rule kids_okI) (use assms root in \<open>auto simp: coll_ok_def\<close>)
  ultimately show ?thesis using that assms(2) by (simp add: kv_def)
qed

lemma kids_refs_bound:
  "kids_ok sha fs tx st pre c b l r \<Longrightarrow> q \<in> set (refs l) \<union> set (refs r) \<Longrightarrow> q < length st"
  by (auto simp: kids_ok_def dest: good_refs_bound)

lemma kids_ok_frame:
  assumes "frame {} st st'" "kids_ok sha fs tx st pre c b l r"
  shows "kids_ok sha fs tx st' pre c b l r"
    and "contents st' l = contents st l" "contents st' r = contents st r"
  using assms(2) good_frame [OF assms(1)] by (auto simp: kids_ok_def)

lemma encode_all_ok:
  assumes "fields_ok fs" "encode_all fs gs = Some raw"
  shows "values_ok fs raw"
  using assms(2,1)
proof (induction fs gs arbitrary: raw rule: encode_all.induct)
  case (1 F fs v vs)
  then show ?case
    by (auto simp: go_simps values_ok_def fields_ok_def dest: merkle_field.encode_decodable)
qed (auto simp: values_ok_def)

lemma Add_correct:
  assumes hash: "hash_ok sha" and ok: "coll_ok sha c"
    and k: "k \<noteq> []" "no_collision sha c k" and raw: "encode_all (coll_fields c) values = Some raw"
    and len: "length values = length (coll_fields c)"
  shows "\<exists>e c'. Add sha c k values = Some (e, c') \<and>
    (e = Some ProofNeeded \<and> \<not> all_known (root c) \<and> c' = c \<or>
     e = Some KeyCollision \<and> kv c k \<noteq> None \<and> c' = c \<or>
     e = None \<and> kv c k = None \<and> becomes sha c ((kv c)(k \<mapsto> raw)) c')"
proof (cases "known (cell (root c))")
  case False
  then have "\<not> all_known (root c)" by (cases "root c") auto
  with False show ?thesis using raw len k by (simp add: Add_def alloc_def)
next
  case True
  let ?fs = "coll_fields c" and ?st = "arrays c @ [raw]" and ?rv = "length (arrays c)"
  obtain rc b l r where root: "root c = Inner rc b l r"
    "kids_ok sha ?fs (ongoing c) (arrays c) [] rc b l r"
    "kv c = contents (arrays c) l ++ contents (arrays c) r"
    "all_known (root c) \<longleftrightarrow> all_known l \<and> all_known r"
    using coll_ok_root [OF ok True] .
  have fs: "fields_ok ?fs" using ok by (simp add: coll_ok_def)
  have fr: "frame {} (arrays c) ?st" by simp
  note kids = kids_ok_frame [OF fr root(2)]
  have "add_outcome sha ?fs (ongoing c) [] k ?rv ?st l r
      (add_at sha ?fs (ongoing c) (sha k) k ?rv (length ([] :: bool list)) ?st (Inner rc b l r))"
    using k encode_all_ok [OF fs raw] kids kids_refs_bound [OF root(2)] root(3)
    by (intro add_at_outcome [OF hash fs]) (auto simp: no_collision_def domIff)
  then consider
      (unknown) "add_at sha ?fs (ongoing c) (sha k) k ?rv 0 ?st (root c) = Some (Inl ProofNeeded)"
        "\<not> all_known (root c)"
    | (known) "add_at sha ?fs (ongoing c) (sha k) k ?rv 0 ?st (root c) = Some (Inl KeyCollision)"
        "kv c k \<noteq> None"
    | (new) st' n where
        "add_at sha ?fs (ongoing c) (sha k) k ?rv 0 ?st (root c) = Some (Inr (st', n))"
        "kv c k = None" "\<not> node_leaf n"
        "post sha ?fs (ongoing c) [] (set (refs l) \<union> set (refs r)) {?rv} ?st st' n ((kv c)(k \<mapsto> raw))"
    using kids(2,3) root(1,3,4) unfolding add_outcome_def
    by (metis list.size(3) node_leaf.simps(2) read_alloc_same)
  then show ?thesis
  proof cases
    case new
    obtain c' where "finish c (st', n) = Some (None, c')" "becomes sha c ((kv c)(k \<mapsto> raw)) c'"
      using finish_post [OF hash ok new(4,3)] by blast
    with new(1,2) True raw len k show ?thesis by (simp add: Add_def alloc_def)
  qed (use True raw len k in \<open>simp_all add: Add_def alloc_def\<close>)
qed

text \<open>The values \<open>Set\<close> is given fit the fields, or say \<open>Same\<close>.\<close>

definition encodable :: "field list \<Rightarrow> gval list \<Rightarrow> bool" where
  "encodable fs gs \<longleftrightarrow> list_all2 (\<lambda>F g. g = GSame \<or> Encode F g \<noteq> None) fs gs"

lemma merged_total:
  "encodable fs gs \<Longrightarrow> length vs = length fs \<Longrightarrow> merged fs gs vs \<noteq> None"
proof (induction fs gs vs rule: merged.induct)
  case (1 F fs g gs v vs)
  then show ?case by (auto simp: encodable_def)
qed (auto simp: encodable_def)

lemma contents_values_ok:
  "tree_ok sha fs st pre n \<Longrightarrow> contents st n k = Some vs \<Longrightarrow> values_ok fs vs"
proof (induction n arbitrary: pre rule: tree_induct)
  case (Leaf c b)
  then show ?case by (auto split: if_splits)
next
  case (Inner c b l r)
  from Inner.prems(2) consider "contents st r k = Some vs" | "contents st l k = Some vs" by auto
  then show ?case using Inner.IH Inner.prems(1) by cases auto
qed

lemma kv_values_ok: "coll_ok sha c \<Longrightarrow> kv c k = Some vs \<Longrightarrow> values_ok (coll_fields c) vs"
  using contents_values_ok by (auto simp: coll_ok_def good_def kv_def)

lemma Set_correct:
  assumes hash: "hash_ok sha" and ok: "coll_ok sha c"
    and k: "k \<noteq> []" and gs: "encodable (coll_fields c) values"
  shows "\<exists>e c'. Set sha c k values = Some (e, c') \<and>
    (e = Some ProofNeeded \<and> \<not> all_known (root c) \<and> c' = c \<or>
     e = Some KeyNotFound \<and> kv c k = None \<and> c' = c \<or>
     e = None \<and> (\<exists>vs ws. kv c k = Some vs \<and> merged (coll_fields c) values vs = Some ws \<and>
       becomes sha c ((kv c)(k \<mapsto> ws)) c'))"
proof (cases "known (cell (root c))")
  case False
  have len: "length values = length (coll_fields c)" using gs by (simp add: encodable_def list_all2_lengthD)
  from False have "\<not> all_known (root c)" by (cases "root c") auto
  with False show ?thesis using len by (simp add: Set_def)
next
  case True
  let ?fs = "coll_fields c" and ?st = "arrays c"
  have len: "length values = length ?fs" using gs by (simp add: encodable_def list_all2_lengthD)
  obtain rc b l r where root: "root c = Inner rc b l r"
    "kids_ok sha ?fs (ongoing c) (arrays c) [] rc b l r"
    "kv c = contents (arrays c) l ++ contents (arrays c) r"
    "all_known (root c) \<longleftrightarrow> all_known l \<and> all_known r"
    using coll_ok_root [OF ok True] .
  have fs: "fields_ok ?fs" using ok by (simp add: coll_ok_def)
  have tot: "merged ?fs values vs \<noteq> None" if "kv c k = Some vs" for vs
    using merged_total [OF gs] kv_values_ok [OF ok that] by (simp add: values_ok_def list_all2_lengthD)
  let ?m = "\<lambda>v. Option.bind v (merged ?fs values)"
  have "set_outcome sha ?fs (ongoing c) [] k ?m ?st l r
      (set_at sha ?fs (ongoing c) (sha k) k values (length ([] :: bool list)) ?st (Inner rc b l r))"
    using tot root(3) by (intro set_at_outcome [OF hash fs k len root(2)]) auto
  then consider
      (unknown) "set_at sha ?fs (ongoing c) (sha k) k values 0 ?st (root c) = Some (Inl ProofNeeded)"
        "\<not> all_known (root c)"
    | (missing) "set_at sha ?fs (ongoing c) (sha k) k values 0 ?st (root c) = Some (Inl KeyNotFound)"
        "kv c k = None"
    | (new) st' n where
        "set_at sha ?fs (ongoing c) (sha k) k values 0 ?st (root c) = Some (Inr (st', n))"
        "kv c k \<noteq> None" "\<not> node_leaf n"
        "post sha ?fs (ongoing c) [] (set (refs l) \<union> set (refs r)) {} ?st st' n ((kv c)(k := ?m (kv c k)))"
    using root(1,3,4) unfolding set_outcome_def
    by (metis list.size(3) node_leaf.simps(2))
  then show ?thesis
  proof cases
    case new
    obtain vs ws where ws: "kv c k = Some vs" "merged ?fs values vs = Some ws" using new(2) tot by blast
    obtain c' where "finish c (st', n) = Some (None, c')" "becomes sha c ((kv c)(k \<mapsto> ws)) c'"
      using finish_post [OF hash ok new(4,3)] ws by auto
    with new(1,2) True ws len show ?thesis by (simp add: Set_def)
  qed (use True len in \<open>simp_all add: Set_def\<close>)
qed

lemma Remove_correct:
  assumes hash: "hash_ok sha" and ok: "coll_ok sha c" and k: "k \<noteq> []"
  shows "\<exists>e c'. Remove sha c k = Some (e, c') \<and>
    (e = Some ProofNeeded \<and> \<not> all_known (root c) \<and> c' = c \<or>
     e = Some KeyNotFound \<and> kv c k = None \<and> c' = c \<or>
     e = None \<and> kv c k \<noteq> None \<and> becomes sha c ((kv c)(k := None)) c')"
proof (cases "known (cell (root c))")
  case False
  then have "\<not> all_known (root c)" by (cases "root c") auto
  with False show ?thesis by (simp add: Remove_def)
next
  case True
  let ?fs = "coll_fields c" and ?st = "arrays c"
  obtain rc b l r where root: "root c = Inner rc b l r"
    "kids_ok sha ?fs (ongoing c) (arrays c) [] rc b l r"
    "kv c = contents (arrays c) l ++ contents (arrays c) r"
    "all_known (root c) \<longleftrightarrow> all_known l \<and> all_known r"
    using coll_ok_root [OF ok True] .
  have fs: "fields_ok ?fs" using ok by (simp add: coll_ok_def)
  have "remove_outcome sha ?fs (ongoing c) [] k True ?st l r
      (remove_at sha ?fs (ongoing c) (sha k) k True (length ([] :: bool list)) ?st (Inner rc b l r))"
    by (intro remove_at_outcome [OF hash fs k root(2)]) auto
  then consider
      (unknown) "remove_at sha ?fs (ongoing c) (sha k) k True 0 ?st (root c) = Some (Inl ProofNeeded)"
        "\<not> all_known (root c)"
    | (missing) "remove_at sha ?fs (ongoing c) (sha k) k True 0 ?st (root c) = Some (Inl KeyNotFound)"
        "kv c k = None"
    | (new) st' n where
        "remove_at sha ?fs (ongoing c) (sha k) k True 0 ?st (root c) = Some (Inr (st', n))"
        "kv c k \<noteq> None" "\<not> node_leaf n"
        "post sha ?fs (ongoing c) [] (set (refs l) \<union> set (refs r)) {} ?st st' n ((kv c)(k := None))"
    using root(1,3,4) unfolding remove_outcome_def by (metis list.size(3))
  then show ?thesis
  proof cases
    case new
    obtain c' where "finish c (st', n) = Some (None, c')" "becomes sha c ((kv c)(k := None)) c'"
      using finish_post [OF hash ok new(4,3)] by blast
    with new(1,2) True show ?thesis by (simp add: Remove_def)
  qed (use True in \<open>simp_all add: Remove_def\<close>)
qed

end
