(* ===== verification/Lifecycle.thy ===== *)
theory Lifecycle
  imports CollectionCorrect
begin

text \<open>
  A new collection, a new verifier, a clone, and the end of a transaction. The end of a transaction
  drops the backups (\<open>confirm\<close>), recomputes the labels and values of the nodes marked
  \<open>inconsistent\<close> (\<open>fix\<close>) and collects.
\<close>

section \<open>Creation\<close>

lemma placeholders_decodable: "fields_ok fs \<Longrightarrow> list_all2 decodable fs (map Placeholder fs)"
  by (auto simp: fields_ok_def list_all2_conv_all_nth dest!: nth_mem intro: merkle_field.placeholder_decodable)

lemma New_correct:
  assumes hash: "hash_ok sha" and fs: "fields_ok fs"
  obtains c where "New sha fs = Some c" "coll_ok sha c" "kv c = Map.empty" "all_known (root c)"
    "coll_fields c = fs" "masks (coll_scope c) = []" "scope_all (coll_scope c)"
    "flag_value (autoCollect c)" "\<not> ongoing c"
proof -
  obtain vs where vs: "parent_values fs (map Placeholder fs) (map Placeholder fs) = Some (None, vs)"
    "list_all2 decodable fs vs"
    using parent_values_ok [of fs "map Placeholder fs" "map Placeholder fs"] placeholders_decodable [OF fs] fs
    by (auto simp: fields_ok_def)
  define c where "c = the (New sha fs)"
  note eval = New_def node_branch_def new_node_def setPlaceholder_eq update_def vs alloc_def
    empty_store_def read_def nth_append
  have c: "New sha fs = Some c" by (simp add: c_def eval)
  then have "coll_ok sha c" "kv c = Map.empty" "all_known (root c)"
    "coll_fields c = fs" "masks (coll_scope c) = []" "scope_all (coll_scope c)"
    "flag_value (autoCollect c)" "\<not> ongoing c"
    by (auto simp: eval coll_ok_def fs scope_ok_def scope_All_def empty_scope_def flag_Enable_def kv_def
        good_def separated_def sha_size_def values_ok_def placeholders_decodable [OF fs]
        generateHash_def)
  then show ?thesis using that c by blast
qed

lemma NewVerifier_correct:
  assumes "hash_ok sha" "fields_ok fs"
  obtains c v where "New sha fs = Some c" "NewVerifier sha fs = Some v" "coll_ok sha v"
    "tree_label v = tree_label c" "kv v = Map.empty" "\<not> known (cell (root v))"
    "coll_fields v = fs" "coll_scope v = scope_None empty_scope" "flag_value (autoCollect v)" "\<not> ongoing v"
proof -
  obtain c where "New sha fs = Some c" "coll_ok sha c" using New_correct [OF assms] .
  then show ?thesis
    by (intro that [of c "\<lparr>root = set_cell (\<lambda>x. x\<lparr>known := False, label := label (cell (root c))\<rparr>) new_node,
             coll_fields = fs, coll_scope = scope_None empty_scope,
             autoCollect = flag_Enable \<lparr>flag_value = False\<rparr>,
             ongoing = False, tx_id = 0, arrays = empty_store\<rparr>"])
      (auto simp: NewVerifier_def coll_ok_def assms scope_ok_def scope_None_def empty_scope_def
        flag_Enable_def kv_def good_def separated_def new_node_def tree_label_def)
qed

section \<open>Clone\<close>

text \<open>The clone has its own arrays: it owns every array allocated while it was built.\<close>

lemma clone_node_good:
  assumes "clone_node src dst n = (dst', n')" "good sha fs src pre n" "clean n"
  shows "good sha fs dst' pre n' \<and> clean n' \<and> frame {} dst dst' \<and>
    set (refs n') \<subseteq> {length dst..<length dst'} \<and> contents dst' n' = contents src n \<and>
    label (cell n') = label (cell n) \<and> known (cell n') = known (cell n) \<and> node_leaf n' = node_leaf n \<and>
    key (cell n') = key (cell n) \<and> all_known n' = all_known n \<and>
    vals (cell n') < length dst' \<and> read dst' (vals (cell n')) = read src (vals (cell n))"
  using assms
proof (induction n arbitrary: dst dst' n' pre rule: tree_induct)
  case (Leaf c b)
  then show ?case by (auto simp: alloc_def good_def separated_def generateHash_def)
next
  case (Inner c b l r)
  obtain d2 l' where l': "clone_node src (dst @ [read src (vals c)]) l = (d2, l')" by fastforce
  obtain d3 r' where r': "clone_node src d2 r = (d3, r')" by fastforce
  have g: "good sha fs src (pre @ [False]) l" "good sha fs src (pre @ [True]) r" "clean l" "clean r"
    using Inner.prems by (auto simp: good_def separated_Inner)
  note L = Inner.IH(1) [OF l' g(1,3)] and R = Inner.IH(2) [OF r' g(2,4)]
  have eq: "dst' = d3" "n' = Inner (c\<lparr>inconsistent := False, vals := length dst\<rparr>) None l' r'"
    using Inner.prems(1) l' r' by (simp_all add: alloc_def)
  have len: "length dst < length d2" "length d2 \<le> length d3"
    using L R by (auto simp: frame_def)
  have Lf: "good sha fs d3 (pre @ [False]) l'" "contents d3 l' = contents d2 l'"
    using good_frame [of "{}" d2 d3 sha fs "pre @ [False]" l'] L R by auto
  have rdl: "read d3 (vals (cell l')) = read src (vals (cell l))"
    using L R frame_read [of "{}" d2 d3 "vals (cell l')"] by simp
  have rd: "read d3 (length dst) = read src (vals c)"
    using L R len frame_read [of "{}" d2 d3 "length dst"]
      frame_read [of "{}" "dst @ [read src (vals c)]" d2 "length dst"] by simp
  have fr: "frame {} dst d3"
    using L R frame_trans [of "{}" dst "dst @ [read src (vals c)]" "{}" d2]
      frame_trans [of "{}" dst d2 "{}" d3] by simp
  have hash: "generateHash sha d3 n' = generateHash sha src (Inner c b l r)"
    using L R rd by (simp add: generateHash_def eq)
  have kid_refs: "set (refs l') \<subseteq> {Suc (length dst)..<length d2}" "set (refs r') \<subseteq> {length d2..<length d3}"
    using L R by simp_all
  have kids: "tree_ok sha fs d3 (pre @ [False]) l'" "tree_ok sha fs d3 (pre @ [True]) r'"
    using Lf R by (simp_all only: good_def)
  have rdr: "read d3 (vals (cell r')) = read src (vals (cell r))" using R by blast
  have flags: "known (cell l') = known (cell l)" "known (cell r') = known (cell r)" "clean l'" "clean r'"
    using L R by blast+
  have "tree_ok sha fs d3 pre n'"
    using Inner.prems(2,3) kids rd rdl rdr hash flags by (simp add: good_def eq)
  moreover have "separated d3 n'"
  proof -
    have "separated d3 l'" "separated d3 r'" using Lf R by (simp_all only: good_def)
    moreover note kid_refs
    moreover from calculation(3,4) have "set (refs l') \<inter> set (refs r') = {}"
      "length dst \<notin> set (refs l')" "length dst \<notin> set (refs r')" using len by fastforce+
    ultimately show ?thesis using len unfolding eq separated_Inner by simp
  qed
  moreover have "set (refs n') \<subseteq> {length dst..<length d3}"
    using kid_refs len unfolding eq by (simp add: subset_iff) (meson Suc_leD le_trans less_imp_le_nat order_less_le_trans)
  moreover have "contents d3 n' = contents src (Inner c b l r)"
    using L R Lf by (simp add: eq)
  ultimately show ?case
    unfolding eq(1) using L R rd fr len Inner.prems(3)
    by (simp only: good_def) (simp add: eq)
qed

lemma Clone_correct:
  assumes "coll_ok sha c" "\<not> ongoing c"
  obtains c' where "Clone c = Some c'" "coll_ok sha c'" "kv c' = kv c" "tree_label c' = tree_label c"
    "same_config c c'" "\<not> ongoing c'" "all_known (root c') = all_known (root c)"
proof -
  obtain st n where cl: "clone_node (arrays c) empty_store (root c) = (st, n)" by fastforce
  have "good sha (coll_fields c) (arrays c) [] (root c)" "clean (root c)"
    using assms by (auto simp: coll_ok_def)
  note post = clone_node_good [OF cl this]
  define c' where "c' = \<lparr>root = n, coll_fields = coll_fields c, coll_scope = scope_clone (coll_scope c),
    autoCollect = autoCollect c, ongoing = False, tx_id = 0, arrays = st\<rparr>"
  have "scope_clone (coll_scope c) = coll_scope c" by (simp add: scope_clone_def)
  then have "coll_ok sha c' \<and> kv c' = kv c \<and> tree_label c' = tree_label c \<and> same_config c c' \<and>
      \<not> ongoing c' \<and> all_known (root c') = all_known (root c)"
    using assms post by (simp add: c'_def coll_ok_def kv_def tree_label_def same_config_def)
  then show ?thesis
    using assms(2) cl by (intro that [of c']) (simp_all add: Clone_def c'_def)
qed

section \<open>The end of a transaction\<close>

fun no_backup :: "node \<Rightarrow> bool" where
  "no_backup (Leaf c b) \<longleftrightarrow> b = None"
| "no_backup (Inner c b l r) \<longleftrightarrow> b = None \<and> no_backup l \<and> no_backup r"

lemma clean_no_backup: "clean n \<Longrightarrow> no_backup n"
  by (induction n rule: tree_induct) auto

lemma cell_confirm [simp]: "cell (confirm_node n) = cell n"
  by (cases n) auto

lemma leaf_confirm [simp]: "node_leaf (confirm_node n) = node_leaf n"
  by (cases n) auto

lemma refs_confirm [simp]: "refs (confirm_node n) = refs n"
  by (induction n rule: tree_induct) auto

lemma contents_confirm [simp]: "contents st (confirm_node n) = contents st n"
  by (induction n rule: tree_induct) auto

lemma known_confirm [simp]: "all_known (confirm_node n) = all_known n"
  by (induction n rule: tree_induct) auto

lemma confirm_ok:
  "tree_ok sha fs st pre n \<Longrightarrow> tree_ok sha fs st pre (confirm_node n) \<and> no_backup (confirm_node n)"
proof (induction n arbitrary: pre rule: tree_induct)
  case (Leaf c b)
  then show ?case by (auto simp: generateHash_def)
next
  case (Inner c b l r)
  show ?case
  proof (cases "inconsistent c")
    case True
    with Inner.prems Inner.IH(1) [of "pre @ [False]"] Inner.IH(2) [of "pre @ [True]"]
    show ?thesis by simp
  next
    case False
    with Inner.prems have "b = None" "clean l" "clean r" by auto
    with Inner.prems False show ?thesis by (simp add: clean_no_backup)
  qed
qed

lemma update_inconsistent:
  "update sha fs st (Inner (c\<lparr>inconsistent := x\<rparr>) b l r) =
     map_option (\<lambda>(e, st', n). (e, st', set_cell (\<lambda>c. c\<lparr>inconsistent := x\<rparr>) n))
       (update sha fs st (Inner c b l r))"
proof (cases "parent_values fs (read st (vals (cell l))) (read st (vals (cell r)))")
  case (Some p)
  then show ?thesis
    by (cases p) (auto simp: update_def alloc_def generateHash_def Let_def split: option.splits)
qed (simp add: update_def)

lemma fix_node_good:
  assumes fs: "fields_ok fs"
  shows "good sha fs st pre n \<Longrightarrow> no_backup n \<Longrightarrow>
    \<exists>st' n'. fix_node sha fs st n = Some (st', n') \<and> good sha fs st' pre n' \<and> clean n' \<and>
      frame {} st st' \<and> set (refs n') \<subseteq> set (refs n) \<union> {length st..<length st'} \<and>
      contents st' n' = contents st n \<and> known (cell n') = known (cell n) \<and> node_leaf n' = node_leaf n \<and>
      all_known n' = all_known n"
proof (induction n arbitrary: st pre rule: tree_induct)
  case (Leaf c b)
  then show ?case
    by (cases "inconsistent c")
      (auto simp: update_def good_def separated_def generateHash_def)
next
  case (Inner c b l r)
  show ?case
  proof (cases "inconsistent c")
    case False
    then show ?thesis using Inner.prems by (auto simp: good_def)
  next
    case True
    have g: "good sha fs st (pre @ [False]) l" "good sha fs st (pre @ [True]) r"
      "no_backup l" "no_backup r" "b = None" "known (cell l)" "known (cell r)"
      "known c" "key c = []" "length pre < 8 * sha_size" "set (refs l) \<inter> set (refs r) = {}"
      using Inner.prems True by (auto simp: good_def separated_Inner)
    obtain st1 l' where l': "fix_node sha fs st l = Some (st1, l')"
      "good sha fs st1 (pre @ [False]) l'" "clean l'" "frame {} st st1"
      "set (refs l') \<subseteq> set (refs l) \<union> {length st..<length st1}"
      "contents st1 l' = contents st l" "known (cell l')" "all_known l' = all_known l"
      using Inner.IH(1) [OF g(1,3)] g(6) by auto
    have r1: "good sha fs st1 (pre @ [True]) r" "contents st1 r = contents st r"
      using good_frame [OF l'(4) g(2)] by auto
    obtain st2 r' where r': "fix_node sha fs st1 r = Some (st2, r')"
      "good sha fs st2 (pre @ [True]) r'" "clean r'" "frame {} st1 st2"
      "set (refs r') \<subseteq> set (refs r) \<union> {length st1..<length st2}"
      "contents st2 r' = contents st1 r" "known (cell r')" "all_known r' = all_known r"
      using Inner.IH(2) [OF r1(1) g(4)] g(7) by auto
    have l2: "good sha fs st2 (pre @ [False]) l'" "contents st2 l' = contents st1 l'"
      using good_frame [OF r'(4) l'(2)] by auto
    have len: "length st \<le> length st1" "length st1 \<le> length st2"
      using l'(4) r'(4) by (auto simp: frame_def)
    have disj: "set (refs l') \<inter> set (refs r') = {}"
      using l'(5) r'(5) g(11) good_refs_bound [OF l'(2)] good_refs_bound [OF r1(1)]
        good_refs_bound [OF g(2)] by fastforce
    obtain st3 c' where cl: "climb sha fs False st2 (Inner (c\<lparr>inconsistent := False\<rparr>) None l' r')
        = Some (st3, Inner c' None l' r')"
      "good sha fs st3 pre (Inner c' None l' r')" "frame {} st2 st3" "known c'"
      "clean (Inner c' None l' r')"
      "set (refs (Inner c' None l' r')) \<subseteq> set (refs l') \<union> set (refs r') \<union> {length st2..<length st3}"
      "contents st3 (Inner c' None l' r') = contents st2 l' ++ contents st2 r'"
      using climb_node [OF fs l2(1) l'(7) r'(2,7) disj, of "c\<lparr>inconsistent := False\<rparr>" False None]
        g l'(3) r'(3) by auto
    have fix': "fix_node sha fs st (Inner c b l r) = Some (st3, Inner c' None l' r')"
      using cl(1) True l'(1,7) r'(1,7) g(5,8) update_inconsistent [where x = False]
      by (auto simp: climb_def go_simps)
    have refs': "set (refs (Inner c' None l' r')) \<subseteq> set (refs (Inner c b l r)) \<union> {length st..<length st3}"
    proof -
      have "set (refs l') \<union> set (refs r') \<union> {length st2..<length st3}
          \<subseteq> set (refs l) \<union> set (refs r) \<union> {length st..<length st3}"
        using l'(5) r'(5) len frame_length [OF cl(3)] by fastforce
      then have "set (refs (Inner c' None l' r')) \<subseteq> set (refs l) \<union> set (refs r) \<union> {length st..<length st3}"
        using cl(6) by (rule order_trans [rotated])
      with True show ?thesis by simp
    qed
    show ?thesis
      using fix' cl refs' frame_trans [OF frame_trans [OF l'(4) r'(4)] cl(3)] l'(6,8) r'(6,8) l2(2) r1(2) g(8)
      by (simp del: refs.simps fix_node.simps clean.simps)
  qed
qed

lemma Begin_correct:
  assumes "coll_ok sha c" "\<not> ongoing c"
  obtains c' where "Begin c = Some c'" "coll_ok sha c'" "kv c' = kv c" "tree_label c' = tree_label c"
    "same_config c c'" "ongoing c'" "tx_id c' = tx_id c"
  using assms by (intro that [of "c\<lparr>ongoing := True\<rparr>"])
    (auto simp: Begin_def coll_ok_def kv_def tree_label_def same_config_def)

lemma End_correct:
  assumes hash: "hash_ok sha" and ok: "coll_ok sha c" and tx: "ongoing c"
  obtains c' where "End sha c = Some c'" "coll_ok sha c'" "same_config c c'" "\<not> ongoing c'"
    "tx_id c' = tx_id c + 1" "kv c' \<subseteq>\<^sub>m kv c"
    "\<And>k. flag_value (autoCollect c) \<longrightarrow> in_scope (coll_scope c) sha k \<Longrightarrow> kv c' k = kv c k"
proof -
  let ?n = "confirm_node (root c)"
  have g: "good sha (coll_fields c) (arrays c) [] ?n" "no_backup ?n"
    using ok confirm_ok by (auto simp: coll_ok_def good_def separated_def)
  have fs: "fields_ok (coll_fields c)" using ok by (simp add: coll_ok_def)
  obtain st n where fx: "fix_node sha (coll_fields c) (arrays c) ?n = Some (st, n)"
    "good sha (coll_fields c) st [] n" "clean n" "contents st n = contents (arrays c) (root c)"
    "known (cell n) = known (cell (root c))" "node_leaf n = node_leaf (root c)"
    using fix_node_good [OF fs g] by auto
  define c0 where "c0 = c\<lparr>root := n, arrays := st\<rparr>"
  have c0: "coll_ok sha c0" "clean (root c0)" "kv c0 = kv c" "same_config c c0" "tx_id c0 = tx_id c"
    using fx ok by (auto simp: c0_def coll_ok_def kv_def same_config_def)
  note result = that
  have fin: thesis if fin_cases: "c1 = c0 \<and> \<not> flag_value (autoCollect c) \<or>
      Collect c0 = Some c1 \<and> collects sha c0 c1 \<and> flag_value (autoCollect c)" for c1
  proof -
    have c1: "coll_ok sha c1" "clean (root c1)" "same_config c c1" "tx_id c1 = tx_id c" "kv c1 \<subseteq>\<^sub>m kv c"
      "\<And>k. flag_value (autoCollect c) \<longrightarrow> in_scope (coll_scope c) sha k \<Longrightarrow> kv c1 k = kv c k"
      using fin_cases c0 by (auto simp: collects_def same_config_def)
    have "End sha c = Some (c1\<lparr>tx_id := tx_id c1 + 1, ongoing := False\<rparr>)"
      using fin_cases tx fx(1) c0(4) unfolding End_def c0_def by (auto simp: same_config_def Let_def)
    then show thesis
      by (rule result) (use c1 in \<open>auto simp: coll_ok_def same_config_def kv_def\<close>)
  qed
  show thesis
    using Collect_total [OF hash c0(1,2)] fin by blast
qed

end
