(* ===== verification/Shape.thy ===== *)
theory Shape
  imports Lifecycle
begin

text \<open>
  The shape of the tree. \<open>Add\<close>, \<open>Set\<close> and \<open>Remove\<close> keep the tree shrunk: below the root no inner
  node has a placeholder and another leaf as its children, so the shape is determined by the keys.
  They also keep a fully known tree fully known.
\<close>

lemma climb_shape:
  "climb sha fs tx st (Inner c b l r) = Some (st', n) \<Longrightarrow> known c \<Longrightarrow> \<exists>c'. n = Inner c' b l r \<and> known c'"
  by (auto simp: climb_def mark_inconsistent_def update_def alloc_def Let_def go_simps split: if_splits option.splits)

lemma backup_if_shape:
  assumes "backup_if tx st n = (st', n')"
  shows "cell n' = cell n" "node_leaf n' = node_leaf n"
    "n = Inner c b l r \<Longrightarrow> \<exists>b'. n' = Inner c b' l r" "n = Leaf c b \<Longrightarrow> \<exists>b'. n' = Leaf c b'"
  using assms by (cases n; auto simp: backup_if_def node_backup_def alloc_def split: if_splits option.splits)+

lemma leaf_shrunk [simp]: "node_leaf n \<Longrightarrow> shrunk n"
  by (cases n) auto

lemma all_known_cell: "all_known n \<Longrightarrow> known (cell n)"
  by (cases n) auto

lemma put_leaf_shape:
  assumes "put_leaf sha fs tx k rv st n = Some (st', n')" "node_leaf n" "known (cell n)"
  shows "node_leaf n' \<and> key (cell n') = k \<and> known (cell n')"
proof -
  obtain c b where n: "n = Leaf c b" using assms(2) by (cases n) auto
  obtain st1 n1 where bk: "backup_if tx st n = (st1, n1)" by fastforce
  obtain b' where "n1 = Leaf c b'" using backup_if_shape(4) [OF bk n] by blast
  with assms n bk show ?thesis by (auto simp: put_leaf_def update_def)
qed

lemma overwrite_leaf_shape:
  assumes "overwrite_leaf sha fs tx gs st n = Some (st', n')" "node_leaf n" "known (cell n)"
  shows "node_leaf n' \<and> key (cell n') = key (cell n) \<and> known (cell n')"
proof -
  obtain c b where n: "n = Leaf c b" using assms(2) by (cases n) auto
  obtain st1 n1 where bk: "backup_if tx st n = (st1, n1)" by fastforce
  obtain b' where "n1 = Leaf c b'" using backup_if_shape(4) [OF bk n] by blast
  with assms n bk show ?thesis by (auto simp: overwrite_leaf_def update_def Let_def go_simps)
qed

lemma clear_leaf_shape:
  assumes "clear_leaf sha fs tx st n = Some (Inr (st', n'))" "node_leaf n"
  shows "node_leaf n' \<and> node_placeholder n' \<and> known (cell n')"
  using assms by (auto simp: clear_leaf_def setPlaceholder_eq node_placeholder_def split: prod.splits)

lemma split_leaf_shape:
  assumes "split_leaf sha fs tx d st n = Some (Inr (st', n'))" "key (cell n) \<noteq> []" "known (cell n)"
  obtains c b l r where "n' = Inner c b l r" "node_leaf l" "node_leaf r" "known (cell l)" "known (cell r)"
    "known c" "\<not> (node_placeholder l \<and> node_placeholder r)"
proof -
  obtain st1 n1 where bk: "backup_if tx st n = (st1, n1)" by fastforce
  show ?thesis
    using assms backup_if_shape(1) [OF bk] bk that
    by (auto simp: split_leaf_def setPlaceholder_eq node_branch_def new_node_def node_placeholder_def
        Let_def go_simps split: if_splits)
qed

text \<open>A walk that succeeds: the child was replaced, then the cursor.\<close>

lemma walk_SomeD:
  assumes "Option.bind res (\<lambda>res. case res of Inl e \<Rightarrow> Some (Inl e)
     | Inr (st', child) \<Rightarrow> do { s \<leftarrow> f st' child; Some (Inr s) }) = Some (Inr (st'', n))"
  obtains st1 ch where "f st1 ch = Some (st'', n)" "res = Some (Inr (st1, ch))"
proof -
  obtain x where x: "res = Some x" using assms by (cases res) auto
  with assms that show ?thesis by (cases x) (auto simp: go_simps)
qed

lemma add_at_shape:
  assumes k: "k \<noteq> []"
  shows "add_at sha fs tx path k rv d st (Inner c b l r) = Some (Inr (st', n)) \<Longrightarrow> known c \<Longrightarrow>
    shrunk l \<Longrightarrow> shrunk r \<Longrightarrow>
    \<exists>c' l' r'. n = Inner c' b l' r' \<and> shrunk l' \<and> shrunk r' \<and>
      (\<not> (node_placeholder l \<and> node_placeholder r) \<longrightarrow> \<not> collapsible l' r') \<and>
      (all_known l \<and> all_known r \<longrightarrow> all_known n)"
proof (induction "8 * length path - d" arbitrary: d st c b l r st' n rule: less_induct)
  case less
  have kn: "known (cell l)" "known (cell r)"
    using less.prems(1) by (auto simp: add_at.simps(2) split: if_splits)
  obtain step where step: "bit_at path d = Some step"
    using less.prems(1) kn by (auto simp: add_at.simps(2) split: option.splits)
  then have d: "8 * length path - (d + 1) < 8 * length path - d" by auto
  define cu where "cu = (if step then r else l)"
  define sib where "sib = (if step then l else r)"
  have cu: "known (cell cu)" "shrunk cu" "all_known l \<and> all_known r \<Longrightarrow> all_known cu"
    using kn less.prems by (auto simp: cu_def)
  obtain st1 ch where ch: "climb sha fs tx st1 (rebuild c b l r step ch) = Some (st', n)"
    and cases: "(if node_placeholder cu then do { s \<leftarrow> put_leaf sha fs tx k rv st cu; Some (Inr s) }
        else if node_leaf cu
        then (if bytes_equal k (key (cell cu)) then Some (Inl KeyCollision)
              else (case split_leaf sha fs tx (d + 1) st cu of
                  None \<Rightarrow> None
                | Some (Inl e) \<Rightarrow> Some (Inl e)
                | Some (Inr (st1, cursor1)) \<Rightarrow> add_at sha fs tx path k rv (d + 1) st1 cursor1))
        else add_at sha fs tx path k rv (d + 1) st cu) = Some (Inr (st1, ch))"
    using less.prems(1) kn
    by (simp add: add_at.simps(2) step cu_def [symmetric] Let_def del: bytes_equal_iff) (erule walk_SomeD)
  have *: "shrunk ch \<and> \<not> node_placeholder ch \<and> (node_leaf ch \<longrightarrow> node_placeholder cu) \<and>
      (all_known cu \<longrightarrow> all_known ch)"
  proof -
    consider (ph) "node_placeholder cu" | (leaf) "\<not> node_placeholder cu" "node_leaf cu" | (inner) "\<not> node_leaf cu"
      by blast
    then show ?thesis
    proof cases
      case ph
      then have "put_leaf sha fs tx k rv st cu = Some (st1, ch)" using cases by (auto simp: go_simps)
      with ph cu k put_leaf_shape [of sha fs tx k rv st cu st1 ch] show ?thesis
        by (cases ch) (auto simp: node_placeholder_def)
    next
      case leaf
      then obtain st2 n2 where sp: "split_leaf sha fs tx (d + 1) st cu = Some (Inr (st2, n2))"
        "add_at sha fs tx path k rv (d + 1) st2 n2 = Some (Inr (st1, ch))"
        using cases by (auto split: if_splits option.splits sum.splits)
      have key: "key (cell cu) \<noteq> []" using leaf by (auto simp: node_placeholder_def)
      obtain c2 b2 l2 r2 where n2: "n2 = Inner c2 b2 l2 r2" "node_leaf l2" "node_leaf r2" "known (cell l2)"
        "known (cell r2)" "known c2" "\<not> (node_placeholder l2 \<and> node_placeholder r2)"
        using split_leaf_shape [OF sp(1) key cu(1)] .
      have "all_known l2" "all_known r2" using n2 by (cases l2; cases r2; simp)+
      with less.hyps [of "d + 1" st2 c2 b2 l2 r2 st1 ch] d sp(2) n2
      show ?thesis by (auto simp: node_placeholder_def)
    next
      case inner
      then obtain c2 b2 l2 r2 where cu2: "cu = Inner c2 b2 l2 r2" by (cases cu) auto
      have rec: "add_at sha fs tx path k rv (d + 1) st (Inner c2 b2 l2 r2) = Some (Inr (st1, ch))"
        using cases inner cu2 by (auto simp: node_placeholder_def)
      then have "known (cell l2)" "known (cell r2)" by (auto simp: add_at.simps(2) split: if_splits)
      then have "\<not> collapsible l2 r2" using cu(2) cu2 by simp
      then have "\<not> (node_placeholder l2 \<and> node_placeholder r2)"
        by (auto simp: collapsible_def node_placeholder_def)
      with less.hyps [of "d + 1" st c2 b2 l2 r2 st1 ch] d rec cu cu2
      show ?thesis by (auto simp: node_placeholder_def)
    qed
  qed
  obtain c' where n: "n = rebuild c' b l r step ch" "known c'"
    using climb_shape [of sha fs tx st1 c b "kid_left step l ch" "kid_right step r ch" st' n] ch less.prems(2)
    by (auto simp: rebuild_kids)
  have "collapsible (kid_left step l ch) (kid_right step r ch) \<Longrightarrow>
      node_placeholder l \<and> node_placeholder r"
    using * by (auto simp: collapsible_def kid_left_def kid_right_def cu_def split: if_splits)
  then show ?case
    using n * less.prems(3,4) kn
    by (auto simp: rebuild_kids kid_left_def kid_right_def cu_def)
qed

lemma set_at_shape:
  "set_at sha fs tx path k gs d st (Inner c b l r) = Some (Inr (st', n)) \<Longrightarrow> known c \<Longrightarrow>
    shrunk l \<Longrightarrow> shrunk r \<Longrightarrow>
    \<exists>c' l' r'. n = Inner c' b l' r' \<and> shrunk l' \<and> shrunk r' \<and> known (cell l) \<and> known (cell r) \<and>
      collapsible l' r' = collapsible l r \<and> (all_known l \<and> all_known r \<longrightarrow> all_known n)"
proof (induction "8 * length path - d" arbitrary: d st c b l r st' n rule: less_induct)
  case less
  have kn: "known (cell l)" "known (cell r)"
    using less.prems(1) by (auto simp: set_at.simps(2) split: if_splits)
  obtain step where step: "bit_at path d = Some step"
    using less.prems(1) kn by (auto simp: set_at.simps(2) split: option.splits)
  then have d: "8 * length path - (d + 1) < 8 * length path - d" by auto
  define cu where "cu = (if step then r else l)"
  have cu: "known (cell cu)" "shrunk cu" using kn less.prems by (auto simp: cu_def)
  obtain st1 ch where ch: "climb sha fs tx st1 (rebuild c b l r step ch) = Some (st', n)"
    and cases: "(if node_leaf cu
        then (if \<not> bytes_equal (key (cell cu)) k then Some (Inl KeyNotFound)
              else do { s \<leftarrow> overwrite_leaf sha fs tx gs st cu; Some (Inr s) })
        else set_at sha fs tx path k gs (d + 1) st cu) = Some (Inr (st1, ch))"
    using less.prems(1) kn
    by (simp add: set_at_Inner step cu_def [symmetric] Let_def del: bytes_equal_iff) (erule walk_SomeD)
  have *: "shrunk ch \<and> node_leaf ch = node_leaf cu \<and> node_placeholder ch = node_placeholder cu \<and>
      (all_known cu \<longrightarrow> all_known ch)"
  proof (cases "node_leaf cu")
    case True
    then have "overwrite_leaf sha fs tx gs st cu = Some (st1, ch)"
      using cases by (auto simp: go_simps split: if_splits)
    with True cu overwrite_leaf_shape [of sha fs tx gs st cu st1 ch] show ?thesis
      by (cases ch) (auto simp: node_placeholder_def)
  next
    case False
    then obtain c2 b2 l2 r2 where cu2: "cu = Inner c2 b2 l2 r2" by (cases cu) auto
    with less.hyps [of "d + 1" st c2 b2 l2 r2 st1 ch] d cases cu
    show ?thesis by (auto simp: node_placeholder_def)
  qed
  obtain c' where n: "n = rebuild c' b l r step ch" "known c'"
    using climb_shape [of sha fs tx st1 c b "kid_left step l ch" "kid_right step r ch" st' n] ch less.prems(2)
    by (auto simp: rebuild_kids)
  have "collapsible (kid_left step l ch) (kid_right step r ch) = collapsible l r"
    using * by (auto simp: collapsible_def kid_left_def kid_right_def cu_def)
  then show ?case
    using n * less.prems(3,4) kn
    by (auto simp: rebuild_kids kid_left_def kid_right_def cu_def)
qed

lemma remove_at_shape:
  "remove_at sha fs tx path k is_root d st (Inner c b l r) = Some (Inr (st', n)) \<Longrightarrow> known c \<Longrightarrow>
    shrunk l \<Longrightarrow> shrunk r \<Longrightarrow>
    shrunk_below n \<and> (\<not> is_root \<longrightarrow> shrunk n) \<and> (all_known l \<and> all_known r \<longrightarrow> all_known n)"
proof (induction "8 * length path - d" arbitrary: d is_root st c b l r st' n rule: less_induct)
  case less
  have kn: "known (cell l)" "known (cell r)"
    using less.prems(1) by (auto simp: remove_at.simps(2) split: if_splits)
  obtain step where step: "bit_at path d = Some step"
    using less.prems(1) kn by (auto simp: remove_at.simps(2) split: option.splits)
  then have d: "8 * length path - (d + 1) < 8 * length path - d" by auto
  define cu where "cu = (if step then r else l)"
  have cu: "known (cell cu)" "shrunk cu" using kn less.prems by (auto simp: cu_def)
  obtain st1 ch where ch: "climb_remove sha fs tx is_root st1 (rebuild c b l r step ch) = Some (st', n)"
    and cases: "(if node_leaf cu
        then (if \<not> bytes_equal (key (cell cu)) k then Some (Inl KeyNotFound)
              else clear_leaf sha fs tx st cu)
        else remove_at sha fs tx path k False (d + 1) st cu) = Some (Inr (st1, ch))"
    using less.prems(1) kn
    by (simp add: remove_at_Inner step cu_def [symmetric] Let_def del: bytes_equal_iff) (erule walk_SomeD)
  have *: "shrunk ch \<and> (all_known cu \<longrightarrow> all_known ch)"
  proof (cases "node_leaf cu")
    case True
    then have "clear_leaf sha fs tx st cu = Some (Inr (st1, ch))"
      using cases by (auto split: if_splits)
    with True clear_leaf_shape [of sha fs tx st cu st1 ch] show ?thesis by (cases ch) auto
  next
    case False
    then obtain c2 b2 l2 r2 where cu2: "cu = Inner c2 b2 l2 r2" by (cases cu) auto
    with less.hyps [of "d + 1" False st c2 b2 l2 r2 st1 ch] d cases cu
    show ?thesis by auto
  qed
  define L where "L = kid_left step l ch"
  define R where "R = kid_right step r ch"
  have reb: "rebuild c b l r step ch = Inner c b L R" by (simp add: rebuild_kids L_def R_def)
  have LR: "shrunk L" "shrunk R" "all_known l \<and> all_known r \<longrightarrow> all_known L \<and> all_known R"
    using * less.prems(3,4) by (auto simp: L_def R_def kid_left_def kid_right_def cu_def)
  show ?case
  proof (cases "\<not> is_root \<and> collapsible L R")
    case True
    obtain st2 n1 where bk: "backup_if tx st1 (Inner c b L R) = (st2, n1)" by fastforce
    obtain b' where "n1 = Inner c b' L R" using backup_if_shape(3) [OF bk refl] by blast
    then show ?thesis
      using ch True bk less.prems(2) by (auto simp: climb_remove_def reb collapse_def node_prune_def Let_def)
  next
    case False
    then have "climb sha fs tx st1 (Inner c b L R) = Some (st', n)"
      using ch by (auto simp: climb_remove_def reb)
    from climb_shape [OF this less.prems(2)] LR False show ?thesis by auto
  qed
qed

end
