(* ===== verification/Canonical.thy ===== *)
theory Canonical
  imports Shape
begin

text \<open>
  Two facts about the Merkle root of a collection. It is a function of the key/value map: fully
  known, shrunk trees with the same contents have the same labels, whatever the history of
  operations that built them. And it binds the map: if the hash function does not collide on the
  nodes of the two trees, equal roots mean equal contents.
\<close>

section \<open>Counting keys\<close>

definition keys :: "store \<Rightarrow> node \<Rightarrow> nat" where
  "keys st n = card (dom (contents st n))"

lemma finite_contents [simp]: "finite (dom (contents st n))"
  by (induction n rule: tree_induct) auto

lemma keys_placeholder: "node_placeholder n \<Longrightarrow> keys st n = 0"
  by (cases n) (auto simp: node_placeholder_def keys_def)

lemma keys_leaf: "node_leaf n \<Longrightarrow> known (cell n) \<Longrightarrow> \<not> node_placeholder n \<Longrightarrow> keys st n = 1"
  by (cases n) (auto simp: node_placeholder_def keys_def)

lemma keys_Inner:
  assumes "hash_ok sha" "tree_ok sha fs st pre (Inner c b l r)"
  shows "keys st (Inner c b l r) = keys st l + keys st r"
proof -
  have "dom (contents st l) \<inter> dom (contents st r) = {}"
    using contents_side [OF assms] by (auto simp: domIff) (metis option.discI)
  then show ?thesis by (simp add: keys_def card_Un_disjoint Un_commute Int_commute)
qed

lemma keys_shrunk_Inner:
  assumes "hash_ok sha"
  shows "tree_ok sha fs st pre n \<Longrightarrow> all_known n \<Longrightarrow> shrunk n \<Longrightarrow> \<not> node_leaf n \<Longrightarrow> 2 \<le> keys st n"
proof (induction n arbitrary: pre rule: tree_induct)
  case (Inner c b l r)
  have kn: "known (cell l)" "known (cell r)" using Inner.prems(2) by (auto dest: all_known_cell)
  have "\<not> collapsible l r" using Inner.prems(3) kn by simp
  moreover have "\<not> node_leaf l \<Longrightarrow> 2 \<le> keys st l" "\<not> node_leaf r \<Longrightarrow> 2 \<le> keys st r"
    using Inner by auto
  ultimately show ?case
    unfolding keys_Inner [OF assms Inner.prems(1)]
    using keys_leaf [of l st] keys_leaf [of r st] kn
    by (cases "node_leaf l"; cases "node_leaf r") (auto simp: collapsible_def node_placeholder_def)
qed simp

section \<open>The label is a function of the contents\<close>

lemma same_contents_same_label:
  assumes hash: "hash_ok sha"
  shows "good sha fs st pre n \<Longrightarrow> good sha fs st' pre n' \<Longrightarrow> clean n \<Longrightarrow> clean n' \<Longrightarrow>
    all_known n \<Longrightarrow> all_known n' \<Longrightarrow> shrunk_below n \<Longrightarrow> shrunk_below n' \<Longrightarrow>
    (shrunk n \<and> shrunk n') \<or> (\<not> node_leaf n \<and> \<not> node_leaf n') \<Longrightarrow>
    contents st n = contents st' n' \<Longrightarrow>
    label (cell n) = label (cell n') \<and> read st (vals (cell n)) = read st' (vals (cell n'))"
proof (induction n arbitrary: pre n' rule: tree_induct)
  case (Leaf c b)
  have ok: "tree_ok sha fs st pre (Leaf c b)" "tree_ok sha fs st' pre n'"
    using Leaf.prems(1,2) by (simp_all only: good_def)
  have keys: "keys st (Leaf c b) = keys st' n'" using Leaf.prems(10) by (simp add: keys_def)
  have "keys st (Leaf c b) \<le> 1" using Leaf.prems(5) by (auto simp: keys_def)
  then have "node_leaf n'"
    using keys keys_shrunk_Inner [OF hash ok(2) Leaf.prems(6)] Leaf.prems(9) by fastforce
  then obtain c' b' where n': "n' = Leaf c' b'" by (cases n') auto
  have "key c = key c' \<and> read st (vals c) = read st' (vals c')"
  proof (cases "key c = []")
    case True
    then have "contents st' n' = Map.empty" using Leaf.prems(10) by simp
    then have "key c' = []" using n' Leaf.prems(6) by (auto split: if_splits)
    with True ok n' Leaf.prems(5,6) show ?thesis by simp
  next
    case False
    then have "contents st (Leaf c b) (key c) = Some (read st (vals c))" using Leaf.prems(5) by simp
    then have "contents st' n' (key c) = Some (read st (vals c))" by (simp only: Leaf.prems(10))
    then show ?thesis using n' by (auto split: if_splits)
  qed
  then show ?case using ok n' Leaf.prems(5,6) by (simp add: generateHash_def)
next
  case (Inner c b l r)
  have ok: "tree_ok sha fs st pre (Inner c b l r)" "tree_ok sha fs st' pre n'"
    using Inner.prems(1,2) by (simp_all only: good_def)
  have keys: "keys st (Inner c b l r) = keys st' n'" using Inner.prems(10) by (simp add: keys_def)
  have "\<not> node_leaf n'"
  proof
    assume leaf: "node_leaf n'"
    then have "shrunk (Inner c b l r)" using Inner.prems(9) by auto
    then have "2 \<le> keys st' n'"
      using keys_shrunk_Inner [OF hash ok(1) Inner.prems(5)] keys by simp
    with leaf show False
      using keys_leaf [of n' st'] keys_placeholder [of n' st'] all_known_cell [OF Inner.prems(6)] by fastforce
  qed
  then obtain c' b' l' r' where n': "n' = Inner c' b' l' r'" by (cases n') auto
  have side: "contents st l = contents st' l'" "contents st r = contents st' r'"
  proof -
    have at: "contents st (Inner c b l r) k = contents st' (Inner c' b' l' r') k" for k
      using Inner.prems(10) n' by simp
    note s = contents_side [OF hash ok(1)] contents_side [OF hash ok(2) [unfolded n']]
      contents_Inner_at [OF hash ok(1)] contents_Inner_at [OF hash ok(2) [unfolded n']]
    show "contents st l = contents st' l'" "contents st r = contents st' r'"
      by (rule ext; use at s in metis)+
  qed
  have sub: "good sha fs st (pre @ [False]) l" "good sha fs st (pre @ [True]) r"
    "good sha fs st' (pre @ [False]) l'" "good sha fs st' (pre @ [True]) r'"
    "clean l" "clean r" "clean l'" "clean r'" "all_known l" "all_known r" "all_known l'" "all_known r'"
    "shrunk l" "shrunk r" "shrunk l'" "shrunk r'"
    using Inner.prems n' by (auto simp: good_def separated_Inner)
  have below: "shrunk m \<Longrightarrow> shrunk_below m" for m by (cases m) auto
  have L: "label (cell l) = label (cell l')" "read st (vals (cell l)) = read st' (vals (cell l'))"
    using Inner.IH(1) [of "pre @ [False]" l'] sub side below by auto
  have R: "label (cell r) = label (cell r')" "read st (vals (cell r)) = read st' (vals (cell r'))"
    using Inner.IH(2) [of "pre @ [True]" r'] sub side below by auto
  have kn: "known (cell l)" "known (cell r)" "known (cell l')" "known (cell r')"
    using sub(9-12) all_known_cell by auto
  have "read st (vals c) = read st' (vals c')"
    using ok Inner.prems(3,4) kn L(2) R(2) n' by simp
  then show ?case
    using ok Inner.prems(3,4) L R n' by (simp add: generateHash_def)
qed

theorem root_determined_by_contents:
  assumes "hash_ok sha" "coll_ok sha c" "coll_ok sha c'" "\<not> ongoing c" "\<not> ongoing c'"
    and "all_known (root c)" "all_known (root c')" "shrunk_below (root c)" "shrunk_below (root c')"
    and "coll_fields c = coll_fields c'" "kv c = kv c'"
  shows "tree_label c = tree_label c'"
  using assms same_contents_same_label [of sha "coll_fields c" "arrays c" "[]" "root c" "arrays c'" "root c'"]
  by (auto simp: coll_ok_def kv_def tree_label_def all_known_cell)

section \<open>The label binds the contents\<close>

text \<open>What the hash function is applied to for the labels of the known nodes.\<close>

fun preimage :: "store \<Rightarrow> node \<Rightarrow> toHash" where
  "preimage st (Leaf c b) = \<lparr>IsLeaf = True, Key = key c, Values = read st (vals c),
     LeftLabel = zero_digest, RightLabel = zero_digest\<rparr>"
| "preimage st (Inner c b l r) = \<lparr>IsLeaf = False, Key = [], Values = read st (vals c),
     LeftLabel = label (cell l), RightLabel = label (cell r)\<rparr>"

fun hashed :: "store \<Rightarrow> node \<Rightarrow> bytes set" where
  "hashed st (Leaf c b) = (if known c then {encode_toHash (preimage st (Leaf c b))} else {})"
| "hashed st (Inner c b l r) =
     insert (encode_toHash (preimage st (Inner c b l r))) (hashed st l \<union> hashed st r)"

lemma label_preimage:
  assumes "tree_ok sha fs st pre n" "clean n" "known (cell n)"
  shows "label (cell n) = toHash_hash sha (preimage st n)" "encode_toHash (preimage st n) \<in> hashed st n"
  using assms by (cases n; simp add: generateHash_def)+

lemma same_label_same_preimage:
  assumes "inj_on sha A" "hashed st n \<subseteq> A" "hashed st' n' \<subseteq> A"
    and "tree_ok sha fs st pre n" "tree_ok sha fs st' pre n'" "clean n" "clean n'"
    and "known (cell n)" "known (cell n')" "label (cell n) = label (cell n')"
  shows "preimage st n = preimage st' n'"
  using assms label_preimage [OF assms(4,6,8)] label_preimage [OF assms(5,7,9)]
  by (intro toHash_hash_eqD [OF assms(1)]) auto

text \<open>
  What a tree says about a key: the values of the leaf on the key's path if it holds the key,
  \<open>Some None\<close> if that leaf holds another key or none, \<open>None\<close> if that part of the tree is unknown.
\<close>

fun lookup :: "(bytes \<Rightarrow> bytes) \<Rightarrow> store \<Rightarrow> nat \<Rightarrow> bytes \<Rightarrow> node \<Rightarrow> bytes list option option" where
  "lookup sha st d k (Leaf c b) =
     (if known c then Some (if key c = k then Some (read st (vals c)) else None) else None)"
| "lookup sha st d k (Inner c b l r) =
     (if path_of sha k ! d then lookup sha st (d + 1) k r else lookup sha st (d + 1) k l)"

lemma lookup_contents:
  assumes hash: "hash_ok sha" and k: "k \<noteq> []"
  shows "tree_ok sha fs st pre n \<Longrightarrow> lookup sha st (length pre) k n = Some a \<Longrightarrow> contents st n k = a"
proof (induction n arbitrary: pre rule: tree_induct)
  case (Leaf c b)
  then show ?case using k by (auto split: if_splits)
next
  case (Inner c b l r)
  then show ?case
    unfolding contents_Inner_at [OF hash Inner.prems(1)]
    using Inner.IH(1) [of "pre @ [False]"] Inner.IH(2) [of "pre @ [True]"]
    by (auto split: if_splits)
qed

lemma lookup_known: "all_known n \<Longrightarrow> \<exists>a. lookup sha st d k n = Some a"
  by (induction n arbitrary: d rule: tree_induct) auto

lemma lookup_Some_known:
  "lookup sha st d k n = Some a \<Longrightarrow> tree_ok sha fs st pre n \<Longrightarrow> known (cell n)"
  by (cases n) (auto split: if_splits)

lemma same_label_same_lookup:
  assumes hash: "hash_ok sha" and inj: "inj_on sha A"
  shows "good sha fs st pre n \<Longrightarrow> good sha fs st' pre n' \<Longrightarrow> clean n \<Longrightarrow> clean n' \<Longrightarrow>
    hashed st n \<subseteq> A \<Longrightarrow> hashed st' n' \<subseteq> A \<Longrightarrow> label (cell n) = label (cell n') \<Longrightarrow>
    lookup sha st (length pre) k n = Some a \<Longrightarrow> lookup sha st' (length pre) k n' = Some a' \<Longrightarrow> a = a'"
proof (induction n arbitrary: pre n' rule: tree_induct)
  case (Leaf c b)
  have kn: "known c" "known (cell n')"
    using Leaf.prems(8) lookup_Some_known [OF Leaf.prems(9)] Leaf.prems(2)
    by (auto simp: good_def split: if_splits)
  have "preimage st (Leaf c b) = preimage st' n'"
    using Leaf.prems kn by (intro same_label_same_preimage [OF inj]) (auto simp: good_def)
  then obtain c' b' where "n' = Leaf c' b'" "key c = key c'" "read st (vals c) = read st' (vals c')"
    by (cases n') auto
  then show ?case using Leaf.prems(8,9) kn by (cases "key c' = k") auto
next
  case (Inner c b l r)
  have kn: "known c" "known (cell n')"
    using Inner.prems(1,2) lookup_Some_known [OF Inner.prems(9)] by (auto simp: good_def)
  have "preimage st (Inner c b l r) = preimage st' n'"
    using Inner.prems kn by (intro same_label_same_preimage [OF inj]) (auto simp: good_def)
  then obtain c' b' l' r' where n': "n' = Inner c' b' l' r'"
    "label (cell l) = label (cell l')" "label (cell r) = label (cell r')"
    by (cases n') auto
  have sub: "good sha fs st (pre @ [False]) l" "good sha fs st (pre @ [True]) r"
    "good sha fs st' (pre @ [False]) l'" "good sha fs st' (pre @ [True]) r'"
    "clean l" "clean r" "clean l'" "clean r'" "hashed st l \<subseteq> A" "hashed st r \<subseteq> A"
    "hashed st' l' \<subseteq> A" "hashed st' r' \<subseteq> A"
    using Inner.prems(1-6) n' by (auto simp: good_def separated_Inner)
  show ?case
  proof (cases "path_of sha k ! length pre")
    case True
    with Inner.prems(8,9) n' show ?thesis
      by (intro Inner.IH(2) [OF sub(2,4,6,8,10,12) n'(3)]) simp_all
  next
    case False
    with Inner.prems(8,9) n' show ?thesis
      by (intro Inner.IH(1) [OF sub(1,3,5,7,9,11) n'(2)]) simp_all
  qed
qed

theorem root_binds_contents:
  assumes "hash_ok sha" "inj_on sha (hashed (arrays c) (root c) \<union> hashed (arrays c') (root c'))"
    and "coll_ok sha c" "coll_ok sha c'" "\<not> ongoing c" "\<not> ongoing c'" "coll_fields c = coll_fields c'"
    and "tree_label c = tree_label c'" "k \<noteq> []"
    and "lookup sha (arrays c) 0 k (root c) = Some a" "lookup sha (arrays c') 0 k (root c') = Some a'"
  shows "kv c k = kv c' k"
proof -
  have "a = a'"
    using same_label_same_lookup [OF assms(1,2), of "coll_fields c" "arrays c" "[]" "root c" "arrays c'" "root c'" k a a']
      assms by (auto simp: coll_ok_def tree_label_def)
  moreover have "kv c k = a" "kv c' k = a'"
    using lookup_contents [OF assms(1,9), of _ _ "[]"] assms by (auto simp: coll_ok_def kv_def good_def)
  ultimately show ?thesis by simp
qed

end
