(* ===== verification/Full.thy ===== *)
theory Full
  imports Canonical
begin

text \<open>
  A whole collection: the one a conode keeps (scope \<open>All\<close>, every node known). For it the operations
  are exact, in a transaction and outside, none of them asks for a proof, and the invariant holds
  again afterwards. It is \<open>full\<close> when no transaction is open.
\<close>

definition whole :: "(bytes \<Rightarrow> bytes) \<Rightarrow> collection \<Rightarrow> bool" where
  "whole sha c \<longleftrightarrow>
     coll_ok sha c \<and> all_known (root c) \<and> shrunk_below (root c) \<and>
     masks (coll_scope c) = [] \<and> scope_all (coll_scope c)"

definition full :: "(bytes \<Rightarrow> bytes) \<Rightarrow> collection \<Rightarrow> bool" where
  "full sha c \<longleftrightarrow>
     coll_ok sha c \<and> \<not> ongoing c \<and> all_known (root c) \<and> shrunk_below (root c) \<and>
     masks (coll_scope c) = [] \<and> scope_all (coll_scope c)"

lemma full_whole: "full sha c \<longleftrightarrow> whole sha c \<and> \<not> ongoing c"
  by (auto simp: full_def whole_def)

lemma whole_in_scope: "whole sha c \<Longrightarrow> in_scope (coll_scope c) sha k"
  by (simp add: whole_def in_scope_def scope_match_def)

lemma full_in_scope: "full sha c \<Longrightarrow> in_scope (coll_scope c) sha k"
  by (simp add: full_whole whole_in_scope)

lemma collect_full:
  assumes "coll_ok sha c" "masks (coll_scope c) = []" "scope_all (coll_scope c)"
  shows "Collect c = Some c"
proof (cases "known (cell (root c))")
  case False
  then show ?thesis by (simp add: Collect_def)
next
  case True
  have sm: "scope_match (coll_scope c) path b = Some True" for path b
    using assms by (simp add: scope_match_def)
  obtain rc b l r where root: "root c = Inner rc b l r" "known rc"
    using assms(1) True by (cases "root c") (auto simp: coll_ok_def)
  have ok: "tree_ok sha (coll_fields c) (arrays c) [False] l" "tree_ok sha (coll_fields c) (arrays c) [True] r"
    using assms(1) root by (auto simp: coll_ok_def good_def)
  have step: "\<exists>p'. setBit p 0 x = Some p' \<and> length p' = sha_size" if "length p = sha_size" for p x
  proof -
    have "0 < 8 * length p" using that by (simp add: sha_size_def)
    then obtain p' where "setBit p 0 x = Some p'" using setBit_Some_iff by blast
    then show ?thesis using setBit_length that by auto
  qed
  obtain p0 where p0: "setBit zero_digest 0 False = Some p0" "length p0 = sha_size"
    using step [of zero_digest False] by auto
  obtain p1 where p1: "setBit p0 0 True = Some p1" "length p1 = sha_size" using step [OF p0(2)] by auto
  obtain p2 where p2: "setBit p1 0 False = Some p2" "length p2 = sha_size" using step [OF p1(2)] by auto
  obtain p3 where p3: "setBit p2 0 True = Some p3" "length p3 = sha_size" using step [OF p2(2)] by auto
  have "collect_node (coll_scope c) l p2 0 = Some l" "collect_node (coll_scope c) r p3 0 = Some r"
    using collect_node_All [OF sm] ok p2 p3 by simp_all
  then show ?thesis using True root p0 p1 p2 p3 sm by (simp add: Collect_def)
qed

text \<open>What \<open>finish\<close> leaves is the tree it was given: there is nothing to collect.\<close>

lemma collect_node_sub:
  "collect_node sc n path d = Some n' \<Longrightarrow> (\<And>p b. scope_match sc p b = Some True) \<Longrightarrow> n' = n"
  by (induction n arbitrary: path d n' rule: tree_induct) (fastforce simp: go_simps split: if_splits)+

lemma Collect_sub:
  assumes "Collect c = Some c'" "masks (coll_scope c) = []" "scope_all (coll_scope c)"
  shows "c' = c"
proof -
  have sm: "scope_match (coll_scope c) path b = Some True" for path b
    using assms by (simp add: scope_match_def)
  then show ?thesis
    using assms(1) by (cases "root c")
      (auto simp: Collect_def go_simps dest!: collect_node_sub split: if_splits)
qed

lemma write_SomeD:
  assumes "Option.bind res (\<lambda>res. case res of Inl e \<Rightarrow> Some (Some e, c) | Inr s \<Rightarrow> finish c s) = Some (None, c')"
  obtains st n where "res = Some (Inr (st, n))" "finish c (st, n) = Some (None, c')"
proof -
  obtain x where x: "res = Some x" using assms by (cases res) auto
  with assms that show ?thesis by (cases x) auto
qed

lemma finish_root:
  assumes "whole sha c" "becomes sha c m c'" "finish c (st', n) = Some (e, c')"
  shows "root c' = n"
  using assms Collect_sub [of "c\<lparr>arrays := st', root := n\<rparr>" c']
  by (auto simp: finish_def whole_def Let_def go_simps split: if_splits)

lemma whole_known: "whole sha c \<Longrightarrow> known (cell (root c))"
  by (auto simp: whole_def intro: all_known_cell)

lemma full_known: "full sha c \<Longrightarrow> known (cell (root c))"
  by (auto simp: full_whole intro: whole_known)

text \<open>Outcomes of an operation on a whole collection: refused and unchanged, or written.\<close>

definition refused :: "coll_error \<Rightarrow> collection \<Rightarrow> (coll_error option \<times> collection) option \<Rightarrow> bool" where
  "refused e c res \<longleftrightarrow> res = Some (Some e, c)"

definition written ::
  "(bytes \<Rightarrow> bytes) \<Rightarrow> collection \<Rightarrow> (bytes \<rightharpoonup> bytes list) \<Rightarrow>
   (coll_error option \<times> collection) option \<Rightarrow> bool" where
  "written sha c m res \<longleftrightarrow>
     (\<exists>c'. res = Some (None, c') \<and> full sha c' \<and> same_config c c' \<and> kv c' = m)"

definition rewritten ::
  "(bytes \<Rightarrow> bytes) \<Rightarrow> collection \<Rightarrow> (bytes \<rightharpoonup> bytes list) \<Rightarrow>
   (coll_error option \<times> collection) option \<Rightarrow> bool" where
  "rewritten sha c m res \<longleftrightarrow>
     (\<exists>c'. res = Some (None, c') \<and> whole sha c' \<and> ongoing c' = ongoing c \<and> same_config c c' \<and> kv c' = m)"

lemma rewritten_full: "full sha c \<Longrightarrow> rewritten sha c m res \<longleftrightarrow> written sha c m res"
  by (auto simp: rewritten_def written_def full_whole)

lemma rewrittenI:
  assumes "whole sha c" "becomes sha c m c'" "finish c (st', n) = Some (None, c')"
    and "all_known n" "shrunk_below n"
  shows "rewritten sha c m (Some (None, c'))"
proof -
  have "root c' = n" by (rule finish_root [OF assms(1-3)])
  then have "whole sha c'" using assms by (auto simp: becomes_def whole_def same_config_def)
  then show ?thesis
    using assms(2) becomes_exact [OF assms(2)] whole_in_scope [OF assms(1)]
    by (auto simp: rewritten_def becomes_def)
qed

lemma New_full:
  assumes "hash_ok sha" "fields_ok fs"
  obtains c where "New sha fs = Some c" "full sha c" "kv c = Map.empty" "coll_fields c = fs"
proof -
  obtain c where c: "New sha fs = Some c" "coll_ok sha c" "kv c = Map.empty" "all_known (root c)"
    "coll_fields c = fs" "masks (coll_scope c) = []" "scope_all (coll_scope c)" "\<not> ongoing c"
    using New_correct [OF assms] by metis
  have "shrunk_below (root c)"
    using c(1) by (auto simp: New_def node_branch_def new_node_def setPlaceholder_eq update_def alloc_def
        Let_def go_simps split: option.splits)
  with c that show ?thesis by (auto simp: full_def)
qed

lemma Add_whole:
  assumes hash: "hash_ok sha" and whole: "whole sha c"
    and k: "k \<noteq> []" "no_collision sha c k"
    and raw: "encode_all (coll_fields c) values = Some raw" "length values = length (coll_fields c)"
  shows "kv c k \<noteq> None \<Longrightarrow> refused KeyCollision c (Add sha c k values)"
    and "kv c k = None \<Longrightarrow> rewritten sha c ((kv c)(k \<mapsto> raw)) (Add sha c k values)"
proof -
  have ok: "coll_ok sha c" "all_known (root c)" using whole by (auto simp: whole_def)
  obtain e c' where A: "Add sha c k values = Some (e, c')"
    "e = Some KeyCollision \<and> kv c k \<noteq> None \<and> c' = c \<or>
     e = None \<and> kv c k = None \<and> becomes sha c ((kv c)(k \<mapsto> raw)) c'"
    using Add_correct [OF hash ok(1) k raw] ok(2) by blast
  show "kv c k \<noteq> None \<Longrightarrow> refused KeyCollision c (Add sha c k values)"
    using A by (auto simp: refused_def)
  assume new: "kv c k = None"
  with A(2) have res: "e = None" "becomes sha c ((kv c)(k \<mapsto> raw)) c'" by auto
  obtain rc b l r where root: "root c = Inner rc b l r"
    using coll_ok_root [OF ok(1) whole_known [OF whole]] by metis
  obtain st' n where at: "add_at sha (coll_fields c) (ongoing c) (sha k) k (length (arrays c)) 0
      (arrays c @ [raw]) (Inner rc b l r) = Some (Inr (st', n))" "finish c (st', n) = Some (None, c')"
    using A(1) res(1) raw k whole_known [OF whole] whole
    by (simp add: Add_def alloc_def whole_def root) (erule write_SomeD)
  have "shrunk_below n" "all_known n"
    using add_at_shape [OF k(1) at(1)] whole by (auto simp: whole_def root)
  then show "rewritten sha c ((kv c)(k \<mapsto> raw)) (Add sha c k values)"
    using rewrittenI [OF whole res(2) at(2)] A(1) res(1) by simp
qed

lemma Add_full:
  assumes hash: "hash_ok sha" and full: "full sha c"
    and k: "k \<noteq> []" "no_collision sha c k"
    and raw: "encode_all (coll_fields c) values = Some raw" "length values = length (coll_fields c)"
  shows "kv c k \<noteq> None \<Longrightarrow> refused KeyCollision c (Add sha c k values)"
    and "kv c k = None \<Longrightarrow> written sha c ((kv c)(k \<mapsto> raw)) (Add sha c k values)"
  using Add_whole [OF hash _ k raw] rewritten_full [OF full] full [unfolded full_whole] by auto

lemma Set_whole:
  assumes hash: "hash_ok sha" and whole: "whole sha c"
    and k: "k \<noteq> []" and gs: "encodable (coll_fields c) values"
  shows "kv c k = None \<Longrightarrow> refused KeyNotFound c (Set sha c k values)"
    and "kv c k = Some vs \<Longrightarrow> \<exists>ws. merged (coll_fields c) values vs = Some ws \<and>
      rewritten sha c ((kv c)(k \<mapsto> ws)) (Set sha c k values)"
proof -
  have ok: "coll_ok sha c" "all_known (root c)" using whole by (auto simp: whole_def)
  have len: "length values = length (coll_fields c)"
    using gs by (simp add: encodable_def list_all2_lengthD)
  obtain e c' where A: "Set sha c k values = Some (e, c')"
    "e = Some KeyNotFound \<and> kv c k = None \<and> c' = c \<or>
     e = None \<and> (\<exists>vs ws. kv c k = Some vs \<and> merged (coll_fields c) values vs = Some ws \<and>
       becomes sha c ((kv c)(k \<mapsto> ws)) c')"
    using Set_correct [OF hash ok(1) k gs] ok(2) by blast
  show "kv c k = None \<Longrightarrow> refused KeyNotFound c (Set sha c k values)"
    using A by (auto simp: refused_def)
  assume "kv c k = Some vs"
  with A(2) obtain ws where res: "e = None" "merged (coll_fields c) values vs = Some ws"
    "becomes sha c ((kv c)(k \<mapsto> ws)) c'" by auto
  obtain rc b l r where root: "root c = Inner rc b l r"
    using coll_ok_root [OF ok(1) whole_known [OF whole]] by metis
  obtain st' n where at: "set_at sha (coll_fields c) (ongoing c) (sha k) k values 0
      (arrays c) (Inner rc b l r) = Some (Inr (st', n))" "finish c (st', n) = Some (None, c')"
    using A(1) res(1) len whole_known [OF whole] whole
    by (simp add: Set_def whole_def root) (erule write_SomeD)
  have "shrunk_below n" "all_known n"
    using set_at_shape [OF at(1)] whole by (auto simp: whole_def root)
  then show "\<exists>ws. merged (coll_fields c) values vs = Some ws \<and>
      rewritten sha c ((kv c)(k \<mapsto> ws)) (Set sha c k values)"
    using rewrittenI [OF whole res(3) at(2)] A(1) res(1,2) by auto
qed

lemma Set_full:
  assumes hash: "hash_ok sha" and full: "full sha c"
    and k: "k \<noteq> []" and gs: "encodable (coll_fields c) values"
  shows "kv c k = None \<Longrightarrow> refused KeyNotFound c (Set sha c k values)"
    and "kv c k = Some vs \<Longrightarrow> \<exists>ws. merged (coll_fields c) values vs = Some ws \<and>
      written sha c ((kv c)(k \<mapsto> ws)) (Set sha c k values)"
  using Set_whole [OF hash _ k gs] rewritten_full [OF full] full [unfolded full_whole] by auto

lemma Remove_whole:
  assumes hash: "hash_ok sha" and whole: "whole sha c" and k: "k \<noteq> []"
  shows "kv c k = None \<Longrightarrow> refused KeyNotFound c (Remove sha c k)"
    and "kv c k \<noteq> None \<Longrightarrow> rewritten sha c ((kv c)(k := None)) (Remove sha c k)"
proof -
  have ok: "coll_ok sha c" "all_known (root c)" using whole by (auto simp: whole_def)
  obtain e c' where A: "Remove sha c k = Some (e, c')"
    "e = Some KeyNotFound \<and> kv c k = None \<and> c' = c \<or>
     e = None \<and> kv c k \<noteq> None \<and> becomes sha c ((kv c)(k := None)) c'"
    using Remove_correct [OF hash ok(1) k] ok(2) by blast
  show "kv c k = None \<Longrightarrow> refused KeyNotFound c (Remove sha c k)"
    using A by (auto simp: refused_def)
  assume "kv c k \<noteq> None"
  with A(2) have res: "e = None" "becomes sha c ((kv c)(k := None)) c'" by auto
  obtain rc b l r where root: "root c = Inner rc b l r"
    using coll_ok_root [OF ok(1) whole_known [OF whole]] by metis
  obtain st' n where at: "remove_at sha (coll_fields c) (ongoing c) (sha k) k True 0
      (arrays c) (Inner rc b l r) = Some (Inr (st', n))" "finish c (st', n) = Some (None, c')"
    using A(1) res(1) whole_known [OF whole] whole
    by (simp add: Remove_def whole_def root) (erule write_SomeD)
  have "shrunk_below n" "all_known n"
    using remove_at_shape [OF at(1)] whole by (auto simp: whole_def root)
  then show "rewritten sha c ((kv c)(k := None)) (Remove sha c k)"
    using rewrittenI [OF whole res(2) at(2)] A(1) res(1) by simp
qed

lemma Remove_full:
  assumes hash: "hash_ok sha" and full: "full sha c" and k: "k \<noteq> []"
  shows "kv c k = None \<Longrightarrow> refused KeyNotFound c (Remove sha c k)"
    and "kv c k \<noteq> None \<Longrightarrow> written sha c ((kv c)(k := None)) (Remove sha c k)"
  using Remove_whole [OF hash _ k] rewritten_full [OF full] full [unfolded full_whole] by auto

section \<open>Transactions\<close>

lemma Begin_whole:
  assumes "full sha c"
  obtains c' where "Begin c = Some c'" "whole sha c'" "ongoing c'" "same_config c c'" "kv c' = kv c"
  using assms by (intro that [of "c\<lparr>ongoing := True\<rparr>"])
    (auto simp: Begin_def full_def whole_def coll_ok_def kv_def same_config_def)

section \<open>Clones\<close>

lemma collapsible_cong:
  "node_leaf l' = node_leaf l \<Longrightarrow> key (cell l') = key (cell l) \<Longrightarrow>
   node_leaf r' = node_leaf r \<Longrightarrow> key (cell r') = key (cell r) \<Longrightarrow> collapsible l' r' = collapsible l r"
  by (simp add: collapsible_def node_placeholder_def)

lemma clone_node_shape:
  "clone_node src dst n = (dst', n') \<Longrightarrow>
     node_leaf n' = node_leaf n \<and> key (cell n') = key (cell n) \<and> known (cell n') = known (cell n) \<and>
     shrunk n' = shrunk n \<and>
     shrunk_below n' = shrunk_below n"
proof (induction n arbitrary: dst dst' n' rule: tree_induct)
  case (Leaf c b)
  then show ?case by (auto simp: alloc_def)
next
  case (Inner c b l r)
  obtain d2 l' where l': "clone_node src (dst @ [read src (vals c)]) l = (d2, l')" by fastforce
  obtain d3 r' where r': "clone_node src d2 r = (d3, r')" by fastforce
  note L = Inner.IH(1) [OF l'] and R = Inner.IH(2) [OF r']
  have "n' = Inner (c\<lparr>inconsistent := False, vals := length dst\<rparr>) None l' r'"
    using Inner.prems l' r' by (simp add: alloc_def)
  moreover have "collapsible l' r' = collapsible l r"
    using collapsible_cong [of l' l r' r] L R by blast
  ultimately show ?case using L R by simp
qed

lemma Clone_full:
  assumes "full sha c"
  obtains c' where "Clone c = Some c'" "full sha c'" "kv c' = kv c" "tree_label c' = tree_label c"
    "coll_fields c' = coll_fields c"
proof -
  obtain c' where c': "Clone c = Some c'" "coll_ok sha c'" "kv c' = kv c" "tree_label c' = tree_label c"
    "same_config c c'" "\<not> ongoing c'" "all_known (root c') = all_known (root c)"
    using Clone_correct [of sha c] assms by (auto simp: full_def)
  then have "shrunk_below (root c')"
    using assms by (auto simp: Clone_def full_def dest: clone_node_shape split: prod.splits)
  with c' assms show ?thesis by (intro that [of c']) (auto simp: full_def same_config_def)
qed

end
