(* ===== verification/Histories.thy ===== *)
theory Histories
  imports Full
begin

text \<open>
  Sequences of operations on a collection. Begin, writes and End give the collection the same
  contents and the same Merkle root as the writes alone would; from a new collection no sequence of
  calls in which transactions are opened and closed in turn panics, and the contents are at every
  point those of a plain map.
\<close>

section \<open>The end of a transaction\<close>

lemma confirm_shape:
  "key (cell (confirm_node n)) = key (cell n) \<and> shrunk (confirm_node n) = shrunk n \<and>
   shrunk_below (confirm_node n) = shrunk_below n"
proof (induction n rule: tree_induct)
  case (Leaf c b)
  then show ?case by simp
next
  case (Inner c b l r)
  have "collapsible (confirm_node l) (confirm_node r) = collapsible l r"
    by (intro collapsible_cong) (use Inner.IH in auto)
  with Inner.IH show ?case by simp
qed

lemma update_shape:
  "update sha fs st n = Some (e, st', n') \<Longrightarrow>
     node_leaf n' = node_leaf n \<and> key (cell n') = key (cell n) \<and> known (cell n') = known (cell n) \<and>
     (\<forall>c b l r. n = Inner c b l r \<longrightarrow> (\<exists>c'. n' = Inner c' b l r))"
proof (cases n)
  case (Inner c b l r)
  moreover assume "update sha fs st n = Some (e, st', n')"
  ultimately show ?thesis
    by (cases "parent_values fs (read st (vals (cell l))) (read st (vals (cell r)))")
      (auto simp: update_def alloc_def Let_def split: if_split_asm option.split_asm)
qed (auto simp: update_def split: if_split_asm)

lemma fix_node_shape:
  "fix_node sha fs st n = Some (st', n') \<Longrightarrow>
     node_leaf n' = node_leaf n \<and> key (cell n') = key (cell n) \<and> known (cell n') = known (cell n) \<and>
     shrunk n' = shrunk n \<and> shrunk_below n' = shrunk_below n"
proof (induction n arbitrary: st st' n' rule: tree_induct)
  case (Leaf c b)
  show ?case
  proof (cases "inconsistent c")
    case True
    with Leaf obtain e n2 where "update sha fs st (Leaf c b) = Some (e, st', n2)"
      "n' = set_cell (\<lambda>c. c\<lparr>inconsistent := False\<rparr>) n2"
      by (auto simp: go_simps)
    with update_shape [OF this(1)] show ?thesis by (cases n2) auto
  qed (use Leaf in simp)
next
  case (Inner c b l r)
  show ?case
  proof (cases "inconsistent c")
    case True
    with Inner.prems obtain st1 l' st2 r' e n2 where f: "fix_node sha fs st l = Some (st1, l')"
      "fix_node sha fs st1 r = Some (st2, r')" "update sha fs st2 (Inner c b l' r') = Some (e, st', n2)"
      "n' = set_cell (\<lambda>c. c\<lparr>inconsistent := False\<rparr>) n2"
      by (auto simp: go_simps)
    note L = Inner.IH(1) [OF f(1)] and R = Inner.IH(2) [OF f(2)]
    obtain c' where "n2 = Inner c' b l' r'" "key c' = key c" "known c' = known c"
      using update_shape [OF f(3)] by auto
    moreover have "collapsible l' r' = collapsible l r"
      by (intro collapsible_cong) (use L R in auto)
    ultimately show ?thesis using f(4) L R by simp
  qed (use Inner.prems in simp)
qed

lemma End_whole:
  assumes hash: "hash_ok sha" and whole: "whole sha c" and tx: "ongoing c"
  obtains c' where "End sha c = Some c'" "full sha c'" "same_config c c'" "kv c' = kv c"
    "tx_id c' = tx_id c + 1"
proof -
  let ?n = "confirm_node (root c)"
  have ok: "coll_ok sha c" using whole by (simp add: whole_def)
  have g: "good sha (coll_fields c) (arrays c) [] ?n" "no_backup ?n"
    using ok confirm_ok by (auto simp: coll_ok_def good_def separated_def)
  have fs: "fields_ok (coll_fields c)" using ok by (simp add: coll_ok_def)
  obtain st n where fx: "fix_node sha (coll_fields c) (arrays c) ?n = Some (st, n)"
    "all_known n = all_known (root c)"
    using fix_node_good [OF fs g] by auto
  have shape: "shrunk_below n"
    using fix_node_shape [OF fx(1)] confirm_shape whole by (auto simp: whole_def)
  obtain c' where c': "End sha c = Some c'" "coll_ok sha c'" "same_config c c'" "\<not> ongoing c'"
    "tx_id c' = tx_id c + 1" "kv c' \<subseteq>\<^sub>m kv c"
    "\<And>k. flag_value (autoCollect c) \<longrightarrow> in_scope (coll_scope c) sha k \<Longrightarrow> kv c' k = kv c k"
    using End_correct [OF hash ok tx] by metis
  have "root c' = n"
    using c'(1) tx fx(1) whole Collect_sub [of "c\<lparr>root := n, arrays := st\<rparr>"]
    by (auto simp: End_def Let_def whole_def go_simps split: if_splits)
  then have "full sha c'"
    using c' shape fx(2) whole by (auto simp: full_def whole_def same_config_def)
  moreover have "kv c' = kv c" using c'(7) whole_in_scope [OF whole] by auto
  ultimately show ?thesis using that c' by blast
qed

section \<open>Writes\<close>

datatype write_op =
    WAdd bytes "gval list"
  | WSet bytes "gval list"
  | WSetField bytes int gval
  | WRemove bytes

fun run_write :: "(bytes \<Rightarrow> bytes) \<Rightarrow> collection \<Rightarrow> write_op \<Rightarrow> (coll_error option \<times> collection) option" where
  "run_write sha c (WAdd k vs) = Add sha c k vs"
| "run_write sha c (WSet k vs) = Set sha c k vs"
| "run_write sha c (WSetField k i v) = SetField sha c k i v"
| "run_write sha c (WRemove k) = Remove sha c k"

fun run_writes :: "(bytes \<Rightarrow> bytes) \<Rightarrow> collection \<Rightarrow> write_op list \<Rightarrow> (coll_error option list \<times> collection) option" where
  "run_writes sha c [] = Some ([], c)"
| "run_writes sha c (w # ws) =
     do {
       (e, c1) \<leftarrow> run_write sha c w;
       (es, c2) \<leftarrow> run_writes sha c1 ws;
       Some (e # es, c2)
     }"

text \<open>The calls whose arguments the fields accept.\<close>

definition one_field :: "field list \<Rightarrow> int \<Rightarrow> gval \<Rightarrow> gval list" where
  "one_field fs i v = map (\<lambda>j. if int j = i then v else GSame) [0..<length fs]"

fun write_ok :: "bytes set \<Rightarrow> field list \<Rightarrow> write_op \<Rightarrow> bool" where
  "write_ok K fs (WAdd k vs) \<longleftrightarrow> k \<in> K \<and> length vs = length fs \<and> encode_all fs vs \<noteq> None"
| "write_ok K fs (WSet k vs) \<longleftrightarrow> k \<in> K \<and> encodable fs vs"
| "write_ok K fs (WSetField k i v) \<longleftrightarrow> k \<in> K \<and> i < int (length fs) \<and> encodable fs (one_field fs i v)"
| "write_ok K fs (WRemove k) \<longleftrightarrow> k \<in> K"

text \<open>What a call does to a plain map.\<close>

definition spec_set :: "field list \<Rightarrow> (bytes \<rightharpoonup> bytes list) \<Rightarrow> bytes \<Rightarrow> gval list \<Rightarrow>
    coll_error option \<times> (bytes \<rightharpoonup> bytes list)" where
  "spec_set fs m k vs = (case m k of None \<Rightarrow> (Some KeyNotFound, m) | Some old \<Rightarrow> (None, m(k := merged fs vs old)))"

fun spec_write :: "field list \<Rightarrow> (bytes \<rightharpoonup> bytes list) \<Rightarrow> write_op \<Rightarrow> coll_error option \<times> (bytes \<rightharpoonup> bytes list)" where
  "spec_write fs m (WAdd k vs) = (if m k = None then (None, m(k := encode_all fs vs)) else (Some KeyCollision, m))"
| "spec_write fs m (WSet k vs) = spec_set fs m k vs"
| "spec_write fs m (WSetField k i v) = spec_set fs m k (one_field fs i v)"
| "spec_write fs m (WRemove k) = (if m k = None then (Some KeyNotFound, m) else (None, m(k := None)))"

fun spec_writes :: "field list \<Rightarrow> (bytes \<rightharpoonup> bytes list) \<Rightarrow> write_op list \<Rightarrow>
    coll_error option list \<times> (bytes \<rightharpoonup> bytes list)" where
  "spec_writes fs m [] = ([], m)"
| "spec_writes fs m (w # ws) =
     (let (e, m1) = spec_write fs m w; (es, m2) = spec_writes fs m1 ws in (e # es, m2))"

text \<open>A whole collection all of whose keys are in \<open>K\<close>.\<close>

definition kept :: "(bytes \<Rightarrow> bytes) \<Rightarrow> bytes set \<Rightarrow> collection \<Rightarrow> bool" where
  "kept sha K c \<longleftrightarrow> hash_ok sha \<and> inj_on sha K \<and> [] \<notin> K \<and> whole sha c \<and> dom (kv c) \<subseteq> K"

lemma kept_rewritten:
  "kept sha K c \<Longrightarrow> rewritten sha c ((kv c)(k := x)) res \<Longrightarrow> k \<in> K \<Longrightarrow>
     \<exists>c'. res = Some (None, c') \<and> kept sha K c' \<and> same_config c c' \<and> ongoing c' = ongoing c \<and> kv c' = (kv c)(k := x)"
proof -
  assume c: "kept sha K c" "rewritten sha c ((kv c)(k := x)) res" "k \<in> K"
  then obtain c' where c': "res = Some (None, c')" "whole sha c'" "ongoing c' = ongoing c" "same_config c c'"
    "kv c' = (kv c)(k := x)"
    by (auto simp: rewritten_def)
  moreover have "dom ((kv c)(k := x)) \<subseteq> K" using c by (auto simp: kept_def split: if_splits)
  ultimately show ?thesis using c(1) by (simp add: kept_def)
qed

lemma run_set:
  assumes "kept sha K c" "k \<in> K" "encodable (coll_fields c) vs"
  shows "\<exists>c'. Set sha c k vs = Some (fst (spec_set (coll_fields c) (kv c) k vs), c') \<and> kept sha K c' \<and>
    same_config c c' \<and> ongoing c' = ongoing c \<and> kv c' = snd (spec_set (coll_fields c) (kv c) k vs)"
proof -
  have c: "hash_ok sha" "whole sha c" "k \<noteq> []" using assms by (auto simp: kept_def)
  show ?thesis
  proof (cases "kv c k")
    case None
    with Set_whole(1) [OF c assms(3)] assms(1) show ?thesis by (simp add: refused_def spec_set_def)
  next
    case (Some old)
    then obtain ws where "merged (coll_fields c) vs old = Some ws" "rewritten sha c ((kv c)(k \<mapsto> ws)) (Set sha c k vs)"
      using Set_whole(2) [OF c assms(3)] by blast
    with kept_rewritten [OF assms(1) this(2) assms(2)] Some show ?thesis by (simp add: spec_set_def)
  qed
qed

lemma run_write_spec:
  assumes ok: "kept sha K c" "write_ok K (coll_fields c) w"
  shows "\<exists>c'. run_write sha c w = Some (fst (spec_write (coll_fields c) (kv c) w), c') \<and> kept sha K c' \<and>
    same_config c c' \<and> ongoing c' = ongoing c \<and> kv c' = snd (spec_write (coll_fields c) (kv c) w)"
proof (cases w)
  case (WAdd k vs)
  have c: "hash_ok sha" "whole sha c" "k \<noteq> []" "no_collision sha c k" "k \<in> K"
    using ok WAdd by (auto simp: kept_def no_collision_def inj_on_def)
  obtain raw where raw: "encode_all (coll_fields c) vs = Some raw" "length vs = length (coll_fields c)"
    using ok WAdd by auto
  show ?thesis
  proof (cases "kv c k = None")
    case True
    with kept_rewritten [OF ok(1) Add_whole(2) [OF c(1-4) raw True] c(5)] raw WAdd show ?thesis by auto
  next
    case False
    with Add_whole(1) [OF c(1-4) raw False] ok(1) WAdd show ?thesis by (simp add: refused_def)
  qed
next
  case (WRemove k)
  have c: "hash_ok sha" "whole sha c" "k \<noteq> []" "k \<in> K" using ok WRemove by (auto simp: kept_def)
  show ?thesis
  proof (cases "kv c k = None")
    case True
    with Remove_whole(1) [OF c(1-3)] ok(1) WRemove show ?thesis by (simp add: refused_def)
  next
    case False
    with kept_rewritten [OF ok(1) Remove_whole(2) [OF c(1-3) False] c(4)] WRemove show ?thesis by auto
  qed
qed (use run_set [OF ok(1)] ok(2) in \<open>auto simp: SetField_def one_field_def\<close>)

lemma run_writes_spec:
  "kept sha K c \<Longrightarrow> \<forall>w \<in> set ws. write_ok K (coll_fields c) w \<Longrightarrow>
     \<exists>c'. run_writes sha c ws = Some (fst (spec_writes (coll_fields c) (kv c) ws), c') \<and> kept sha K c' \<and>
       same_config c c' \<and> ongoing c' = ongoing c \<and> kv c' = snd (spec_writes (coll_fields c) (kv c) ws)"
proof (induction ws arbitrary: c)
  case (Cons w ws)
  obtain c1 where c1: "run_write sha c w = Some (fst (spec_write (coll_fields c) (kv c) w), c1)" "kept sha K c1"
    "same_config c c1" "ongoing c1 = ongoing c" "kv c1 = snd (spec_write (coll_fields c) (kv c) w)"
    using run_write_spec [OF Cons.prems(1), of w] Cons.prems(2) by auto
  have fs: "coll_fields c1 = coll_fields c" using c1(3) by (simp add: same_config_def)
  with Cons.IH [OF c1(2)] Cons.prems(2) obtain c2 where
    "run_writes sha c1 ws = Some (fst (spec_writes (coll_fields c) (kv c1) ws), c2)" "kept sha K c2"
    "same_config c1 c2" "ongoing c2 = ongoing c1" "kv c2 = snd (spec_writes (coll_fields c) (kv c1) ws)"
    by auto
  with c1 fs show ?case by (auto simp: same_config_def Let_def case_prod_beta)
qed (simp add: same_config_def)

section \<open>Transactions\<close>

definition run_tx :: "(bytes \<Rightarrow> bytes) \<Rightarrow> collection \<Rightarrow> write_op list \<Rightarrow> (coll_error option list \<times> collection) option" where
  "run_tx sha c ws = do { c1 \<leftarrow> Begin c; (es, c2) \<leftarrow> run_writes sha c1 ws; c3 \<leftarrow> End sha c2; Some (es, c3) }"

text \<open>A transaction tells the caller, contains, and hashes to the same as its writes alone.\<close>

lemma run_tx_spec:
  assumes c: "kept sha K c" "\<not> ongoing c" and ws: "\<forall>w \<in> set ws. write_ok K (coll_fields c) w"
  shows "\<exists>c'. run_tx sha c ws = Some (fst (spec_writes (coll_fields c) (kv c) ws), c') \<and> kept sha K c' \<and>
    \<not> ongoing c' \<and> same_config c c' \<and> kv c' = snd (spec_writes (coll_fields c) (kv c) ws)"
proof -
  have full: "full sha c" using c by (simp add: kept_def full_whole)
  obtain c1 where c1: "Begin c = Some c1" "whole sha c1" "ongoing c1" "same_config c c1" "kv c1 = kv c"
    using Begin_whole [OF full] by metis
  then have "kept sha K c1" "coll_fields c1 = coll_fields c" using c by (auto simp: kept_def same_config_def)
  then obtain c2 where c2: "run_writes sha c1 ws = Some (fst (spec_writes (coll_fields c) (kv c) ws), c2)"
    "kept sha K c2" "same_config c1 c2" "ongoing c2" "kv c2 = snd (spec_writes (coll_fields c) (kv c) ws)"
    using run_writes_spec [of sha K c1 ws] ws c1(3,5) by auto
  obtain c3 where "End sha c2 = Some c3" "full sha c3" "same_config c2 c3" "kv c3 = kv c2"
    using End_whole [of sha c2] c2(2,4) unfolding kept_def by metis
  with c1 c2 show ?thesis by (auto simp: run_tx_def kept_def full_whole same_config_def)
qed

lemma full_root:
  assumes "hash_ok sha" "full sha c" "full sha c'" "coll_fields c = coll_fields c'" "kv c = kv c'"
  shows "tree_label c = tree_label c'"
  using assms root_determined_by_contents [of sha c c'] by (auto simp: full_def)

lemma run_tx_writes:
  assumes "kept sha K c" "\<not> ongoing c" "\<forall>w \<in> set ws. write_ok K (coll_fields c) w"
  shows "\<exists>es c1 c2. run_tx sha c ws = Some (es, c1) \<and> run_writes sha c ws = Some (es, c2) \<and>
    kv c1 = kv c2 \<and> tree_label c1 = tree_label c2"
proof -
  obtain c1 where c1: "run_tx sha c ws = Some (fst (spec_writes (coll_fields c) (kv c) ws), c1)" "kept sha K c1"
    "\<not> ongoing c1" "same_config c c1" "kv c1 = snd (spec_writes (coll_fields c) (kv c) ws)"
    using run_tx_spec [OF assms] by auto
  obtain c2 where c2: "run_writes sha c ws = Some (fst (spec_writes (coll_fields c) (kv c) ws), c2)" "kept sha K c2"
    "same_config c c2" "ongoing c2 = ongoing c" "kv c2 = snd (spec_writes (coll_fields c) (kv c) ws)"
    using run_writes_spec [OF assms(1,3)] by auto
  have "tree_label c1 = tree_label c2"
    by (rule full_root [of sha]) (use c1 c2 assms(2) in \<open>auto simp: kept_def full_whole same_config_def\<close>)
  with c1 c2 show ?thesis by auto
qed

section \<open>Histories\<close>

text \<open>A history is a list of writes, each outside or inside a transaction, and of prunings.\<close>

datatype history_step = Outside write_op | Inside "write_op list" | Pruning

fun run_history :: "(bytes \<Rightarrow> bytes) \<Rightarrow> collection \<Rightarrow> history_step list \<Rightarrow> (coll_error option list \<times> collection) option" where
  "run_history sha c [] = Some ([], c)"
| "run_history sha c (h # hs) =
     do {
       (es, c1) \<leftarrow> (case h of
           Outside w \<Rightarrow> map_option (\<lambda>(e, c'). ([e], c')) (run_write sha c w)
         | Inside ws \<Rightarrow> run_tx sha c ws
         | Pruning \<Rightarrow> map_option (\<lambda>c'. ([], c')) (Collect c));
       (es', c2) \<leftarrow> run_history sha c1 hs;
       Some (es @ es', c2)
     }"

fun writes_of :: "history_step \<Rightarrow> write_op list" where
  "writes_of (Outside w) = [w]"
| "writes_of (Inside ws) = ws"
| "writes_of Pruning = []"

lemma spec_writes_append:
  "spec_writes fs m (xs @ ys) =
     (let (es, m1) = spec_writes fs m xs; (es', m2) = spec_writes fs m1 ys in (es @ es', m2))"
  by (induction xs arbitrary: m) (auto simp: Let_def case_prod_beta)

lemma run_history_spec:
  "kept sha K c \<Longrightarrow> \<not> ongoing c \<Longrightarrow> \<forall>h \<in> set hs. \<forall>w \<in> set (writes_of h). write_ok K (coll_fields c) w \<Longrightarrow>
     \<exists>c'. run_history sha c hs = Some (fst (spec_writes (coll_fields c) (kv c) (concat (map writes_of hs))), c') \<and>
       kept sha K c' \<and> \<not> ongoing c' \<and> same_config c c' \<and>
       kv c' = snd (spec_writes (coll_fields c) (kv c) (concat (map writes_of hs)))"
proof (induction hs arbitrary: c)
  case (Cons h hs)
  let ?ws = "writes_of h"
  have "\<exists>c1. (case h of
           Outside w \<Rightarrow> map_option (\<lambda>(e, c'). ([e], c')) (run_write sha c w)
         | Inside ws \<Rightarrow> run_tx sha c ws
         | Pruning \<Rightarrow> map_option (\<lambda>c'. ([], c')) (Collect c)) =
      Some (fst (spec_writes (coll_fields c) (kv c) ?ws), c1) \<and> kept sha K c1 \<and> \<not> ongoing c1 \<and>
      same_config c c1 \<and> kv c1 = snd (spec_writes (coll_fields c) (kv c) ?ws)"
  proof (cases h)
    case (Outside w)
    with run_write_spec [OF Cons.prems(1), of w] Cons.prems(2,3) show ?thesis
      by (auto simp: Let_def case_prod_beta)
  next
    case (Inside ws)
    with run_tx_spec [OF Cons.prems(1,2), of ws] Cons.prems(3) show ?thesis by auto
  next
    case Pruning
    with collect_full [of sha c] Cons.prems(1,2) show ?thesis by (auto simp: kept_def whole_def)
  qed
  then obtain c1 where c1: "(case h of
           Outside w \<Rightarrow> map_option (\<lambda>(e, c'). ([e], c')) (run_write sha c w)
         | Inside ws \<Rightarrow> run_tx sha c ws
         | Pruning \<Rightarrow> map_option (\<lambda>c'. ([], c')) (Collect c)) =
      Some (fst (spec_writes (coll_fields c) (kv c) ?ws), c1)" "kept sha K c1" "\<not> ongoing c1"
      "same_config c c1" "kv c1 = snd (spec_writes (coll_fields c) (kv c) ?ws)"
    by blast
  have fs: "coll_fields c1 = coll_fields c" using c1(4) by (simp add: same_config_def)
  obtain c2 where "run_history sha c1 hs = Some (fst (spec_writes (coll_fields c) (kv c1) (concat (map writes_of hs))), c2)"
    "kept sha K c2" "\<not> ongoing c2" "same_config c1 c2"
    "kv c2 = snd (spec_writes (coll_fields c) (kv c1) (concat (map writes_of hs)))"
    using Cons.IH [OF c1(2,3)] Cons.prems(3) fs by auto
  with c1 fs show ?case
    by (simp add: spec_writes_append Let_def case_prod_beta same_config_def)
qed (simp add: same_config_def)

end
