(* ===== verification/Records.thy ===== *)
theory Records
  imports Collection
begin

text \<open>
  Models \<open>record.go\<close>, the \<open>Record\<close> part of \<open>getters.go\<close> and \<open>navigators.go\<close>: looking up a key, and
  finding the leaf a field's \<open>Navigate\<close> leads to.

  Of the collection a record points to, only the fields are read, so a record carries those.
  \<open>Navigate\<close> of a field overwrites the query buffer, which the navigator and the record it
  returns share: \<open>Navigator_Record\<close> therefore also returns the navigator.
\<close>

record coll_record =
  rec_fields :: "field list"
  rec_field :: nat
  rec_query :: bytes
  rec_match :: bool
  rec_key :: bytes
  rec_values :: "bytes list"

text \<open>\<open>Record{}\<close>, what a failed lookup returns beside its error.\<close>

definition empty_record :: coll_record where
  "empty_record = \<lparr>rec_fields = [], rec_field = 0, rec_query = [], rec_match = False,
                   rec_key = [], rec_values = []\<rparr>"

definition recordKeyMatch :: "collection \<Rightarrow> node \<Rightarrow> coll_record" where
  "recordKeyMatch c n =
     \<lparr>rec_fields = coll_fields c, rec_field = 0, rec_query = [], rec_match = True,
      rec_key = key (cell n), rec_values = read (arrays c) (vals (cell n))\<rparr>"

definition recordQueryMatch :: "collection \<Rightarrow> nat \<Rightarrow> bytes \<Rightarrow> node \<Rightarrow> coll_record" where
  "recordQueryMatch c field query n =
     \<lparr>rec_fields = coll_fields c, rec_field = field, rec_query = query, rec_match = True,
      rec_key = key (cell n), rec_values = read (arrays c) (vals (cell n))\<rparr>"

definition recordKeyMismatch :: "collection \<Rightarrow> bytes \<Rightarrow> coll_record" where
  "recordKeyMismatch c k =
     \<lparr>rec_fields = coll_fields c, rec_field = 0, rec_query = [], rec_match = False,
      rec_key = k, rec_values = []\<rparr>"

definition Query :: "coll_record \<Rightarrow> (coll_error + gval) option" where
  "Query r =
     (if length (rec_query r) = 0 then Some (Inl NoQuery)
      else if length (rec_values r) \<le> rec_field r then Some (Inl FieldOutOfRange)
      else do { F \<leftarrow> slice_get (rec_fields r) (rec_field r); Some (Decode F (rec_query r)) })"

definition rec_Match :: "coll_record \<Rightarrow> bool" where
  "rec_Match r = rec_match r"

definition rec_Key :: "coll_record \<Rightarrow> bytes" where
  "rec_Key r = rec_key r"

text \<open>The loop over the values: the first value that cannot be decoded ends it with its error.\<close>

fun decode_all :: "field list \<Rightarrow> bytes list \<Rightarrow> coll_error + gval list" where
  "decode_all (F # fs) (raw # raws) =
     (case Decode F raw of
        Inl err \<Rightarrow> Inl err
      | Inr value \<Rightarrow> (case decode_all fs raws of Inl err \<Rightarrow> Inl err | Inr values \<Rightarrow> Inr (value # values)))"
| "decode_all _ _ = Inr []"

definition rec_Values :: "coll_record \<Rightarrow> coll_error + gval list" where
  "rec_Values r =
     (if \<not> rec_match r then Inl NoMatch
      else if length (rec_values r) \<noteq> length (rec_fields r) then Inl WrongNumberOfValues
      else decode_all (rec_fields r) (rec_values r))"

section \<open>Get\<close>

fun record_at ::
  "collection \<Rightarrow> bytes \<Rightarrow> bytes \<Rightarrow> nat \<Rightarrow> node \<Rightarrow> (coll_error + coll_record) option" where
  "record_at c path k depth (Leaf cl b) =
     (if \<not> known cl then Some (Inl UnknownSubtree)
      else if bytes_equal (key cl) k then Some (Inr (recordKeyMatch c (Leaf cl b)))
      else Some (Inr (recordKeyMismatch c k)))"
| "record_at c path k depth (Inner cl b l r) =
     (if \<not> known cl then Some (Inl UnknownSubtree)
      else do {
        step \<leftarrow> bit_at path depth;
        (if step then record_at c path k (depth + 1) r else record_at c path k (depth + 1) l)
      })"

definition Get_Record :: "(bytes \<Rightarrow> bytes) \<Rightarrow> collection \<Rightarrow> bytes \<Rightarrow> (coll_error + coll_record) option" where
  "Get_Record sha c k =
     (if length k = 0 then Some (Inl NoKey) else record_at c (sha k) k 0 (root c))"

section \<open>Navigate\<close>

record navigator =
  nav_field :: nat
  nav_query :: bytes

definition Navigate_to :: "collection \<Rightarrow> int \<Rightarrow> gval \<Rightarrow> navigator option" where
  "Navigate_to c field value =
     (if field < 0 \<or> int (length (coll_fields c)) \<le> field then None
      else do {
        query \<leftarrow> Encode (coll_fields c ! nat field) value;
        Some \<lparr>nav_field = nat field, nav_query = query\<rparr>
      })"

text \<open>The result, and what is in the query buffer when the loop ends.\<close>

fun navigate_at ::
  "collection \<Rightarrow> nat \<Rightarrow> bytes \<Rightarrow> node \<Rightarrow> ((coll_error + coll_record) \<times> bytes) option" where
  "navigate_at c field query (Leaf cl b) =
     (if \<not> known cl then Some (Inl UnknownSubtree, query)
      else Some (Inr (recordQueryMatch c field query (Leaf cl b)), query))"
| "navigate_at c field query (Inner cl b l r) =
     (if \<not> known cl then Some (Inl UnknownSubtree, query)
      else if \<not> known (cell l) \<or> \<not> known (cell r) then Some (Inl UnknownSubtree, query)
      else do {
        F \<leftarrow> slice_get (coll_fields c) field;
        parent \<leftarrow> slice_get (read (arrays c) (vals cl)) field;
        lv \<leftarrow> slice_get (read (arrays c) (vals (cell l))) field;
        rv \<leftarrow> slice_get (read (arrays c) (vals (cell r))) field;
        (case Navigate F query parent lv rv of
           Inl err \<Rightarrow> Some (Inl err, query)
         | Inr (navigation, query') \<Rightarrow>
             (if navigation = Right then navigate_at c field query' r
              else navigate_at c field query' l))
      })"

definition Navigator_Record ::
  "collection \<Rightarrow> navigator \<Rightarrow> ((coll_error + coll_record) \<times> navigator) option" where
  "Navigator_Record c n =
     do {
       (res, query) \<leftarrow> navigate_at c (nav_field n) (nav_query n) (root c);
       Some (res, n\<lparr>nav_query := query\<rparr>)
     }"

end
