(* ===== verification/Proofs.thy ===== *)
theory Proofs
  imports Records
begin

text \<open>
  Models \<open>proof.go\<close>, the \<open>Proof\<close> part of \<open>getters.go\<close>, and \<open>verifiers.go\<close>: a proof carries the root
  and, for every level of the path of its key, dumps of the two children.

  A dump copies the values a node has when the proof is made; in the code it shares the node's
  slice. Accordingly, when \<open>Verify\<close> takes a dump into the tree, its values go to a new array.
\<close>

record dump =
  d_key :: bytes
  d_values :: "bytes list"
  d_left :: bytes
  d_right :: bytes
  d_label :: bytes

definition dumpNode :: "store \<Rightarrow> node \<Rightarrow> dump" where
  "dumpNode st n =
     (case n of
        Leaf c b \<Rightarrow> \<lparr>d_key = key c, d_values = read st (vals c), d_left = zero_digest,
                      d_right = zero_digest, d_label = label c\<rparr>
      | Inner c b l r \<Rightarrow> \<lparr>d_key = [], d_values = read st (vals c), d_left = label (cell l),
                            d_right = label (cell r), d_label = label c\<rparr>)"

definition dump_leaf :: "dump \<Rightarrow> bool" where
  "dump_leaf d \<longleftrightarrow> d_left d = zero_digest \<and> d_right d = zero_digest"

definition dump_toHash :: "dump \<Rightarrow> toHash" where
  "dump_toHash d =
     (if dump_leaf d
      then \<lparr>IsLeaf = True, Key = d_key d, Values = d_values d,
            LeftLabel = zero_digest, RightLabel = zero_digest\<rparr>
      else \<lparr>IsLeaf = False, Key = [], Values = d_values d,
            LeftLabel = d_left d, RightLabel = d_right d\<rparr>)"

definition dump_consistent :: "(bytes \<Rightarrow> bytes) \<Rightarrow> dump \<Rightarrow> bool" where
  "dump_consistent sha d \<longleftrightarrow> d_label d = toHash_hash sha (dump_toHash d)"

text \<open>\<open>to\<close>: an unknown node takes over a dump that has its label.\<close>

definition unknown_node :: "bytes \<Rightarrow> node" where
  "unknown_node lab = set_cell (\<lambda>c. c\<lparr>known := False, label := lab\<rparr>) new_node"

definition dump_to :: "dump \<Rightarrow> store \<Rightarrow> node \<Rightarrow> store \<times> node" where
  "dump_to d st n =
     (if \<not> known (cell n) \<and> label (cell n) = d_label d
      then (let (st', ref) = alloc st (d_values d);
                c = (cell n)\<lparr>known := True, label := d_label d, vals := ref\<rparr>
            in (st', if dump_leaf d then set_cell (\<lambda>_. c\<lparr>key := d_key d\<rparr>) n
                     else Inner c (saved n) (unknown_node (d_left d)) (unknown_node (d_right d))))
      else (st, n))"

record proof_step =
  step_left :: dump
  step_right :: dump

record mproof =
  p_key :: bytes
  p_root :: dump
  p_steps :: "proof_step list"
  p_fields :: "field list"

definition TreeRootHash :: "mproof \<Rightarrow> bytes" where
  "TreeRootHash p = d_key (p_root p)"

text \<open>The dump on the side the path takes at a depth.\<close>

definition step_side :: "bool \<Rightarrow> proof_step \<Rightarrow> dump" where
  "step_side b s = (if b then step_right s else step_left s)"

definition Match :: "(bytes \<Rightarrow> bytes) \<Rightarrow> mproof \<Rightarrow> bool option" where
  "Match sha p =
     (if length (p_steps p) = 0 then Some False
      else (let path = sha (p_key p); depth = length (p_steps p) - 1 in
        do {
          b \<leftarrow> bit_at path depth;
          Some (if b then bytes_equal (p_key p) (d_key (step_right (p_steps p ! depth)))
                else bytes_equal (p_key p) (d_key (step_left (p_steps p ! depth))))
        }))"

definition RawValues :: "(bytes \<Rightarrow> bytes) \<Rightarrow> mproof \<Rightarrow> (coll_error + bytes list) option" where
  "RawValues sha p =
     (if length (p_steps p) = 0 then Some (Inl NoSteps)
      else (let path = sha (p_key p); depth = length (p_steps p) - 1 in
        do {
          b \<leftarrow> bit_at path depth;
          Some (if b
            then (if bytes_equal (p_key p) (d_key (step_right (p_steps p ! depth)))
                  then Inr (d_values (step_right (p_steps p ! depth))) else Inl NoMatch)
            else (if bytes_equal (p_key p) (d_key (step_left (p_steps p ! depth)))
                  then Inr (d_values (step_left (p_steps p ! depth))) else Inl NoMatch))
        }))"

definition proof_Values :: "(bytes \<Rightarrow> bytes) \<Rightarrow> mproof \<Rightarrow> (coll_error + gval list) option" where
  "proof_Values sha p =
     do {
       raw \<leftarrow> RawValues sha p;
       Some (case raw of
           Inl err \<Rightarrow> Inl err
         | Inr rawValues \<Rightarrow>
             (if length rawValues \<noteq> length (p_fields p) then Inl WrongNumberOfValues
              else decode_all (p_fields p) rawValues))
     }"

fun consistent_steps ::
  "(bytes \<Rightarrow> bytes) \<Rightarrow> bytes \<Rightarrow> nat \<Rightarrow> dump \<Rightarrow> proof_step list \<Rightarrow> bool option" where
  "consistent_steps sha path depth cursor [] = Some (dump_leaf cursor)"
| "consistent_steps sha path depth cursor (s # steps) =
     (if d_left cursor \<noteq> d_label (step_left s) \<or> d_right cursor \<noteq> d_label (step_right s) then Some False
      else if \<not> dump_consistent sha (step_left s) \<or> \<not> dump_consistent sha (step_right s) then Some False
      else do {
        b \<leftarrow> bit_at path depth;
        (if b then consistent_steps sha path (depth + 1) (step_right s) steps
         else consistent_steps sha path (depth + 1) (step_left s) steps)
      })"

definition Consistent :: "(bytes \<Rightarrow> bytes) \<Rightarrow> mproof \<Rightarrow> bool option" where
  "Consistent sha p =
     (if length (p_steps p) = 0 then Some False
      else if \<not> dump_consistent sha (p_root p) then Some False
      else consistent_steps sha (sha (p_key p)) 0 (p_root p) (p_steps p))"

text \<open>
  Serialisation goes through the protobuf package: its encoder and decoder are parameters.
\<close>

type_synonym wire_proof = "bytes \<times> dump \<times> proof_step list"

definition Serialize :: "(wire_proof \<Rightarrow> bytes) \<Rightarrow> mproof \<Rightarrow> bytes" where
  "Serialize pb_encode p = pb_encode (p_key p, p_root p, p_steps p)"

definition Deserialize ::
  "(bytes \<Rightarrow> 'e + wire_proof) \<Rightarrow> collection \<Rightarrow> bytes \<Rightarrow> 'e + mproof" where
  "Deserialize pb_decode c buffer =
     (case pb_decode buffer of
        Inl err \<Rightarrow> Inl err
      | Inr (k, r, steps) \<Rightarrow>
          Inr \<lparr>p_key = k, p_root = r, p_steps = steps, p_fields = coll_fields c\<rparr>)"

section \<open>Getter.Proof\<close>

text \<open>The cursor is an inner node whenever the loop body starts; the walk ends at a leaf.\<close>

fun proof_steps ::
  "store \<Rightarrow> bytes \<Rightarrow> nat \<Rightarrow> node \<Rightarrow> (coll_error + proof_step list) option" where
  "proof_steps st path depth (Leaf c b) = None"
| "proof_steps st path depth (Inner c b l r) =
     (if \<not> known (cell l) \<or> \<not> known (cell r) then Some (Inl UnknownSubtree)
      else do {
        let s = \<lparr>step_left = dumpNode st l, step_right = dumpNode st r\<rparr>;
        side \<leftarrow> bit_at path depth;
        rest \<leftarrow> (if side
           then (if node_leaf r then Some (Inr []) else proof_steps st path (depth + 1) r)
           else (if node_leaf l then Some (Inr []) else proof_steps st path (depth + 1) l));
        Some (case rest of Inl err \<Rightarrow> Inl err | Inr steps \<Rightarrow> Inr (s # steps))
      })"

definition Get_Proof :: "(bytes \<Rightarrow> bytes) \<Rightarrow> collection \<Rightarrow> bytes \<Rightarrow> (coll_error + mproof) option" where
  "Get_Proof sha c k =
     (if length k = 0 then Some (Inl NoKey)
      else if \<not> known (cell (root c)) then Some (Inl UnknownSubtree)
      else do {
        res \<leftarrow> proof_steps (arrays c) (sha k) 0 (root c);
        Some (case res of
            Inl err \<Rightarrow> Inl err
          | Inr steps \<Rightarrow>
              Inr \<lparr>p_key = k, p_root = dumpNode (arrays c) (root c), p_steps = steps,
                   p_fields = coll_fields c\<rparr>)
      })"

section \<open>Verify\<close>

text \<open>The loop over the steps; a cursor that has no children makes it panic.\<close>

fun verify_at ::
  "bytes \<Rightarrow> nat \<Rightarrow> proof_step list \<Rightarrow> store \<Rightarrow> node \<Rightarrow> (store \<times> node) option" where
  "verify_at path depth [] st n = Some (st, n)"
| "verify_at path depth (s # steps) st n =
     (case n of
        Leaf c b \<Rightarrow> None
      | Inner c b l r \<Rightarrow>
          (let (st1, l1) = (if \<not> known (cell l) then dump_to (step_left s) st l else (st, l));
               (st2, r1) = (if \<not> known (cell r) then dump_to (step_right s) st1 r else (st1, r))
           in do {
             side \<leftarrow> bit_at path depth;
             (if side
              then do { (st3, r2) \<leftarrow> verify_at path (depth + 1) steps st2 r1; Some (st3, Inner c b l1 r2) }
              else do { (st3, l2) \<leftarrow> verify_at path (depth + 1) steps st2 l1; Some (st3, Inner c b l2 r1) })
           }))"

definition Verify :: "(bytes \<Rightarrow> bytes) \<Rightarrow> collection \<Rightarrow> mproof \<Rightarrow> (bool \<times> collection) option" where
  "Verify sha c p =
     (if inconsistent (cell (root c)) then None
      else if d_label (p_root p) \<noteq> label (cell (root c)) then Some (False, c)
      else do {
        ok \<leftarrow> Consistent sha p;
        (if \<not> ok then Some (False, c)
         else (let (st1, n1) = (if \<not> known (cell (root c)) then dump_to (p_root p) (arrays c) (root c)
                                else (arrays c, root c))
               in do {
                 (st2, n2) \<leftarrow> verify_at (sha (p_key p)) 0 (p_steps p) st1 n1;
                 Some (True, c\<lparr>root := n2, arrays := st2\<rparr>)
               }))
      })"

end
