(* ===== verification/ProofCorrect.thy ===== *)
theory ProofCorrect
  imports Proofs Full
begin

text \<open>
  A lookup answers what the tree says; a proof made by a full collection is accepted and tells the
  truth (completeness); and a proof accepted against the root of a collection tells the truth,
  whoever made it, unless the hash function collides or yields the all-zero digest on the hashed
  nodes (soundness).
\<close>

section \<open>Lookup of a record\<close>

definition record_of :: "collection \<Rightarrow> bytes \<Rightarrow> bytes list option \<Rightarrow> coll_record" where
  "record_of c k a =
     \<lparr>rec_fields = coll_fields c, rec_field = 0, rec_query = [], rec_match = (a \<noteq> None),
      rec_key = k, rec_values = (case a of None \<Rightarrow> [] | Some vs \<Rightarrow> vs)\<rparr>"

lemma record_at_lookup:
  assumes "hash_ok sha"
  shows "tree_ok sha fs st pre n \<Longrightarrow>
    record_at c (sha k) k (length pre) n =
      Some (case lookup sha (arrays c) (length pre) k n of
          None \<Rightarrow> Inl UnknownSubtree | Some a \<Rightarrow> Inr (record_of c k a))"
proof (induction n arbitrary: pre rule: tree_induct)
  case (Leaf cl b)
  then show ?case by (auto simp: recordKeyMatch_def recordKeyMismatch_def record_of_def)
next
  case (Inner cl b l r)
  then have "bit_at (sha k) (length pre) = Some (path_of sha k ! length pre)"
    by (intro bit_at_path [OF assms]) simp
  then show ?case
    using Inner.IH(1) [of "pre @ [False]"] Inner.IH(2) [of "pre @ [True]"] Inner.prems
    by (auto simp del: bit_at_Some)
qed

lemma Get_Record_lookup:
  assumes "hash_ok sha" "coll_ok sha c" "k \<noteq> []"
  shows "Get_Record sha c k =
      Some (case lookup sha (arrays c) 0 k (root c) of
          None \<Rightarrow> Inl UnknownSubtree | Some a \<Rightarrow> Inr (record_of c k a))"
  using assms record_at_lookup [OF assms(1), of "coll_fields c" "arrays c" "[]" "root c" c k]
  by (simp add: Get_Record_def coll_ok_def good_def)

lemma full_lookup:
  assumes "hash_ok sha" "full sha c" "k \<noteq> []"
  shows "lookup sha (arrays c) 0 k (root c) = Some (kv c k)"
proof -
  obtain a where a: "lookup sha (arrays c) 0 k (root c) = Some a"
    using lookup_known [of "root c"] assms(2) unfolding full_def by blast
  then have "kv c k = a"
    using lookup_contents [OF assms(1,3), of "coll_fields c" "arrays c" "[]" "root c" a] assms(2)
    by (simp add: full_def coll_ok_def good_def kv_def)
  with a show ?thesis by simp
qed

lemma decode_all_total:
  "list_all2 decodable fs raws \<Longrightarrow> \<exists>vs. decode_all fs raws = Inr vs \<and> length vs = length fs"
  by (induction fs raws rule: decode_all.induct) (auto simp: decodable_def)

section \<open>The dumps of a tree\<close>

text \<open>The dump a proof ends at.\<close>

fun final_dump :: "(bytes \<Rightarrow> bytes) \<Rightarrow> bytes \<Rightarrow> nat \<Rightarrow> dump \<Rightarrow> proof_step list \<Rightarrow> dump" where
  "final_dump sha k d cursor [] = cursor"
| "final_dump sha k d cursor (s # steps) =
     final_dump sha k (d + 1) (step_side (path_of sha k ! d) s) steps"

lemma final_dump_last:
  "steps \<noteq> [] \<Longrightarrow> final_dump sha k d cursor steps =
     step_side (path_of sha k ! (d + length steps - 1)) (last steps)"
  by (induction steps arbitrary: d cursor) auto

definition dump_answer :: "bytes \<Rightarrow> dump \<Rightarrow> bytes list option" where
  "dump_answer k d = (if d_key d = k then Some (d_values d) else None)"

lemma Match_answer:
  assumes "hash_ok sha" "p_steps p \<noteq> []" "length (p_steps p) \<le> 8 * sha_size"
  shows "Match sha p = Some (dump_answer (p_key p) (final_dump sha (p_key p) 0 (p_root p) (p_steps p)) \<noteq> None)"
    and "RawValues sha p = Some (case dump_answer (p_key p) (final_dump sha (p_key p) 0 (p_root p) (p_steps p)) of
        None \<Rightarrow> Inl NoMatch | Some vs \<Rightarrow> Inr vs)"
proof -
  have "length (p_steps p) - 1 < 8 * sha_size" using assms(2,3) by (cases "p_steps p") auto
  then have "bit_at (sha (p_key p)) (length (p_steps p) - 1)
      = Some (path_of sha (p_key p) ! (length (p_steps p) - 1))"
    by (rule bit_at_path [OF assms(1)])
  then show "Match sha p = Some (dump_answer (p_key p) (final_dump sha (p_key p) 0 (p_root p) (p_steps p)) \<noteq> None)"
    "RawValues sha p = Some (case dump_answer (p_key p) (final_dump sha (p_key p) 0 (p_root p) (p_steps p)) of
        None \<Rightarrow> Inl NoMatch | Some vs \<Rightarrow> Inr vs)"
    using assms(2)
    by (auto simp: Match_def RawValues_def Let_def final_dump_last dump_answer_def step_side_def
        last_conv_nth simp del: bit_at_Some)
qed

text \<open>What the hash function must not do on the hashed nodes.\<close>

definition secure_on :: "(bytes \<Rightarrow> bytes) \<Rightarrow> bytes set \<Rightarrow> bool" where
  "secure_on sha A \<longleftrightarrow> inj_on sha A \<and> zero_digest \<notin> sha ` A"

lemma label_nonzero:
  assumes "secure_on sha A" "hashed st n \<subseteq> A" "tree_ok sha fs st pre n" "clean n" "known (cell n)"
  shows "label (cell n) \<noteq> zero_digest"
  using label_preimage [OF assms(3-5)] assms(1,2)
  by (simp add: secure_on_def toHash_hash_def) (metis image_eqI subsetD)

lemma dump_toHash_node:
  assumes "node_leaf n \<or> label (cell (left n)) \<noteq> zero_digest"
  shows "dump_toHash (dumpNode st n) = preimage st n"
    and "dump_leaf (dumpNode st n) = node_leaf n"
  using assms by (cases n; auto simp: dump_toHash_def dumpNode_def dump_leaf_def)+

lemma dumpNode_consistent:
  assumes "secure_on sha A" "hashed st n \<subseteq> A" "tree_ok sha fs st pre n" "clean n" "all_known n"
  shows "dump_consistent sha (dumpNode st n)" "dump_leaf (dumpNode st n) = node_leaf n"
proof -
  have nz: "node_leaf n \<or> label (cell (left n)) \<noteq> zero_digest"
  proof (cases n)
    case (Inner c b l r)
    then show ?thesis
      using label_nonzero [OF assms(1), of st l fs "pre @ [False]"] assms(2-5)
      by (simp add: all_known_cell)
  qed simp
  have lab: "d_label (dumpNode st n) = label (cell n)" by (cases n) (auto simp: dumpNode_def)
  show "dump_consistent sha (dumpNode st n)" "dump_leaf (dumpNode st n) = node_leaf n"
    using dump_toHash_node [OF nz, of st] label_preimage [OF assms(3,4)] all_known_cell [OF assms(5)]
    by (simp_all add: dump_consistent_def lab)
qed

section \<open>Completeness\<close>

lemma d_label_dumpNode [simp]: "d_label (dumpNode st n) = label (cell n)"
  by (cases n) (auto simp: dumpNode_def)

lemma proof_steps_complete:
  assumes hash: "hash_ok sha" and sec: "secure_on sha A"
  shows "tree_ok sha fs st pre n \<Longrightarrow> clean n \<Longrightarrow> all_known n \<Longrightarrow> hashed st n \<subseteq> A \<Longrightarrow> \<not> node_leaf n \<Longrightarrow>
    \<exists>steps. proof_steps st (sha k) (length pre) n = Some (Inr steps) \<and> steps \<noteq> [] \<and>
      length pre + length steps \<le> 8 * sha_size \<and>
      consistent_steps sha (sha k) (length pre) (dumpNode st n) steps = Some True \<and>
      lookup sha st (length pre) k n =
        Some (dump_answer k (final_dump sha k (length pre) (dumpNode st n) steps))"
proof (induction n arbitrary: pre rule: tree_induct)
  case (Inner c b l r)
  have bit: "bit_at (sha k) (length pre) = Some (path_of sha k ! length pre)"
    using Inner.prems(1) by (intro bit_at_path [OF hash]) simp
  have sub: "tree_ok sha fs st (pre @ [False]) l" "tree_ok sha fs st (pre @ [True]) r"
    "clean l" "clean r" "all_known l" "all_known r" "hashed st l \<subseteq> A" "hashed st r \<subseteq> A"
    using Inner.prems by auto
  have kn: "known (cell l)" "known (cell r)" using sub all_known_cell by auto
  note dl = dumpNode_consistent [OF sec sub(7,1,3,5)] and dr = dumpNode_consistent [OF sec sub(8,2,4,6)]
  define step where "step = path_of sha k ! length pre"
  define ch where "ch = (if step then r else l)"
  have ch: "dump_leaf (dumpNode st ch) = node_leaf ch" "known (cell ch)"
    "tree_ok sha fs st (pre @ [step]) ch"
    using dl dr kn sub by (auto simp: ch_def)
  have look: "lookup sha st (length pre) k (Inner c b l r) = lookup sha st (Suc (length pre)) k ch"
    by (simp add: ch_def step_def)
  have len: "length pre < 8 * sha_size" using Inner.prems(1) by simp
  obtain steps where steps:
    "(if node_leaf ch then Some (Inr []) else proof_steps st (sha k) (Suc (length pre)) ch) = Some (Inr steps)"
    "Suc (length pre) + length steps \<le> 8 * sha_size"
    "consistent_steps sha (sha k) (Suc (length pre)) (dumpNode st ch) steps = Some True"
    "lookup sha st (Suc (length pre)) k ch =
      Some (dump_answer k (final_dump sha k (Suc (length pre)) (dumpNode st ch) steps))"
  proof (cases "node_leaf ch")
    case True
    then obtain c2 b2 where "ch = Leaf c2 b2" by (cases ch) auto
    with True ch len show ?thesis
      by (intro that [of "[]"]) (auto simp: dump_answer_def dumpNode_def)
  next
    case False
    have "\<exists>steps. proof_steps st (sha k) (length (pre @ [step])) ch = Some (Inr steps) \<and> steps \<noteq> [] \<and>
      length (pre @ [step]) + length steps \<le> 8 * sha_size \<and>
      consistent_steps sha (sha k) (length (pre @ [step])) (dumpNode st ch) steps = Some True \<and>
      lookup sha st (length (pre @ [step])) k ch =
        Some (dump_answer k (final_dump sha k (length (pre @ [step])) (dumpNode st ch) steps))"
      using Inner.IH(1) [of "pre @ [step]"] Inner.IH(2) [of "pre @ [step]"] sub False
      by (cases step) (auto simp: ch_def)
    with False that show ?thesis by auto
  qed
  let ?s = "\<lparr>step_left = dumpNode st l, step_right = dumpNode st r\<rparr>"
  have side: "step_side step ?s = dumpNode st ch" by (simp add: step_side_def ch_def)
  have "proof_steps st (sha k) (length pre) (Inner c b l r) = Some (Inr (?s # steps))"
    using steps(1) kn bit by (cases step) (auto simp: step_def [symmetric] ch_def simp del: bit_at_Some)
  moreover have "consistent_steps sha (sha k) (length pre) (dumpNode st (Inner c b l r)) (?s # steps) = Some True"
    using steps(3) bit dl dr side
    by (cases step) (auto simp: step_def [symmetric] dumpNode_def [of st "Inner c b l r"] step_side_def ch_def
        simp del: bit_at_Some)
  moreover have "final_dump sha k (length pre) (dumpNode st (Inner c b l r)) (?s # steps) =
      final_dump sha k (Suc (length pre)) (dumpNode st ch) steps"
    using side by (simp add: step_def)
  ultimately show ?case using steps(2,4) look by auto
qed simp

lemma Get_Proof_complete:
  assumes "hash_ok sha" "full sha c" "k \<noteq> []" "secure_on sha (hashed (arrays c) (root c))"
  obtains p where "Get_Proof sha c k = Some (Inr p)" "p_key p = k" "Consistent sha p = Some True"
    "d_label (p_root p) = tree_label c" "Match sha p = Some (kv c k \<noteq> None)"
    "RawValues sha p = Some (case kv c k of None \<Rightarrow> Inl NoMatch | Some vs \<Rightarrow> Inr vs)"
    "p_fields p = coll_fields c"
proof -
  have f: "tree_ok sha (coll_fields c) (arrays c) [] (root c)" "clean (root c)" "all_known (root c)"
    "\<not> node_leaf (root c)" "known (cell (root c))"
    using assms(2) all_known_cell by (auto simp: full_def coll_ok_def good_def)
  obtain steps where s: "proof_steps (arrays c) (sha k) 0 (root c) = Some (Inr steps)" "steps \<noteq> []"
    "length steps \<le> 8 * sha_size"
    "consistent_steps sha (sha k) 0 (dumpNode (arrays c) (root c)) steps = Some True"
    "lookup sha (arrays c) 0 k (root c) =
      Some (dump_answer k (final_dump sha k 0 (dumpNode (arrays c) (root c)) steps))"
    using proof_steps_complete [OF assms(1,4) f(1-3) order_refl f(4), of k] by auto
  define p where "p = \<lparr>p_key = k, p_root = dumpNode (arrays c) (root c), p_steps = steps,
    p_fields = coll_fields c\<rparr>"
  have ans: "kv c k = dump_answer (p_key p) (final_dump sha (p_key p) 0 (p_root p) (p_steps p))"
    using s(5) full_lookup [OF assms(1-3)] by (simp add: p_def)
  have ps: "p_steps p \<noteq> []" "length (p_steps p) \<le> 8 * sha_size" using s by (simp_all add: p_def)
  show ?thesis
    using Match_answer [OF assms(1) ps] dumpNode_consistent [OF assms(4) order_refl f(1-3)] s f(5) assms(3)
    unfolding ans [symmetric]
    by (intro that [of p]) (auto simp: p_def Get_Proof_def Consistent_def tree_label_def)
qed

section \<open>Soundness\<close>

definition proof_preimages :: "mproof \<Rightarrow> bytes set" where
  "proof_preimages p =
     encode_toHash ` dump_toHash `
       insert (p_root p) (step_left ` set (p_steps p) \<union> step_right ` set (p_steps p))"

lemma consistent_dump_matches:
  assumes sec: "secure_on sha A" and n: "hashed st n \<subseteq> A" "tree_ok sha fs st pre n" "clean n" "known (cell n)"
    and d: "dump_consistent sha d" "encode_toHash (dump_toHash d) \<in> A" "d_label d = label (cell n)"
  shows "dump_toHash d = preimage st n"
  using label_preimage [OF n(2-4)] d sec n(1)
  by (intro toHash_hash_eqD [of sha A]) (auto simp: secure_on_def dump_consistent_def)

lemma consistent_nonzero:
  "secure_on sha A \<Longrightarrow> dump_consistent sha d \<Longrightarrow> encode_toHash (dump_toHash d) \<in> A \<Longrightarrow> d_label d \<noteq> zero_digest"
  by (simp add: secure_on_def dump_consistent_def toHash_hash_def) (metis image_eqI)

lemma consistent_steps_sound:
  assumes hash: "hash_ok sha" and sec: "secure_on sha A"
  shows "tree_ok sha fs st pre n \<Longrightarrow> clean n \<Longrightarrow> hashed st n \<subseteq> A \<Longrightarrow>
    d_label cursor = label (cell n) \<Longrightarrow> dump_consistent sha cursor \<Longrightarrow> encode_toHash (dump_toHash cursor) \<in> A \<Longrightarrow>
    (\<And>s. s \<in> set steps \<Longrightarrow> encode_toHash (dump_toHash (step_left s)) \<in> A \<and>
        encode_toHash (dump_toHash (step_right s)) \<in> A) \<Longrightarrow>
    consistent_steps sha (sha k) (length pre) cursor steps = Some True \<Longrightarrow>
    lookup sha st (length pre) k n = Some a \<Longrightarrow> length pre \<le> 8 * sha_size \<Longrightarrow>
    a = dump_answer k (final_dump sha k (length pre) cursor steps) \<and> length pre + length steps \<le> 8 * sha_size"
proof (induction steps arbitrary: cursor n pre)
  case Nil
  have kn: "known (cell n)" using lookup_Some_known Nil.prems(1,9) by blast
  have pre: "dump_toHash cursor = preimage st n"
    using consistent_dump_matches [OF sec Nil.prems(3,1,2) kn Nil.prems(5,6,4)] .
  have "dump_leaf cursor" using Nil.prems(8) by simp
  with pre obtain c b where n: "n = Leaf c b" by (cases n) (auto simp: dump_toHash_def)
  with pre \<open>dump_leaf cursor\<close> Nil.prems(9,10) kn show ?case
    by (auto simp: dump_toHash_def dump_answer_def split: if_splits)
next
  case (Cons s steps)
  have kn: "known (cell n)" using lookup_Some_known Cons.prems(1,9) by blast
  have pre: "dump_toHash cursor = preimage st n"
    using consistent_dump_matches [OF sec Cons.prems(3,1,2) kn Cons.prems(5,6,4)] .
  have lab: "d_left cursor = d_label (step_left s)" "d_right cursor = d_label (step_right s)"
    and con: "dump_consistent sha (step_left s)" "dump_consistent sha (step_right s)"
    using Cons.prems(8) by (auto split: if_splits)
  have A: "encode_toHash (dump_toHash (step_left s)) \<in> A" "encode_toHash (dump_toHash (step_right s)) \<in> A"
    using Cons.prems(7) by auto
  have "\<not> dump_leaf cursor"
    using consistent_nonzero [OF sec con(1) A(1)] lab by (simp add: dump_leaf_def)
  with pre obtain c b l r where n: "n = Inner c b l r" by (cases n) (auto simp: dump_toHash_def)
  have kids: "d_left cursor = label (cell l)" "d_right cursor = label (cell r)"
    using pre n \<open>\<not> dump_leaf cursor\<close> by (auto simp: dump_toHash_def)
  have bit: "bit_at (sha k) (length pre) = Some (path_of sha k ! length pre)"
    using Cons.prems(1) n by (intro bit_at_path [OF hash]) simp
  define step where "step = path_of sha k ! length pre"
  define ch where "ch = (if step then r else l)"
  have "a = dump_answer k (final_dump sha k (length (pre @ [step])) (step_side step s) steps) \<and>
      length (pre @ [step]) + length steps \<le> 8 * sha_size"
  proof (rule Cons.IH)
    show "tree_ok sha fs st (pre @ [step]) ch" "clean ch" "hashed st ch \<subseteq> A"
      using Cons.prems(1-3) n by (auto simp: ch_def split: if_splits)
    show "d_label (step_side step s) = label (cell ch)" "dump_consistent sha (step_side step s)"
      "encode_toHash (dump_toHash (step_side step s)) \<in> A"
      using kids lab con A by (auto simp: step_side_def ch_def)
    show "consistent_steps sha (sha k) (length (pre @ [step])) (step_side step s) steps = Some True"
      using Cons.prems(8) bit lab con by (auto simp: step_def step_side_def simp del: bit_at_Some split: if_splits)
    show "lookup sha st (length (pre @ [step])) k ch = Some a"
      using Cons.prems(9) n by (auto simp: ch_def step_def split: if_splits)
    show "length (pre @ [step]) \<le> 8 * sha_size" using Cons.prems(1) n by simp
  qed (use Cons.prems(7) in auto)
  then show ?case by (simp add: step_def)
qed

lemma proof_sound:
  assumes "hash_ok sha" "full sha c" "p_key p \<noteq> []"
    and "secure_on sha (hashed (arrays c) (root c) \<union> proof_preimages p)"
    and "Consistent sha p = Some True" "d_label (p_root p) = tree_label c"
  shows "Match sha p = Some (kv c (p_key p) \<noteq> None) \<and>
    RawValues sha p = Some (case kv c (p_key p) of None \<Rightarrow> Inl NoMatch | Some vs \<Rightarrow> Inr vs)"
proof -
  have f: "tree_ok sha (coll_fields c) (arrays c) [] (root c)" "clean (root c)"
    using assms(2) by (auto simp: full_def coll_ok_def good_def)
  have p: "p_steps p \<noteq> []" "dump_consistent sha (p_root p)"
    "consistent_steps sha (sha (p_key p)) (length ([] :: bool list)) (p_root p) (p_steps p) = Some True"
    using assms(5) by (auto simp: Consistent_def split: if_splits)
  have "kv c (p_key p) =
      dump_answer (p_key p) (final_dump sha (p_key p) (length ([] :: bool list)) (p_root p) (p_steps p)) \<and>
      length ([] :: bool list) + length (p_steps p) \<le> 8 * sha_size"
    using full_lookup [OF assms(1-3)] assms(6) p(2)
    by (intro consistent_steps_sound [OF assms(1,4) f _ _ _ _ _ p(3)])
      (auto simp: proof_preimages_def tree_label_def)
  then show ?thesis using Match_answer [OF assms(1) p(1)] by simp
qed

end
