(* ===== verification/Examples.thy ===== *)
theory Examples
  imports Histories ProofCorrect
begin

text \<open>
  A concrete database the witnesses of the properties are evaluated on: a stand-in hash function
  with 32-byte digests (injective on short inputs), a database with a stake and a data field, and
  the database after one key has been added.
\<close>

definition demo_sha :: "bytes \<Rightarrow> bytes" where
  "demo_sha x = take sha_size (x @ replicate sha_size 0)"

definition demo_fields :: "field list" where
  "demo_fields = [Stake64, Data]"

definition demo_db :: collection where
  "demo_db = the (New demo_sha demo_fields)"

definition demo_db1 :: collection where
  "demo_db1 = snd (the (Add demo_sha demo_db [1] [GUint64 5, GBytes [7]]))"

text \<open>A second key is added and removed again.\<close>

definition demo_db2 :: collection where
  "demo_db2 = snd (the (run_writes demo_sha demo_db1 [WAdd [2] [GUint64 3, GBytes [4]], WRemove [2]]))"

lemma demo_hash [simp]: "hash_ok demo_sha"
  by (auto simp: hash_ok_def demo_sha_def min_def)

lemma demo_fields_ok [simp]: "fields_ok demo_fields"
  using data_field.merkle_field_axioms stake_field.merkle_field_axioms
  by (simp add: fields_ok_def demo_fields_def)

lemma demo_db: "New demo_sha demo_fields = Some demo_db" "full demo_sha demo_db" "kv demo_db = Map.empty"
  "coll_fields demo_db = demo_fields"
  by (rule New_full [OF demo_hash demo_fields_ok]; simp add: demo_db_def)+

lemma demo_encode: "encode_all demo_fields [GUint64 v, GBytes b] = Some [put_uint64 v, b]"
  by (simp add: demo_fields_def Stake64_def Stake64_Encode_def Data_def Data_Encode_def)

lemma demo_encodable: "encodable demo_fields [GUint64 v, GSame]"
  by (simp add: encodable_def demo_fields_def Stake64_def Stake64_Encode_def)

lemma demo_keys: "inj_on demo_sha {[1], [2], [3]}"
  by (simp add: demo_sha_def sha_size_def)

lemma demo_write_ok: "k \<in> K \<Longrightarrow> write_ok K demo_fields (WAdd k [GUint64 v, GBytes b])"
  by (simp add: demo_encode) (simp add: demo_fields_def)

lemma demo_kept: "kept demo_sha {[1], [2], [3]} demo_db"
  using demo_db demo_keys by (simp add: kept_def full_whole)

lemma demo_db1: "full demo_sha demo_db1" "kv demo_db1 = [[1] \<mapsto> [put_uint64 5, [7]]]"
  "coll_fields demo_db1 = demo_fields"
  and demo_kept1: "kept demo_sha {[1], [2], [3]} demo_db1"
proof -
  obtain c' where "Add demo_sha demo_db [1] [GUint64 5, GBytes [7]] = Some (None, c')"
    "kept demo_sha {[1], [2], [3]} c'" "same_config demo_db c'" "ongoing c' = ongoing demo_db"
    "kv c' = [[1] \<mapsto> [put_uint64 5, [7]]]"
    using run_write_spec [OF demo_kept, of "WAdd [1] [GUint64 5, GBytes [7]]"] demo_write_ok
    by (simp add: demo_db demo_encode del: write_ok.simps) blast
  then show "full demo_sha demo_db1" "kv demo_db1 = [[1] \<mapsto> [put_uint64 5, [7]]]"
    "coll_fields demo_db1 = demo_fields" "kept demo_sha {[1], [2], [3]} demo_db1"
    using demo_db by (auto simp: demo_db1_def same_config_def full_whole kept_def)
qed

lemma demo_db2: "full demo_sha demo_db2" "kv demo_db2 = kv demo_db1" "coll_fields demo_db2 = demo_fields"
proof -
  let ?ws = "[WAdd [2] [GUint64 3, GBytes [4]], WRemove [2]]"
  have "\<forall>w \<in> set ?ws. write_ok {[1], [2], [3]} (coll_fields demo_db1) w"
    using demo_write_ok by (simp add: demo_db1 del: write_ok.simps) simp
  from run_writes_spec [OF demo_kept1 this] obtain c where
    "run_writes demo_sha demo_db1 ?ws = Some (fst (spec_writes demo_fields (kv demo_db1) ?ws), c)"
    "kept demo_sha {[1], [2], [3]} c" "same_config demo_db1 c" "ongoing c = ongoing demo_db1"
    "kv c = snd (spec_writes demo_fields (kv demo_db1) ?ws)"
    by (auto simp: demo_db1)
  moreover have "snd (spec_writes demo_fields (kv demo_db1) ?ws) = kv demo_db1"
    by (simp add: demo_db1 demo_encode Let_def fun_upd_twist)
  ultimately show "full demo_sha demo_db2" "kv demo_db2 = kv demo_db1" "coll_fields demo_db2 = demo_fields"
    using demo_db1 by (auto simp: demo_db2_def same_config_def full_whole kept_def)
qed

lemma demo_no_collision: "no_collision demo_sha demo_db1 [k]"
  by (auto simp: no_collision_def demo_db1 demo_sha_def sha_size_def)

text \<open>The hashed nodes of the two databases: none of them collide.\<close>

definition demo_preimages :: "bytes list" where
  "demo_preimages =
     (case root demo_db1 of Inner c b l r \<Rightarrow>
        [encode_toHash (preimage (arrays demo_db1) (root demo_db1)), encode_toHash (preimage (arrays demo_db1) l),
         encode_toHash (preimage (arrays demo_db1) r)])"

lemma demo_hashed: "hashed (arrays demo_db1) (root demo_db1) = set demo_preimages"
  "hashed (arrays demo_db2) (root demo_db2) = set demo_preimages"
  by code_simp+

lemma demo_secure: "secure_on demo_sha (hashed (arrays demo_db1) (root demo_db1))"
proof -
  have "distinct (map demo_sha demo_preimages)" "zero_digest \<notin> set (map demo_sha demo_preimages)"
    by code_simp+
  then show ?thesis unfolding demo_hashed by (simp add: secure_on_def distinct_map)
qed

end
