(* ===== verification/NavigateCorrect.thy ===== *)
theory NavigateCorrect
  imports ProofCorrect
begin

text \<open>
  Navigation along a stake field. The leaves of the tree, from left to right, divide the numbers below
  the total stake among them, each its share; navigating with a number finds the leaf whose share it is
  in. So a number drawn at random finds every key with probability proportional to its stake. The total
  must fit in 64 bits: the sums in the inner nodes wrap around otherwise.
\<close>

section \<open>Dividing numbers among leaves\<close>

text \<open>The keys and stakes of the leaves, from left to right; and the leaf a number falls on, with what is
  left of the number.\<close>

fun leaf_stakes :: "store \<Rightarrow> nat \<Rightarrow> node \<Rightarrow> (bytes \<times> nat) list" where
  "leaf_stakes st j (Leaf c b) = [(key c, unat (get_uint64 (read st (vals c) ! j)))]"
| "leaf_stakes st j (Inner c b l r) = leaf_stakes st j l @ leaf_stakes st j r"

abbreviation total :: "(bytes \<times> nat) list \<Rightarrow> nat" where
  "total xs \<equiv> sum_list (map snd xs)"

fun pick :: "nat \<Rightarrow> (bytes \<times> nat) list \<Rightarrow> bytes \<times> nat" where
  "pick q [] = ([], q)"
| "pick q ((k, s) # xs) = (if q < s then (k, q) else pick (q - s) xs)"

lemma pick_append: "pick q (xs @ ys) = (if q < total xs then pick q xs else pick (q - total xs) ys)"
  by (induction q xs rule: pick.induct) auto

text \<open>Every key gets as many numbers as it has stake.\<close>

lemma card_pick:
  "card {q. q < total xs \<and> fst (pick q xs) = k} = total (filter (\<lambda>p. fst p = k) xs)"
proof (induction xs)
  case (Cons p xs)
  obtain k' s where p: "p = (k', s)" by (cases p)
  let ?A = "{q. q < s \<and> k' = k}" and ?B = "{q. q < total xs \<and> fst (pick q xs) = k}"
  have "{q. q < total (p # xs) \<and> fst (pick q (p # xs)) = k} = ?A \<union> (+) s ` ?B"
    (is "?L = ?R")
  proof
    show "?L \<subseteq> ?R"
    proof
      fix q assume q: "q \<in> ?L"
      show "q \<in> ?R"
      proof (cases "q < s")
        case False
        then have "q = s + (q - s)" "q - s \<in> ?B" using q p by auto
        then show ?thesis by blast
      qed (use q p in auto)
    qed
  qed (auto simp: p)
  moreover have "?A \<inter> (+) s ` ?B = {}" by auto
  moreover have "finite ?A" "finite ?B" by simp_all
  moreover have "card ((+) s ` ?B) = card ?B" by (rule card_image) simp
  moreover have "card ?A = (if k' = k then s else 0)" by auto
  ultimately show ?case using Cons.IH p by (simp add: card_Un_disjoint)
qed simp

section \<open>The sums in the tree\<close>

lemma parent_values_nth:
  "parent_values fs ls rs = Some (None, vs) \<Longrightarrow> j < length fs \<Longrightarrow>
     j < length ls \<and> j < length rs \<and> j < length vs \<and> Parent (fs ! j) (ls ! j) (rs ! j) = Inr (vs ! j)"
proof (induction fs ls rs arbitrary: j vs rule: parent_values.induct)
  case (2 F fs l ls r rs)
  then show ?case by (cases j) (auto simp: go_simps split: sum.splits)
qed auto

lemma tree_stakes:
  "tree_ok sha fs st pre n \<Longrightarrow> clean n \<Longrightarrow> all_known n \<Longrightarrow> j < length fs \<Longrightarrow> fs ! j = Stake64 \<Longrightarrow>
   total (leaf_stakes st j n) < 2 ^ 64 \<Longrightarrow>
   j < length (read st (vals (cell n))) \<and>
   read st (vals (cell n)) ! j = put_uint64 (of_nat (total (leaf_stakes st j n)))"
proof (induction n arbitrary: pre rule: tree_induct)
  case (Leaf c b)
  then have "values_ok fs (read st (vals c))" by simp
  then have "j < length (read st (vals c))" "decodable Stake64 (read st (vals c) ! j)"
    using Leaf.prems(4,5) by (auto simp: values_ok_def list_all2_conv_all_nth)
  then show ?case by simp
next
  case (Inner c b l r)
  have l: "read st (vals (cell l)) ! j = put_uint64 (of_nat (total (leaf_stakes st j l)))"
    using Inner.IH(1) [of "pre @ [False]"] Inner.prems by auto
  have r: "read st (vals (cell r)) ! j = put_uint64 (of_nat (total (leaf_stakes st j r)))"
    using Inner.IH(2) [of "pre @ [True]"] Inner.prems by auto
  have "parent_values fs (read st (vals (cell l))) (read st (vals (cell r))) = Some (None, read st (vals c))"
    using Inner.prems all_known_cell by auto
  from parent_values_nth [OF this Inner.prems(4)] show ?case
    using Stake64_Parent_put l r Inner.prems(5) by auto
qed

section \<open>Navigation\<close>

lemma navigate_leaf:
  assumes hash: "hash_ok sha" and j: "j < length (coll_fields c)" "coll_fields c ! j = Stake64"
  shows "tree_ok sha (coll_fields c) (arrays c) pre n \<Longrightarrow> clean n \<Longrightarrow> all_known n \<Longrightarrow>
    total (leaf_stakes (arrays c) j n) < 2 ^ 64 \<Longrightarrow> unat q < total (leaf_stakes (arrays c) j n) \<Longrightarrow>
    \<exists>r rest. navigate_at c j (put_uint64 q) n = Some (Inr r, put_uint64 rest) \<and>
      (rec_key r, unat rest) = pick (unat q) (leaf_stakes (arrays c) j n) \<and> rec_match r \<and>
      contents (arrays c) n (rec_key r) = Some (rec_values r)"
proof (induction n arbitrary: pre q rule: tree_induct)
  case (Leaf cl b)
  have "key cl \<noteq> []"
  proof
    assume "key cl = []"
    then have "read (arrays c) (vals cl) ! j = Placeholder Stake64"
      using Leaf.prems(1,3) j by simp
    then show False using Leaf.prems(5) by (simp add: Stake64_def Stake64_Placeholder_def)
  qed
  with Leaf.prems show ?case by (auto simp: recordQueryMatch_def)
next
  case (Inner cl b l r)
  let ?st = "arrays c" and ?L = "total (leaf_stakes (arrays c) j l)" and ?R = "total (leaf_stakes (arrays c) j r)"
  have ok: "tree_ok sha (coll_fields c) ?st (pre @ [False]) l" "tree_ok sha (coll_fields c) ?st (pre @ [True]) r"
    "clean l" "clean r" "all_known l" "all_known r" "known (cell l)" "known (cell r)" "known cl"
    using Inner.prems all_known_cell by auto
  have sum: "?L + ?R < 2 ^ 64" "unat q < ?L + ?R" using Inner.prems by simp_all
  have v: "j < length (read ?st (vals (cell l)))" "read ?st (vals (cell l)) ! j = put_uint64 (of_nat ?L)"
    "j < length (read ?st (vals (cell r)))" "read ?st (vals (cell r)) ! j = put_uint64 (of_nat ?R)"
    "j < length (read ?st (vals cl))" "read ?st (vals cl) ! j = put_uint64 (of_nat (?L + ?R))"
    using tree_stakes [OF ok(1,3,5) j] tree_stakes [OF ok(2,4,6) j]
      tree_stakes [OF Inner.prems(1-3) j Inner.prems(4)] sum by auto
  have u: "unat (of_nat ?L :: 64 word) = ?L" "unat (of_nat (?L + ?R) :: 64 word) = ?L + ?R"
    using sum by (simp_all add: unat_of_nat take_bit_nat_eq_self del: of_nat_add)
  have step: "navigate_at c j (put_uint64 q) (Inner cl b l r) =
      (if unat q < ?L then navigate_at c j (put_uint64 q) l else navigate_at c j (put_uint64 (q - of_nat ?L)) r)"
    using ok v j sum u by (simp add: slice_get_def Stake64_Navigate_put word_le_nat_alt del: of_nat_add)
  have inner: "tree_ok sha (coll_fields c) ?st pre (Inner cl b l r)" by (rule Inner.prems(1))
  show ?case
  proof (cases "unat q < ?L")
    case True
    then obtain rec rest where "navigate_at c j (put_uint64 q) l = Some (Inr rec, put_uint64 rest)"
      "(rec_key rec, unat rest) = pick (unat q) (leaf_stakes ?st j l)" "rec_match rec"
      "contents ?st l (rec_key rec) = Some (rec_values rec)"
      using Inner.IH(1) [OF ok(1,3,5), of q] sum by auto
    moreover from this(4) have "contents ?st (Inner cl b l r) (rec_key rec) = Some (rec_values rec)"
      using contents_side(1) [OF hash inner, of "rec_key rec"] contents_Inner_at [OF hash inner, of "rec_key rec"] by auto
    ultimately show ?thesis
      using True step by (intro exI [of _ rec] exI [of _ rest]) (simp add: pick_append del: navigate_at.simps)
  next
    case False
    have uq: "unat (q - of_nat ?L) = unat q - ?L"
      using False u by (simp add: unat_sub word_le_nat_alt)
    have lt: "unat (q - of_nat ?L) < ?R" using uq sum(2) False by linarith
    obtain rec rest where "navigate_at c j (put_uint64 (q - of_nat ?L)) r = Some (Inr rec, put_uint64 rest)"
      "(rec_key rec, unat rest) = pick (unat q - ?L) (leaf_stakes ?st j r)" "rec_match rec"
      "contents ?st r (rec_key rec) = Some (rec_values rec)"
      using Inner.IH(2) [OF ok(2,4,6) _ lt] sum(1) uq by auto
    moreover from this(4) have "contents ?st (Inner cl b l r) (rec_key rec) = Some (rec_values rec)"
      by (simp add: map_add_Some_iff)
    ultimately show ?thesis
      using False step by (intro exI [of _ rec] exI [of _ rest]) (simp add: pick_append del: navigate_at.simps)
  qed
qed

section \<open>Shares\<close>

lemma key_share:
  assumes hash: "hash_ok sha" and k: "k \<noteq> []"
  shows "tree_ok sha fs st pre n \<Longrightarrow> all_known n \<Longrightarrow>
    total (filter (\<lambda>p. fst p = k) (leaf_stakes st j n)) =
      (case contents st n k of None \<Rightarrow> 0 | Some vs \<Rightarrow> unat (get_uint64 (vs ! j)))"
proof (induction n arbitrary: pre rule: tree_induct)
  case (Leaf c b)
  then show ?case using k by auto
next
  case (Inner c b l r)
  have "total (filter (\<lambda>p. fst p = k) (leaf_stakes st j l)) =
      (case contents st l k of None \<Rightarrow> 0 | Some vs \<Rightarrow> unat (get_uint64 (vs ! j)))"
    "total (filter (\<lambda>p. fst p = k) (leaf_stakes st j r)) =
      (case contents st r k of None \<Rightarrow> 0 | Some vs \<Rightarrow> unat (get_uint64 (vs ! j)))"
    using Inner.IH(1) [of "pre @ [False]"] Inner.IH(2) [of "pre @ [True]"] Inner.prems by simp_all
  then show ?case
    using contents_side [OF hash Inner.prems(1), of k] contents_Inner_at [OF hash Inner.prems(1), of k]
    by (cases "path_of sha k ! length pre") (simp_all del: contents.simps)
qed

definition stake_at :: "collection \<Rightarrow> nat \<Rightarrow> bytes \<Rightarrow> nat" where
  "stake_at c j k = (case kv c k of None \<Rightarrow> 0 | Some vs \<Rightarrow> unat (get_uint64 (vs ! j)))"

definition total_stake :: "collection \<Rightarrow> nat \<Rightarrow> nat" where
  "total_stake c j = (\<Sum>k \<in> dom (kv c). stake_at c j k)"

lemma total_leaf_stakes:
  assumes hash: "hash_ok sha" and j: "j < length fs" "fs ! j = Stake64"
  shows "tree_ok sha fs st pre n \<Longrightarrow> all_known n \<Longrightarrow>
    total (leaf_stakes st j n) =
      (\<Sum>k \<in> dom (contents st n). unat (get_uint64 (the (contents st n k) ! j)))"
proof (induction n arbitrary: pre rule: tree_induct)
  case (Leaf c b)
  then show ?case using j by (auto simp: Stake64_def Stake64_Placeholder_def)
next
  case (Inner c b l r)
  let ?f = "\<lambda>m k. unat (get_uint64 (the (m k) ! j))"
  have disj: "dom (contents st l) \<inter> dom (contents st r) = {}"
    using contents_side [OF hash Inner.prems(1)] by (auto simp: domIff) (metis option.discI)
  have "(\<Sum>k \<in> dom (contents st (Inner c b l r)). ?f (contents st (Inner c b l r)) k) =
      (\<Sum>k \<in> dom (contents st r). ?f (contents st (Inner c b l r)) k) +
      (\<Sum>k \<in> dom (contents st l). ?f (contents st (Inner c b l r)) k)"
    using disj by (simp add: sum.union_disjoint Int_commute)
  also have "(\<Sum>k \<in> dom (contents st r). ?f (contents st (Inner c b l r)) k) = (\<Sum>k \<in> dom (contents st r). ?f (contents st r) k)"
    by (rule sum.cong) auto
  also have "(\<Sum>k \<in> dom (contents st l). ?f (contents st (Inner c b l r)) k) = (\<Sum>k \<in> dom (contents st l). ?f (contents st l) k)"
    by (rule sum.cong) (use disj in \<open>auto simp: map_add_def split: option.splits\<close>)
  finally show ?case
    using Inner.IH(1) [of "pre @ [False]"] Inner.IH(2) [of "pre @ [True]"] Inner.prems by simp
qed

definition navigate :: "collection \<Rightarrow> nat \<Rightarrow> 64 word \<Rightarrow> ((coll_error + coll_record) \<times> navigator) option" where
  "navigate c j q = do { n \<leftarrow> Navigate_to c (int j) (GUint64 q); Navigator_Record c n }"

lemma full_stakes:
  assumes "hash_ok sha" "full sha c" "j < length (coll_fields c)" "coll_fields c ! j = Stake64"
  shows "total (leaf_stakes (arrays c) j (root c)) = total_stake c j"
proof -
  have "tree_ok sha (coll_fields c) (arrays c) [] (root c)" "all_known (root c)"
    using assms(2) by (auto simp: full_def coll_ok_def good_def)
  from total_leaf_stakes [OF assms(1,3,4) this] show ?thesis
    by (auto simp: total_stake_def stake_at_def kv_def intro!: sum.cong)
qed

lemma navigate_within:
  assumes "hash_ok sha" "full sha c" "j < length (coll_fields c)" "coll_fields c ! j = Stake64"
    and "total_stake c j < 2 ^ 64" "unat q < total_stake c j"
  shows "\<exists>r n. navigate c j q = Some (Inr r, n) \<and> rec_match r \<and>
    rec_key r = fst (pick (unat q) (leaf_stakes (arrays c) j (root c))) \<and> kv c (rec_key r) = Some (rec_values r)"
proof -
  have ok: "tree_ok sha (coll_fields c) (arrays c) [] (root c)" "clean (root c)" "all_known (root c)"
    using assms(2) by (auto simp: full_def coll_ok_def good_def)
  obtain r rest where "navigate_at c j (put_uint64 q) (root c) = Some (Inr r, put_uint64 rest)"
    "(rec_key r, unat rest) = pick (unat q) (leaf_stakes (arrays c) j (root c))" "rec_match r"
    "contents (arrays c) (root c) (rec_key r) = Some (rec_values r)"
    using navigate_leaf [OF assms(1,3,4) ok, of q] full_stakes [OF assms(1-4)] assms(5,6) by auto
  then show ?thesis
    using assms(3,4)
    by (auto simp: navigate_def Navigate_to_def Navigator_Record_def Stake64_def Stake64_Encode_def kv_def
        intro: arg_cong [of _ _ fst] dest: arg_cong [of _ _ fst])
qed

lemma navigate_beyond:
  assumes "hash_ok sha" "full sha c" "j < length (coll_fields c)" "coll_fields c ! j = Stake64"
    and "total_stake c j < 2 ^ 64" "\<not> unat q < total_stake c j"
  shows "\<exists>n. navigate c j q = Some (Inl QueryExceedsStake, n)"
proof -
  have ok: "tree_ok sha (coll_fields c) (arrays c) [] (root c)" "clean (root c)" "all_known (root c)"
    "\<not> node_leaf (root c)"
    using assms(2) all_known_cell by (auto simp: full_def coll_ok_def good_def)
  then obtain cl b l r where n: "root c = Inner cl b l r" by (cases "root c") auto
  have known: "known cl" "known (cell l)" "known (cell r)" using ok(3) n all_known_cell by auto
  note t = full_stakes [OF assms(1-4)]
  have v: "j < length (read (arrays c) (vals cl))" "read (arrays c) (vals cl) ! j = put_uint64 (of_nat (total_stake c j))"
    using tree_stakes [OF ok(1-3) assms(3,4)] assms(5) unfolding t by (simp_all add: n)
  have "parent_values (coll_fields c) (read (arrays c) (vals (cell l))) (read (arrays c) (vals (cell r))) =
      Some (None, read (arrays c) (vals cl))"
    using ok n known by auto
  note lr = parent_values_nth [OF this assms(3)]
  have "total_stake c j \<le> unat q" using assms(6) by simp
  then have "(of_nat (total_stake c j) :: 64 word) \<le> q"
    using assms(5) by (simp add: word_le_nat_alt unat_of_nat take_bit_nat_eq_self)
  then have "navigate_at c j (put_uint64 q) (root c) = Some (Inl QueryExceedsStake, put_uint64 q)"
    using known v lr assms(3,4)
    by (simp add: n slice_get_def Stake64_def Stake64_Navigate_def)
  then show ?thesis
    using assms(3,4) by (simp add: navigate_def Navigate_to_def Navigator_Record_def Stake64_def Stake64_Encode_def)
qed

text \<open>Every key is found by as many numbers as it has stake.\<close>

lemma navigate_shares:
  assumes "hash_ok sha" "full sha c" "j < length (coll_fields c)" "coll_fields c ! j = Stake64"
    and "total_stake c j < 2 ^ 64" "k \<noteq> []"
  shows "card {q. \<exists>r n. navigate c j q = Some (Inr r, n) \<and> rec_key r = k} = stake_at c j k"
proof -
  let ?xs = "leaf_stakes (arrays c) j (root c)"
  let ?A = "{q. \<exists>r n. navigate c j q = Some (Inr r, n) \<and> rec_key r = k}"
  note t = full_stakes [OF assms(1-4)]
  have iff: "q \<in> ?A \<longleftrightarrow> unat q < total ?xs \<and> fst (pick (unat q) ?xs) = k" for q
  proof (cases "unat q < total_stake c j")
    case True
    with navigate_within [OF assms(1-5) True] t show ?thesis by auto
  next
    case False
    with navigate_beyond [OF assms(1-5) False] t show ?thesis by auto
  qed
  have "unat ` ?A = {q. q < total ?xs \<and> fst (pick q ?xs) = k}"
  proof
    show "unat ` ?A \<subseteq> {q. q < total ?xs \<and> fst (pick q ?xs) = k}" using iff by auto
    show "{q. q < total ?xs \<and> fst (pick q ?xs) = k} \<subseteq> unat ` ?A"
    proof
      fix q assume q: "q \<in> {q. q < total ?xs \<and> fst (pick q ?xs) = k}"
      then have "unat (of_nat q :: 64 word) = q"
        using assms(5) t by (simp add: unat_of_nat take_bit_nat_eq_self)
      with q iff [of "of_nat q"] show "q \<in> unat ` ?A" by (metis (mono_tags, lifting) image_eqI mem_Collect_eq)
    qed
  qed
  moreover have "card (unat ` ?A) = card ?A" by (rule card_image) (auto intro!: inj_onI simp: word_unat_eq_iff)
  ultimately have "card ?A = card {q. q < total ?xs \<and> fst (pick q ?xs) = k}" by simp
  also have "\<dots> = total (filter (\<lambda>p. fst p = k) ?xs)" by (rule card_pick)
  also have "\<dots> = stake_at c j k"
    using key_share [OF assms(1,6), of "coll_fields c" "arrays c" "[]" "root c" j] assms(2)
    by (simp add: full_def coll_ok_def good_def stake_at_def kv_def)
  finally show ?thesis .
qed

end
