(* ===== verification/TestChecks.thy ===== *)
theory TestChecks
  imports CollectionCorrect Canonical
begin

text \<open>
  Models \<open>testctx.go\<close>, the checks the tests of the package run on a collection after every operation:
  labels and values of every node, the place of every key, the scope, and the presence and values of a
  key. What a check reports to the test is the list of its complaints. Missing children, children that
  point to another parent and leaves with children cannot be built in the model, so the complaints about
  them are left out.

  The checks are independent of the invariant of this development: the lemmas show that a consistent
  collection passes all of them, and that the checks of a key say what the map of the collection says.
\<close>

datatype complaint =
    WrongLeafLabel | WrongInternalLabel | MalformedChildren | ConflictingValues | WrongPath
  | NotPruned | KnownRoot | NodeNotFound | UnexpectedNode | WrongValues | DidNotPanic

text \<open>A function that is run to see it panic: its result is \<open>None\<close> if it does.\<close>

definition shouldPanic :: "'a option \<Rightarrow> complaint list" where
  "shouldPanic result = (case result of None \<Rightarrow> [] | Some _ \<Rightarrow> [DidNotPanic])"

section \<open>node and tree\<close>

text \<open>The loop over the fields. The fields of the package return an empty slice beside an error.\<close>

fun check_parents ::
  "field list \<Rightarrow> bytes list \<Rightarrow> bytes list \<Rightarrow> bytes list \<Rightarrow> complaint list option" where
  "check_parents (F # fs) (l # ls) (r # rs) (v # vs) =
     (let (malformed, parentValue) =
            (case Parent F l r of Inl e \<Rightarrow> ([MalformedChildren], []) | Inr p \<Rightarrow> ([], p))
      in if \<not> bytes_equal parentValue v then Some (malformed @ [ConflictingValues])
         else do { rest \<leftarrow> check_parents fs ls rs vs; Some (malformed @ rest) })"
| "check_parents [] ls rs vs = Some []"
| "check_parents (F # fs) _ _ _ = None"

definition check_node ::
  "(bytes \<Rightarrow> bytes) \<Rightarrow> field list \<Rightarrow> store \<Rightarrow> node \<Rightarrow> complaint list option" where
  "check_node sha fs st n =
     (if \<not> known (cell n) then Some []
      else case n of
        Leaf c b \<Rightarrow> Some (if label c \<noteq> generateHash sha st n then [WrongLeafLabel] else [])
      | Inner c b l r \<Rightarrow>
          if label c \<noteq> generateHash sha st n then Some [WrongInternalLabel]
          else if known (cell l) \<and> known (cell r)
          then check_parents fs (read st (vals (cell l))) (read st (vals (cell r))) (read st (vals c))
          else Some [])"

fun check_path :: "bytes \<Rightarrow> nat \<Rightarrow> bool list \<Rightarrow> complaint list option" where
  "check_path keyHash index [] = Some []"
| "check_path keyHash index (b # path) =
     do {
       b' \<leftarrow> bit_at keyHash index;
       rest \<leftarrow> check_path keyHash (index + 1) path;
       Some ((if b \<noteq> b' then [WrongPath] else []) @ rest)
     }"

fun treeRecursion ::
  "(bytes \<Rightarrow> bytes) \<Rightarrow> field list \<Rightarrow> store \<Rightarrow> node \<Rightarrow> bool list \<Rightarrow> complaint list option" where
  "treeRecursion sha fs st (Leaf c b) path =
     do {
       here \<leftarrow> check_node sha fs st (Leaf c b);
       place \<leftarrow> (if \<not> node_placeholder (Leaf c b) then check_path (sha (key c)) 0 path else Some []);
       Some (here @ place)
     }"
| "treeRecursion sha fs st (Inner c b l r) path =
     do {
       here \<leftarrow> check_node sha fs st (Inner c b l r);
       lefts \<leftarrow> treeRecursion sha fs st l (path @ [False]);
       rights \<leftarrow> treeRecursion sha fs st r (path @ [True]);
       Some (here @ lefts @ rights)
     }"

definition check_tree :: "(bytes \<Rightarrow> bytes) \<Rightarrow> collection \<Rightarrow> complaint list option" where
  "check_tree sha c = treeRecursion sha (coll_fields c) (arrays c) (root c) []"

section \<open>scope\<close>

fun path_buffer :: "bytes \<Rightarrow> nat \<Rightarrow> bool list \<Rightarrow> bytes option" where
  "path_buffer pathBuf index [] = Some pathBuf"
| "path_buffer pathBuf index (b # path) =
     do { pathBuf' \<leftarrow> setBit pathBuf index b; path_buffer pathBuf' (index + 1) path }"

text \<open>Whether the scope covers a node at the end of a path.\<close>

definition path_match :: "scope \<Rightarrow> bool list \<Rightarrow> bool option" where
  "path_match sc path =
     do {
       pathBuf \<leftarrow> path_buffer zero_digest 0 path;
       (if 1 < length path then scope_match sc pathBuf (int (length path) - 2) else Some True)
     }"

fun scopeRecursion :: "scope \<Rightarrow> node \<Rightarrow> bool list \<Rightarrow> complaint list option" where
  "scopeRecursion sc (Leaf c b) path =
     (if \<not> known c then Some []
      else do {
        inside \<leftarrow> path_match sc path;
        Some (if \<not> inside then [NotPruned] else [])
      })"
| "scopeRecursion sc (Inner c b l r) path =
     (if \<not> known c then Some []
      else do {
        inside \<leftarrow> path_match sc path;
        (if \<not> inside then Some [NotPruned]
         else do {
           lefts \<leftarrow> scopeRecursion sc l (path @ [False]);
           rights \<leftarrow> scopeRecursion sc r (path @ [True]);
           Some (lefts @ rights)
         })
      })"

definition check_scope :: "collection \<Rightarrow> complaint list option" where
  "check_scope c =
     do {
       path0 \<leftarrow> setBit zero_digest 0 False;
       m0 \<leftarrow> scope_match (coll_scope c) path0 0;
       path1 \<leftarrow> setBit path0 0 True;
       m1 \<leftarrow> scope_match (coll_scope c) path1 0;
       (if \<not> m0 \<and> \<not> m1 then Some (if known (cell (root c)) then [KnownRoot] else [])
        else if \<not> known (cell (root c)) then Some []
        else (case root c of
            Leaf rc b \<Rightarrow> None
          | Inner rc b l r \<Rightarrow> do {
              lefts \<leftarrow> scopeRecursion (coll_scope c) l [False];
              rights \<leftarrow> scopeRecursion (coll_scope c) r [True];
              Some (lefts @ rights)
            }))
     }"

section \<open>key, noKey and values\<close>

fun keyRecursion :: "bytes \<Rightarrow> node \<Rightarrow> node option" where
  "keyRecursion k (Leaf c b) = (if bytes_equal (key c) k then Some (Leaf c b) else None)"
| "keyRecursion k (Inner c b l r) =
     (case keyRecursion k l of Some n \<Rightarrow> Some n | None \<Rightarrow> keyRecursion k r)"

definition check_key :: "collection \<Rightarrow> bytes \<Rightarrow> complaint list" where
  "check_key c k = (if keyRecursion k (root c) = None then [NodeNotFound] else [])"

definition check_noKey :: "collection \<Rightarrow> bytes \<Rightarrow> complaint list" where
  "check_noKey c k = (if keyRecursion k (root c) \<noteq> None then [UnexpectedNode] else [])"

fun check_encoded :: "field list \<Rightarrow> gval list \<Rightarrow> bytes list \<Rightarrow> complaint list option" where
  "check_encoded (F # fs) (g # gs) (v # vs) =
     do {
       rawValue \<leftarrow> Encode F g;
       rest \<leftarrow> check_encoded fs gs vs;
       Some ((if \<not> bytes_equal rawValue v then [WrongValues] else []) @ rest)
     }"
| "check_encoded [] gs vs = Some []"
| "check_encoded (F # fs) _ _ = None"

text \<open>Without a node the check goes on, and panics at the first field.\<close>

definition check_values :: "collection \<Rightarrow> bytes \<Rightarrow> gval list \<Rightarrow> complaint list option" where
  "check_values c k values =
     (case keyRecursion k (root c) of
        None \<Rightarrow> (if coll_fields c = [] then Some [NodeNotFound] else None)
      | Some n \<Rightarrow> check_encoded (coll_fields c) values (read (arrays c) (vals (cell n))))"

section \<open>A consistent collection passes\<close>

lemma check_parents_ok:
  "parent_values fs ls rs = Some (None, vs) \<Longrightarrow> check_parents fs ls rs vs = Some []"
  by (induction fs ls rs arbitrary: vs rule: parent_values.induct) (auto simp: go_simps split: sum.splits)

lemma check_node_ok:
  "tree_ok sha fs st pre n \<Longrightarrow> clean n \<Longrightarrow> check_node sha fs st n = Some []"
  by (cases n) (auto simp: check_node_def check_parents_ok)

lemma check_path_ok:
  "\<forall>j < length path. i + j < 8 * length keyHash \<and> path ! j = bits_of keyHash ! (i + j) \<Longrightarrow>
     check_path keyHash i path = Some []"
proof (induction path arbitrary: i)
  case (Cons b path)
  have "\<forall>j < length path. i + 1 + j < 8 * length keyHash \<and> path ! j = bits_of keyHash ! (i + 1 + j)"
  proof (intro allI impI)
    fix j assume "j < length path"
    with Cons.prems [rule_format, of "Suc j"]
    show "i + 1 + j < 8 * length keyHash \<and> path ! j = bits_of keyHash ! (i + 1 + j)" by simp
  qed
  moreover have "bit_at keyHash i = Some b" using Cons.prems [rule_format, of 0] by simp
  ultimately show ?case using Cons.IH [of "i + 1"] by (simp del: bit_at_Some)
qed simp

lemma treeRecursion_ok:
  assumes hash: "hash_ok sha"
  shows "tree_ok sha fs st pre n \<Longrightarrow> clean n \<Longrightarrow> length pre \<le> 8 * sha_size \<Longrightarrow> treeRecursion sha fs st n pre = Some []"
proof (induction n arbitrary: pre rule: tree_induct)
  case (Leaf c b)
  have "check_path (sha (key c)) 0 pre = Some []" if "key c \<noteq> []"
  proof (rule check_path_ok, intro allI impI)
    fix j assume j: "j < length pre"
    have "take (length pre) (bits_of (sha (key c))) = pre"
      using Leaf.prems(1) that by (auto simp: on_path_def path_of_def split: if_splits)
    then have "pre ! j = bits_of (sha (key c)) ! j" using j by (metis nth_take)
    then show "0 + j < 8 * length (sha (key c)) \<and> pre ! j = bits_of (sha (key c)) ! (0 + j)"
      using hash j Leaf.prems(3) by (simp add: hash_ok_def)
  qed
  with check_node_ok [OF Leaf.prems(1,2)] show ?case by (simp add: node_placeholder_def)
next
  case (Inner c b l r)
  with check_node_ok [OF Inner.prems(1,2)] show ?case by auto
qed

lemma check_tree_ok:
  "hash_ok sha \<Longrightarrow> coll_ok sha c \<Longrightarrow> \<not> ongoing c \<Longrightarrow> check_tree sha c = Some []"
  by (simp add: check_tree_def coll_ok_def good_def treeRecursion_ok)

section \<open>A key is found where the map has it\<close>

lemma keyRecursion_contents:
  assumes hash: "hash_ok sha" and k: "k \<noteq> []"
  shows "tree_ok sha fs st pre n \<Longrightarrow>
    contents st n k = map_option (\<lambda>m. read st (vals (cell m))) (keyRecursion k n)"
proof (induction n arbitrary: pre rule: tree_induct)
  case (Leaf c b)
  then show ?case using k by (auto split: if_splits)
next
  case (Inner c b l r)
  have kids: "contents st l k = map_option (\<lambda>m. read st (vals (cell m))) (keyRecursion k l)"
    "contents st r k = map_option (\<lambda>m. read st (vals (cell m))) (keyRecursion k r)"
    using Inner.IH(1) [of "pre @ [False]"] Inner.IH(2) [of "pre @ [True]"] Inner.prems by simp_all
  show ?case
    using contents_side [OF hash Inner.prems, of k] contents_Inner_at [OF hash Inner.prems, of k] kids
    by (cases "path_of sha k ! length pre") (auto split: option.splits simp del: contents.simps)
qed

lemma keyRecursion_kv:
  assumes "hash_ok sha" "coll_ok sha c" "k \<noteq> []"
  shows "kv c k = map_option (\<lambda>m. read (arrays c) (vals (cell m))) (keyRecursion k (root c))"
  using keyRecursion_contents [OF assms(1,3), of "coll_fields c" "arrays c" "[]" "root c"] assms(2)
  by (simp add: coll_ok_def good_def kv_def)

lemma check_encoded_iff:
  "encode_all fs gs = Some raw \<Longrightarrow> length vs = length fs \<Longrightarrow>
     (\<exists>cs. check_encoded fs gs vs = Some cs \<and> (cs = [] \<longleftrightarrow> raw = vs))"
proof (induction fs gs arbitrary: raw vs rule: encode_all.induct)
  case (1 F fs v gs)
  then obtain w ws x xs where "Encode F v = Some x" "encode_all fs gs = Some xs" "raw = x # xs" "vs = w # ws"
    by (cases vs) (auto simp: bind_eq_Some_conv)
  with 1(1) [of x xs ws] 1(3) show ?case by auto
qed auto

lemma check_values_iff:
  assumes "hash_ok sha" "coll_ok sha c" "k \<noteq> []" "kv c k = Some vs" "encode_all (coll_fields c) gs = Some raw"
  shows "\<exists>cs. check_values c k gs = Some cs \<and> (cs = [] \<longleftrightarrow> raw = vs)"
proof -
  obtain n where "keyRecursion k (root c) = Some n" "vs = read (arrays c) (vals (cell n))"
    using keyRecursion_kv [OF assms(1-3)] assms(4) by (cases "keyRecursion k (root c)") simp_all
  moreover have "length vs = length (coll_fields c)"
    using kv_values_ok [OF assms(2,4)] by (auto simp: values_ok_def dest: list_all2_lengthD)
  ultimately show ?thesis using check_encoded_iff [OF assms(5)] by (simp add: check_values_def)
qed

section \<open>After pruning only what the scope covers is left\<close>

lemma path_buffer_append:
  "path_buffer buf i (xs @ [b]) = do { buf' \<leftarrow> path_buffer buf i xs; setBit buf' (i + length xs) b }"
  by (induction xs arbitrary: buf i) auto

text \<open>The path \<open>Collect\<close> has when it comes to a node is the one the check builds.\<close>

lemma setBit_twice: "setBit buf i b = Some buf1 \<Longrightarrow> setBit buf1 i b' = setBit buf i b'"
proof -
  assume b: "setBit buf i b = Some buf1"
  have i: "i < 8 * length buf" using b setBit_Some_iff by blast
  then obtain buf2 where b2: "setBit buf i b' = Some buf2" using setBit_Some_iff by blast
  have "i < 8 * length buf1" using i setBit_length [OF b] by simp
  then obtain buf3 where b3: "setBit buf1 i b' = Some buf3" using setBit_Some_iff by blast
  have "bits_of buf3 = bits_of buf2"
    using setBit_bits_of [OF b] setBit_bits_of [OF b2] setBit_bits_of [OF b3] by simp
  then show ?thesis
    using bits_of_inject [of buf3 buf2] setBit_length [OF b] setBit_length [OF b2] setBit_length [OF b3] b2 b3 by simp
qed

lemma collect_node_scope:
  "collect_node sc n path d = Some n' \<Longrightarrow> path_buffer zero_digest 0 pre = Some path \<Longrightarrow> length pre = Suc d \<Longrightarrow>
     scopeRecursion sc n' pre = Some []"
proof (induction n arbitrary: n' path d pre rule: tree_induct)
  case (Leaf c b)
  have "path_match sc pre = (if 0 < d then scope_match sc path (int d - 1) else Some True)"
    using Leaf.prems(2,3) by (simp add: path_match_def)
  with Leaf.prems(1) show ?case
    by (auto simp: bind_eq_Some_conv collect_cut_def node_prune_def split: if_split_asm)
next
  case (Inner c b l r)
  have m: "path_match sc pre = (if 0 < d then scope_match sc path (int d - 1) else Some True)"
    using Inner.prems(2,3) by (simp add: path_match_def)
  show ?case
  proof (cases "known c \<and> (if 0 < d then scope_match sc path (int d - 1) else Some True) = Some True")
    case True
    with Inner.prems(1) obtain p0 l' p1 r' where k: "setBit path (d + 1) False = Some p0"
      "collect_node sc l p0 (d + 1) = Some l'" "setBit p0 (d + 1) True = Some p1"
      "collect_node sc r p1 (d + 1) = Some r'" "n' = Inner c b l' r'"
      by (auto simp: bind_eq_Some_conv)
    have "path_buffer zero_digest 0 (pre @ [False]) = Some p0" "path_buffer zero_digest 0 (pre @ [True]) = Some p1"
      using Inner.prems(2,3) k(1,3) setBit_twice [OF k(1)] by (simp_all add: path_buffer_append)
    with Inner.IH(1) [OF k(2)] Inner.IH(2) [OF k(4)] Inner.prems(3) k(5) True m show ?thesis by simp
  next
    case False
    with Inner.prems(1) m show ?thesis
      by (auto simp: bind_eq_Some_conv collect_cut_def node_prune_def split: if_split_asm)
  qed
qed

lemma check_scope_ok:
  assumes sc: "scope_ok (coll_scope c)" and c: "Collect c = Some c'"
  shows "check_scope c' = Some []"
proof -
  obtain p0 where p0: "setBit zero_digest 0 False = Some p0"
    using setBit_Some_iff [of zero_digest 0 False] by (auto simp: zero_digest_def sha_size_def)
  have len: "0 < 8 * length p0" using setBit_length [OF p0] by (simp add: zero_digest_def sha_size_def)
  then obtain p1 where p1: "setBit p0 0 True = Some p1" using setBit_Some_iff by blast
  have p01: "setBit p1 0 False = Some p0" "setBit p0 0 False = Some p0"
    using setBit_twice [OF p1] setBit_twice [OF p0] p0 by simp_all
  show ?thesis
  proof (cases "known (cell (root c))")
    case True
    with c p0 p1 p01 obtain m0 m1 where m: "scope_match (coll_scope c) p0 0 = Some m0"
      "scope_match (coll_scope c) p1 0 = Some m1"
      by (auto simp: Collect_def bind_eq_Some_conv)
    show ?thesis
    proof (cases "m0 \<or> m1")
      case False
      with c True p0 p1 m show ?thesis
        by (auto simp: Collect_def check_scope_def collect_cut_def node_prune_def)
    next
      case live: True
      with c True p0 p1 p01 m obtain rc b l r l' r' where k: "root c = Inner rc b l r"
        "collect_node (coll_scope c) l p0 0 = Some l'" "collect_node (coll_scope c) r p1 0 = Some r'"
        "c' = c\<lparr>root := Inner rc b l' r'\<rparr>"
        by (auto simp: Collect_def bind_eq_Some_conv split: node.splits)
      have "path_buffer zero_digest 0 [False] = Some p0" "path_buffer zero_digest 0 [True] = Some p1"
        using p0 p1 setBit_twice [OF p0] by simp_all
      with collect_node_scope [OF k(2)] collect_node_scope [OF k(3)] live True p0 p1 m k(1,4)
      show ?thesis by (auto simp: check_scope_def)
    qed
  next
    case False
    with c have "c' = c" by (simp add: Collect_def)
    have "length p0 = sha_size" "length p1 = sha_size"
      using setBit_length [OF p0] setBit_length [OF p1] by (simp_all add: zero_digest_def)
    then show ?thesis
      using p0 p1 False \<open>c' = c\<close> scope_match_iff [OF sc] by (simp add: check_scope_def)
  qed
qed

end
