(* ===== verification/Walks.thy ===== *)
theory Walks
  imports Shape
begin

text \<open>
  Inversion of the walks: a walk that succeeds from an inner node has found both children known,
  succeeded in one of them and climbed back. Inductions over the walks use these rules.
\<close>

lemma set_atE:
  assumes "set_at sha fs tx path k gs d st (Inner c b l r) = Some (Inr (st2, n2))"
  obtains step st1 ch where "known (cell l)" "known (cell r)" "bit_at path d = Some step"
    "climb sha fs tx st1 (rebuild c b l r step ch) = Some (st2, n2)"
    "node_leaf (if step then r else l) \<Longrightarrow> overwrite_leaf sha fs tx gs st (if step then r else l) = Some (st1, ch)"
    "\<not> node_leaf (if step then r else l) \<Longrightarrow>
       set_at sha fs tx path k gs (d + 1) st (if step then r else l) = Some (Inr (st1, ch))"
proof -
  from assms obtain step where kn: "known (cell l)" "known (cell r)" "bit_at path d = Some step"
    by (cases "bit_at path d") (simp_all add: set_at_Inner del: bit_at_Some bit_at_None split: if_split_asm)
  let ?cu = "if step then r else l"
  obtain st1 ch where w: "climb sha fs tx st1 (rebuild c b l r step ch) = Some (st2, n2)"
    "(if node_leaf ?cu
      then (if \<not> bytes_equal (key (cell ?cu)) k then Some (Inl KeyNotFound)
            else do { s \<leftarrow> overwrite_leaf sha fs tx gs st ?cu; Some (Inr s) })
      else set_at sha fs tx path k gs (d + 1) st ?cu) = Some (Inr (st1, ch))"
    by (rule walk_SomeD [OF assms [unfolded set_at_Inner Let_def kn(3) option.case, simplified kn(1,2) simp_thms if_False]])
  from that [OF kn w(1)] w(2) show ?thesis by (simp add: bind_eq_Some_conv split: if_split_asm)
qed

lemma remove_atE:
  assumes "remove_at sha fs tx path k is_root d st (Inner c b l r) = Some (Inr (st2, n2))"
  obtains step st1 ch where "known (cell l)" "known (cell r)" "bit_at path d = Some step"
    "climb_remove sha fs tx is_root st1 (rebuild c b l r step ch) = Some (st2, n2)"
    "node_leaf (if step then r else l) \<Longrightarrow> clear_leaf sha fs tx st (if step then r else l) = Some (Inr (st1, ch))"
    "\<not> node_leaf (if step then r else l) \<Longrightarrow>
       remove_at sha fs tx path k False (d + 1) st (if step then r else l) = Some (Inr (st1, ch))"
proof -
  from assms obtain step where kn: "known (cell l)" "known (cell r)" "bit_at path d = Some step"
    by (cases "bit_at path d") (simp_all add: remove_at_Inner del: bit_at_Some bit_at_None split: if_split_asm)
  let ?cu = "if step then r else l"
  obtain st1 ch where w: "climb_remove sha fs tx is_root st1 (rebuild c b l r step ch) = Some (st2, n2)"
    "(if node_leaf ?cu
      then (if \<not> bytes_equal (key (cell ?cu)) k then Some (Inl KeyNotFound) else clear_leaf sha fs tx st ?cu)
      else remove_at sha fs tx path k False (d + 1) st ?cu) = Some (Inr (st1, ch))"
    by (rule walk_SomeD [OF assms [unfolded remove_at_Inner Let_def kn(3) option.case, simplified kn(1,2) simp_thms if_False]])
  from that [OF kn w(1)] w(2) show ?thesis by (simp split: if_split_asm)
qed

lemma add_atE:
  assumes "add_at sha fs tx path k rv d st (Inner c b l r) = Some (Inr (st2, n2))"
  obtains step st1 ch where "known (cell l)" "known (cell r)" "bit_at path d = Some step"
    "climb sha fs tx st1 (rebuild c b l r step ch) = Some (st2, n2)"
    "node_placeholder (if step then r else l) \<Longrightarrow>
       put_leaf sha fs tx k rv st (if step then r else l) = Some (st1, ch)"
    "node_leaf (if step then r else l) \<Longrightarrow> \<not> node_placeholder (if step then r else l) \<Longrightarrow>
       \<exists>s m. split_leaf sha fs tx (d + 1) st (if step then r else l) = Some (Inr (s, m)) \<and>
         add_at sha fs tx path k rv (d + 1) s m = Some (Inr (st1, ch))"
    "\<not> node_leaf (if step then r else l) \<Longrightarrow>
       add_at sha fs tx path k rv (d + 1) st (if step then r else l) = Some (Inr (st1, ch))"
proof -
  from assms obtain step where kn: "known (cell l)" "known (cell r)" "bit_at path d = Some step"
    by (cases "bit_at path d") (simp_all add: add_at.simps(2) del: bit_at_Some bit_at_None split: if_split_asm)
  let ?cu = "if step then r else l"
  obtain st1 ch where w: "climb sha fs tx st1 (rebuild c b l r step ch) = Some (st2, n2)"
    "(if node_placeholder ?cu
        then do { s \<leftarrow> put_leaf sha fs tx k rv st ?cu; Some (Inr s) }
        else if node_leaf ?cu
        then (if bytes_equal k (key (cell ?cu)) then Some (Inl KeyCollision)
              else (case split_leaf sha fs tx (d + 1) st ?cu of
                  None \<Rightarrow> None
                | Some (Inl e) \<Rightarrow> Some (Inl e)
                | Some (Inr (st1, cursor1)) \<Rightarrow> add_at sha fs tx path k rv (d + 1) st1 cursor1))
        else add_at sha fs tx path k rv (d + 1) st ?cu) = Some (Inr (st1, ch))"
    by (rule walk_SomeD [OF assms [unfolded add_at.simps(2) Let_def kn(3) option.case, simplified kn(1,2) simp_thms if_False]])
  have ph: "node_placeholder ?cu \<Longrightarrow> node_leaf ?cu" by (simp only: node_placeholder_def)
  show ?thesis
  proof (rule that [OF kn w(1)])
    assume "node_placeholder ?cu"
    with w(2) show "put_leaf sha fs tx k rv st ?cu = Some (st1, ch)" by (auto simp: bind_eq_Some_conv)
  next
    assume "node_leaf ?cu" "\<not> node_placeholder ?cu"
    with w(2) show "\<exists>s m. split_leaf sha fs tx (d + 1) st ?cu = Some (Inr (s, m)) \<and>
        add_at sha fs tx path k rv (d + 1) s m = Some (Inr (st1, ch))"
      by (cases "split_leaf sha fs tx (d + 1) st ?cu") (simp_all split: if_split_asm sum.split_asm prod.split_asm)
  next
    assume "\<not> node_leaf ?cu"
    with ph w(2) show "add_at sha fs tx path k rv (d + 1) st ?cu = Some (Inr (st1, ch))" by (simp split: if_split_asm)
  qed
qed

text \<open>The rewriting of an \<open>Add\<close> that changes the collection.\<close>

lemma Add_walk:
  assumes "Add sha c k gs = Some (e, c')" "c' \<noteq> c"
  obtains raw where "Option.bind (add_at sha (coll_fields c) (ongoing c) (sha k) k (length (arrays c)) 0 (arrays c @ [raw]) (root c))
      (\<lambda>res. case res of Inl e \<Rightarrow> Some (Some e, c) | Inr s \<Rightarrow> finish c s) = Some (e, c')"
  using assms by (cases "encode_all (coll_fields c) gs") (auto simp: Add_def Let_def alloc_def split: if_split_asm)

end
