(* ===== verification/Rollbacks.thy ===== *)
theory Rollbacks
  imports Histories Walks ProofCorrect
begin

text \<open>
  The undoing of a transaction. As long as nothing is removed, the backups hold what \<open>Rollback\<close> needs:
  \<open>undo\<close> relates every node of the running transaction to the node it was, either directly or through its
  backup, and the arrays that backups and unchanged nodes point to are never written (\<open>apart\<close>).
\<close>

section \<open>What a node was before\<close>

definition as_before :: "store \<Rightarrow> node \<Rightarrow> store \<Rightarrow> node \<Rightarrow> bool" where
  "as_before st0 n0 st m \<longleftrightarrow>
     (case (n0, m) of
        (Leaf c0 b0, Leaf c b) \<Rightarrow> label c = label c0 \<and> known c = known c0 \<and> key c = key c0 \<and> \<not> inconsistent c \<and>
          (known c \<longrightarrow> read st (vals c) = read st0 (vals c0))
      | _ \<Rightarrow> False)"

fun undo :: "store \<Rightarrow> node \<Rightarrow> store \<Rightarrow> node \<Rightarrow> bool" where
  "undo st0 n0 st (Leaf c b) \<longleftrightarrow> as_before st0 n0 st (case b of None \<Rightarrow> Leaf c None | Some m \<Rightarrow> m)"
| "undo st0 n0 st (Inner c b l r) \<longleftrightarrow>
     (case b of
        Some m \<Rightarrow> as_before st0 n0 st m
      | None \<Rightarrow> (case n0 of
          Leaf c0 b0 \<Rightarrow> False
        | Inner c0 b0 l0 r0 \<Rightarrow> label c = label c0 \<and> known c = known c0 \<and> key c = key c0 \<and>
            read st (vals c) = read st0 (vals c0) \<and> undo st0 l0 st l \<and> undo st0 r0 st r))"

text \<open>The arrays of a node in a transaction: those of its leaves, and those it was before.\<close>

fun arefs :: "node \<Rightarrow> aref list" where
  "arefs (Leaf c b) = (if known c then [vals c] else []) @ (case b of None \<Rightarrow> [] | Some m \<Rightarrow> [vals (cell m)])"
| "arefs (Inner c b l r) = (case b of None \<Rightarrow> vals c | Some m \<Rightarrow> vals (cell m)) # arefs l @ arefs r"

definition apart :: "store \<Rightarrow> node \<Rightarrow> bool" where
  "apart st n \<longleftrightarrow> distinct (arefs n) \<and> (\<forall>r \<in> set (arefs n). r < length st)"

lemma arefs_clean: "clean n \<Longrightarrow> arefs n = refs n"
  by (induction n rule: tree_induct) auto

lemma undo_start: "clean n \<Longrightarrow> undo st n st n"
  by (induction n rule: tree_induct) (auto simp: as_before_def)

lemma as_before_cong:
  "as_before st0 n0 st m \<Longrightarrow> read st2 (vals (cell m)) = read st (vals (cell m)) \<Longrightarrow> as_before st0 n0 st2 m"
  by (cases n0; cases m) (auto simp: as_before_def)

lemma undo_cong:
  assumes "\<And>r. r \<in> set (arefs n) \<Longrightarrow> read st2 r = read st r"
  shows "undo st0 n0 st n \<Longrightarrow> undo st0 n0 st2 n"
  using assms
proof (induction n arbitrary: n0 rule: tree_induct)
  case (Leaf c b)
  then show ?case by (cases b; cases "known c") (auto intro: as_before_cong simp: as_before_def split: node.split)
next
  case (Inner c b l r)
  then show ?case by (cases b; cases n0) (auto intro: as_before_cong)
qed

lemma undo_frame:
  assumes "frame W st st2" "apart st n" "W \<inter> set (arefs n) = {}"
  shows "undo st0 n0 st n \<Longrightarrow> undo st0 n0 st2 n" "apart st2 n"
proof -
  have "read st2 r = read st r" if "r \<in> set (arefs n)" for r
    using assms that by (intro frame_read [OF assms(1)]) (auto simp: apart_def)
  then show "undo st0 n0 st n \<Longrightarrow> undo st0 n0 st2 n" by (rule undo_cong)
  show "apart st2 n" using assms(2) frame_length [OF assms(1)] by (auto simp: apart_def)
qed

lemma apart_Inner:
  "apart st (Inner c b l r) \<longleftrightarrow>
     apart st l \<and> apart st r \<and> set (arefs l) \<inter> set (arefs r) = {} \<and>
     (let v = (case b of None \<Rightarrow> vals c | Some m \<Rightarrow> vals (cell m)) in
      v < length st \<and> v \<notin> set (arefs l) \<and> v \<notin> set (arefs r))"
  by (auto simp: apart_def Let_def)

section \<open>A walk can be undone\<close>

definition undoable :: "node \<Rightarrow> aref set \<Rightarrow> store \<Rightarrow> store \<Rightarrow> node \<Rightarrow> bool" where
  "undoable n N st st2 n2 \<longleftrightarrow>
     apart st2 n2 \<and> frame (set (arefs n)) st st2 \<and>
     set (arefs n2) \<subseteq> set (arefs n) \<union> N \<union> {length st..<length st2} \<and>
     (\<forall>st0 n0. undo st0 n0 st n \<longrightarrow> undo st0 n0 st2 n2)"

lemma backup_Leaf_cases:
  obtains (new) m where "b = None" "backup_if True st (Leaf c b) = (st @ [read st (vals c)], Leaf c (Some m))"
    "m = Leaf (c\<lparr>vals := length st\<rparr>) None"
  | (old) m where "b = Some m" "backup_if True st (Leaf c b) = (st, Leaf c (Some m))"
  by (cases b) (auto simp: backup_if_def node_backup_def alloc_def)

text \<open>A leaf that has been backed up is free to change.\<close>

lemma backed_up:
  assumes "apart st (Leaf c b)" "known c" "backup_if True st (Leaf c b) = (st1, n1)"
  obtains m where "n1 = Leaf c (Some m)" "frame {} st st1" "vals c < length st" "vals (cell m) \<noteq> vals c"
    "vals (cell m) < length st1" "vals (cell m) \<in> set (arefs (Leaf c b)) \<or> length st \<le> vals (cell m)"
    "\<And>st0 n0. undo st0 n0 st (Leaf c b) \<Longrightarrow> as_before st0 n0 st1 m"
proof (cases b st c rule: backup_Leaf_cases)
  case (new m)
  have v: "vals c < length st" using assms(1,2) by (simp add: apart_def)
  show ?thesis
  proof (rule that [of m])
    fix st0 n0
    assume "undo st0 n0 st (Leaf c b)"
    then show "as_before st0 n0 st1 m"
      using assms(3) new by (auto simp: as_before_def split: node.splits)
  qed (use assms(3) new v in auto)
next
  case (old m)
  then show ?thesis
    using assms by (intro that [of m]) (auto simp: apart_def)
qed

lemma overwrite_leaf_undoable:
  assumes ov: "overwrite_leaf sha fs True gs st n = Some (st2, n2)" and n: "node_leaf n" "known (cell n)" "apart st n"
  shows "undoable n {} st st2 n2"
proof -
  obtain c b where cb: "n = Leaf c b" "known c" using n by (cases n) auto
  obtain st1 n1 where bk: "backup_if True st (Leaf c b) = (st1, n1)" by fastforce
  obtain m where m: "n1 = Leaf c (Some m)" "frame {} st st1" "vals c < length st" "vals (cell m) \<noteq> vals c"
    "vals (cell m) < length st1" "vals (cell m) \<in> set (arefs (Leaf c b)) \<or> length st \<le> vals (cell m)"
    "\<And>st0 n0. undo st0 n0 st (Leaf c b) \<Longrightarrow> as_before st0 n0 st1 m"
    using backed_up [OF n(3) [unfolded cb(1)] cb(2) bk] by metis
  obtain vs lab where r: "st2 = st1[vals c := vs]" "n2 = Leaf (c\<lparr>label := lab\<rparr>) (Some m)"
    using ov cb bk m(1) by (auto simp: overwrite_leaf_def update_def bind_eq_Some_conv Let_def)
  have "as_before st0 n0 st2 m" if "undo st0 n0 st (Leaf c b)" for st0 n0
    using as_before_cong [OF m(7) [OF that]] m(4) r(1) by simp
  moreover have "frame (set (arefs n)) st st2"
    using frame_mono [OF frame_trans [OF m(2) frame_update [of "vals c" st1 vs]], of "set (arefs n)"] cb r(1) by simp
  ultimately show ?thesis
    using cb r m frame_length [OF m(2)] by (auto simp: undoable_def apart_def)
qed

lemma put_leaf_undoable:
  assumes put: "put_leaf sha fs True k rv st n = Some (st2, n2)" and n: "node_leaf n" "known (cell n)" "apart st n"
    and rv: "rv < length st" "rv \<notin> set (arefs n)"
  shows "undoable n {rv} st st2 n2"
proof -
  obtain c b where cb: "n = Leaf c b" "known c" using n by (cases n) auto
  obtain st1 n1 where bk: "backup_if True st (Leaf c b) = (st1, n1)" by fastforce
  obtain m where m: "n1 = Leaf c (Some m)" "frame {} st st1"
    "vals (cell m) < length st1" "vals (cell m) \<in> set (arefs (Leaf c b)) \<or> length st \<le> vals (cell m)"
    "\<And>st0 n0. undo st0 n0 st (Leaf c b) \<Longrightarrow> as_before st0 n0 st1 m"
    using backed_up [OF n(3) [unfolded cb(1)] cb(2) bk] by metis
  obtain lab where r: "st2 = st1" "n2 = Leaf (c\<lparr>key := k, vals := rv, label := lab\<rparr>) (Some m)"
    using put cb bk m(1) by (auto simp: put_leaf_def update_def bind_eq_Some_conv Let_def)
  have "vals (cell m) \<noteq> rv" using m(4) rv cb by auto
  with cb r m rv frame_length [OF m(2)] show ?thesis
    by (auto simp: undoable_def apart_def intro: frame_mono [OF m(2)])
qed

lemma split_leaf_undoable:
  assumes sp: "split_leaf sha fs True d st n = Some (Inr (st2, n2))" and n: "node_leaf n" "known (cell n)" "apart st n"
  shows "undoable n {} st st2 n2"
proof -
  obtain c b where cb: "n = Leaf c b" "known c" using n by (cases n) auto
  obtain st1 n1 where bk: "backup_if True st (Leaf c b) = (st1, n1)" by fastforce
  obtain m where m: "n1 = Leaf c (Some m)" "frame {} st st1" "vals c < length st" "vals (cell m) \<noteq> vals c"
    "vals (cell m) < length st1" "vals (cell m) \<in> set (arefs (Leaf c b)) \<or> length st \<le> vals (cell m)"
    "\<And>st0 n0. undo st0 n0 st (Leaf c b) \<Longrightarrow> as_before st0 n0 st1 m"
    using backed_up [OF n(3) [unfolded cb(1)] cb(2) bk] by metis
  obtain cl cr l r where kids: "st2 = st1 @ [map Placeholder fs]" "n2 = Inner (c\<lparr>key := []\<rparr>) (Some m) l r"
    "arefs l = [vals c] \<and> arefs r = [length st1] \<or> arefs l = [length st1] \<and> arefs r = [vals c]"
    using sp cb bk m(1)
    by (auto simp: split_leaf_def setPlaceholder_eq node_branch_def new_node_def bind_eq_Some_conv Let_def split: if_split_asm)
  have "as_before st0 n0 st2 m" if "undo st0 n0 st (Leaf c b)" for st0 n0
    using as_before_cong [OF m(7) [OF that]] m(5) kids(1) by simp
  moreover have "frame (set (arefs n)) st st2"
    using frame_mono [OF frame_trans [OF m(2), of "{}" st2], of "set (arefs n)"] kids(1) by simp
  ultimately show ?thesis
    using cb kids m frame_length [OF m(2)] by (auto simp: undoable_def apart_def)
qed

lemma undoable_trans:
  assumes "undoable n {} st st1 n1" "undoable n1 N st1 st2 n2"
  shows "undoable n N st st2 n2"
proof -
  have len: "length st \<le> length st1" "length st1 \<le> length st2"
    using assms by (auto simp: undoable_def frame_def)
  have "read st2 r = read st r" if "r < length st" "r \<notin> set (arefs n)" for r
  proof -
    have "r \<notin> set (arefs n1)" using assms(1) that by (auto simp: undoable_def)
    then show ?thesis using assms that len by (simp add: undoable_def frame_def)
  qed
  then have "frame (set (arefs n)) st st2" using len by (simp add: frame_def)
  with assms len show ?thesis by (fastforce simp: undoable_def)
qed

text \<open>From the child to its parent, which is only marked.\<close>

lemma climb_undoable:
  assumes up: "climb sha fs True st1 (rebuild c b l r step ch) = Some (st2, n2)"
    and ch: "undoable (if step then r else l) N st st1 ch" and ap: "apart st (Inner c b l r)"
    and N: "N \<inter> set (arefs (Inner c b l r)) = {}" "\<forall>v \<in> N. v < length st"
  shows "undoable (Inner c b l r) N st st2 n2"
proof -
  define cu where "cu = (if step then r else l)"
  define sib where "sib = (if step then l else r)"
  define v where "v = (case b of None \<Rightarrow> vals c | Some m \<Rightarrow> vals (cell m))"
  have n2: "st2 = st1" "n2 = Inner (c\<lparr>inconsistent := True\<rparr>) b (kid_left step l ch) (kid_right step r ch)"
    using up by (auto simp: climb_def rebuild_kids mark_inconsistent_def)
  have u: "apart st1 ch" "frame (set (arefs cu)) st st1" "set (arefs ch) \<subseteq> set (arefs cu) \<union> N \<union> {length st..<length st1}"
    "\<And>st0 n0. undo st0 n0 st cu \<Longrightarrow> undo st0 n0 st1 ch"
    using ch by (auto simp: undoable_def cu_def)
  have sep: "apart st sib" "set (arefs cu) \<inter> set (arefs sib) = {}" "v < length st" "v \<notin> set (arefs cu)" "v \<notin> set (arefs sib)"
    using ap by (auto simp: apart_Inner Let_def cu_def sib_def v_def)
  note sib = undo_frame [OF u(2) sep(1,2)]
  have v: "read st1 v = read st v" "v < length st1" using u(2) sep(3,4) by (auto simp: frame_def)
  have bound: "\<forall>q \<in> set (arefs sib). q < length st" using sep(1) by (simp add: apart_def)
  have vN: "v \<notin> N" "N \<inter> set (arefs sib) = {}" using N(1) by (auto simp: v_def sib_def)
  have "set (arefs ch) \<inter> set (arefs sib) = {}" "v \<notin> set (arefs ch)"
    using u(3) sep(2-4) vN bound by fastforce+
  then have "apart st1 n2"
    using u(1) sib(2) v(2) sep(5)
    by (cases step; cases b) (auto simp: n2 apart_Inner Let_def kid_left_def kid_right_def sib_def v_def)
  moreover have "set (arefs n2) \<subseteq> set (arefs (Inner c b l r)) \<union> N \<union> {length st..<length st1}"
    using u(3) by (cases step; cases b) (auto simp: n2 kid_left_def kid_right_def cu_def)
  moreover have "undo st0 n0 st1 n2" if "undo st0 n0 st (Inner c b l r)" for st0 n0
  proof (cases b)
    case None
    with that obtain c0 b0 l0 r0 where "n0 = Inner c0 b0 l0 r0" by (cases n0) auto
    with that None u(4) sib(1) v(1) show ?thesis
      by (cases step) (simp_all add: n2 kid_left_def kid_right_def cu_def sib_def v_def)
  next
    case (Some m)
    with that as_before_cong [of st0 n0 st m st1] v(1) show ?thesis by (simp add: n2 v_def)
  qed
  moreover have "frame (set (arefs (Inner c b l r))) st st1"
    by (rule frame_mono [OF u(2)]) (auto simp: cu_def)
  ultimately show ?thesis by (simp add: undoable_def n2(1))
qed

text \<open>The walks of \<open>Set\<close> and \<open>Add\<close>.\<close>

lemma set_at_undoable:
  "set_at sha fs True path k gs d st n = Some (Inr (st2, n2)) \<Longrightarrow> apart st n \<Longrightarrow> undoable n {} st st2 n2"
proof (induction n arbitrary: d st st2 n2 rule: tree_induct)
  case (Inner c b l r)
  from Inner.prems(1) show ?case
  proof (rule set_atE)
    fix step st1 ch
    let ?cu = "if step then r else l"
    assume kn: "known (cell l)" "known (cell r)"
      and up: "climb sha fs True st1 (rebuild c b l r step ch) = Some (st2, n2)"
      and leaf: "node_leaf ?cu \<Longrightarrow> overwrite_leaf sha fs True gs st ?cu = Some (st1, ch)"
      and inner: "\<not> node_leaf ?cu \<Longrightarrow> set_at sha fs True path k gs (d + 1) st ?cu = Some (Inr (st1, ch))"
    have cu: "apart st ?cu" "known (cell ?cu)" using Inner.prems(2) kn by (auto simp: apart_Inner)
    have "undoable ?cu {} st st1 ch"
    proof (cases "node_leaf ?cu")
      case True
      from overwrite_leaf_undoable [OF leaf [OF True] True cu(2,1)] show ?thesis .
    next
      case False
      from inner [OF False] Inner.IH cu(1) show ?thesis by (cases step) auto
    qed
    from climb_undoable [OF up this Inner.prems(2)] show ?thesis by simp
  qed
qed simp

lemma add_at_undoable:
  "add_at sha fs True path k rv d st n = Some (Inr (st2, n2)) \<Longrightarrow> apart st n \<Longrightarrow> rv < length st \<Longrightarrow>
     rv \<notin> set (arefs n) \<Longrightarrow> undoable n {rv} st st2 n2"
proof (induction "8 * length path - d" arbitrary: d st n st2 n2 rule: less_induct)
  case less
  show ?case
  proof (cases n)
    case (Leaf c b)
    with less.prems show ?thesis by simp
  next
    case (Inner c b l r)
    from less.prems(1) [unfolded Inner] show ?thesis
    proof (rule add_atE)
      fix step st1 ch
      let ?cu = "if step then r else l"
      assume kn: "known (cell l)" "known (cell r)" "bit_at path d = Some step"
        and up: "climb sha fs True st1 (rebuild c b l r step ch) = Some (st2, n2)"
        and put: "node_placeholder ?cu \<Longrightarrow> put_leaf sha fs True k rv st ?cu = Some (st1, ch)"
        and split: "node_leaf ?cu \<Longrightarrow> \<not> node_placeholder ?cu \<Longrightarrow>
          \<exists>s m. split_leaf sha fs True (d + 1) st ?cu = Some (Inr (s, m)) \<and>
            add_at sha fs True path k rv (d + 1) s m = Some (Inr (st1, ch))"
        and inner: "\<not> node_leaf ?cu \<Longrightarrow> add_at sha fs True path k rv (d + 1) st ?cu = Some (Inr (st1, ch))"
      have "8 * length path - (d + 1) < 8 * length path - d" using kn(3) by auto
      note IH = less.hyps [OF this]
      have cu: "apart st ?cu" "known (cell ?cu)" "rv \<notin> set (arefs ?cu)"
        using less.prems(2,4) kn Inner by (auto simp: apart_Inner)
      have "undoable ?cu {rv} st st1 ch"
      proof (cases "node_leaf ?cu")
        case False
        from IH [OF inner [OF False] cu(1) less.prems(3) cu(3)] show ?thesis .
      next
        case leaf: True
        show ?thesis
        proof (cases "node_placeholder ?cu")
          case True
          from put_leaf_undoable [OF put [OF True] leaf cu(2,1) less.prems(3) cu(3)] show ?thesis .
        next
          case False
          from split [OF leaf this] obtain s m where sp: "split_leaf sha fs True (d + 1) st ?cu = Some (Inr (s, m))"
            "add_at sha fs True path k rv (d + 1) s m = Some (Inr (st1, ch))" by blast
          note u = split_leaf_undoable [OF sp(1) leaf cu(2,1)]
          then have "apart s m" "rv < length s" "rv \<notin> set (arefs m)"
            using less.prems(3) cu(3) by (auto simp: undoable_def frame_def)
          from undoable_trans [OF u IH [OF sp(2) this]] show ?thesis .
        qed
      qed
      from climb_undoable [OF up this less.prems(2) [unfolded Inner]] less.prems(3,4) Inner show ?thesis by simp
    qed
  qed
qed

section \<open>Rollback\<close>

text \<open>The tree as it was, but for the marks.\<close>

fun restored :: "store \<Rightarrow> node \<Rightarrow> store \<Rightarrow> node \<Rightarrow> bool" where
  "restored st0 n0 st (Leaf c b) \<longleftrightarrow> b = None \<and> as_before st0 n0 st (Leaf c b)"
| "restored st0 (Inner c0 b0 l0 r0) st (Inner c b l r) \<longleftrightarrow>
     b = None \<and> label c = label c0 \<and> known c = known c0 \<and> key c = key c0 \<and> read st (vals c) = read st0 (vals c0) \<and>
     restored st0 l0 st l \<and> restored st0 r0 st r"
| "restored st0 (Leaf c0 b0) st (Inner c b l r) \<longleftrightarrow> False"

lemma restored_clean: "clean n \<Longrightarrow> undo st0 n0 st n \<Longrightarrow> restored st0 n0 st n"
  by (induction n arbitrary: n0 rule: tree_induct) (auto split: node.splits)

lemma restored_backup: "as_before st0 n0 st m \<Longrightarrow> restored st0 n0 st (set_saved None m)"
  by (cases n0; cases m) (auto simp: as_before_def)

lemma rollback_node_restores:
  "undo st0 n0 st n \<Longrightarrow> tree_ok sha fs st pre n \<Longrightarrow> restored st0 n0 st (rollback_node n)"
proof (induction n arbitrary: n0 pre rule: tree_induct)
  case (Leaf c b)
  show ?case
  proof (cases b)
    case None
    with Leaf(1) show ?thesis by (auto simp: rollback_node.simps [of "Leaf c None"] node_restore_def)
  next
    case (Some m)
    with Leaf(1) have "as_before st0 n0 st m" by simp
    moreover then obtain c2 b2 where "m = Leaf c2 b2" by (cases m; cases n0) (auto simp: as_before_def)
    ultimately show ?thesis using restored_backup [of st0 n0 st m] Some
      by (simp add: rollback_node.simps [of "Leaf c (Some (Leaf c2 b2))"] node_restore_def)
  qed
next
  case (Inner c b l r)
  show ?case
  proof (cases b)
    case None
    with Inner.prems(1) obtain c0 b0 l0 r0 where n0: "n0 = Inner c0 b0 l0 r0" by (cases n0) auto
    show ?thesis
    proof (cases "inconsistent c")
      case True
      with None n0 Inner.prems Inner.IH show ?thesis
        by (auto simp: rollback_node.simps [of "Inner c None l r"] node_restore_def)
    next
      case False
      with Inner.prems(2) have "clean (Inner c b l r)" by simp
      with restored_clean [OF this Inner.prems(1)] False None show ?thesis
        by (simp add: rollback_node.simps [of "Inner c None l r"])
    qed
  next
    case (Some m)
    with Inner.prems(1) have "as_before st0 n0 st m" by simp
    moreover then obtain c2 b2 where "m = Leaf c2 b2" by (cases m; cases n0) (auto simp: as_before_def)
    ultimately show ?thesis using restored_backup [of st0 n0 st m] Some
      by (simp add: rollback_node.simps [of "Inner c (Some (Leaf c2 b2)) l r"] node_restore_def)
  qed
qed

lemma restored_contents: "restored st0 n0 st n \<Longrightarrow> contents st n = contents st0 n0"
  by (induction st0 n0 st n rule: restored.induct) (auto simp: as_before_def split: node.splits)

lemma restored_label: "restored st0 n0 st n \<Longrightarrow> label (cell n) = label (cell n0)"
  by (cases n; cases n0) (auto simp: as_before_def)

lemma restored_record:
  "restored (arrays c0) n0 (arrays c) n \<Longrightarrow> coll_fields c = coll_fields c0 \<Longrightarrow>
     record_at c path k d n = record_at c0 path k d n0"
proof (induction n arbitrary: n0 d rule: tree_induct)
  case (Leaf cl b)
  then show ?case
    by (cases n0) (auto simp: as_before_def recordKeyMatch_def recordKeyMismatch_def)
next
  case (Inner cl b l r)
  then show ?case by (cases n0; cases "bit_at path d") (auto simp del: bit_at_Some bit_at_None)
qed

section \<open>Transactions without Remove\<close>

fun removes :: "write_op \<Rightarrow> bool" where
  "removes (WRemove k) \<longleftrightarrow> True"
| "removes _ \<longleftrightarrow> False"

text \<open>What a running transaction keeps of the collection \<open>c0\<close> it started from.\<close>

definition started_from where
  "started_from c0 c \<longleftrightarrow>
     ongoing c \<and> same_config c0 c \<and> tx_id c = tx_id c0 \<and> apart (arrays c) (root c) \<and>
     undo (arrays c0) (root c0) (arrays c) (root c)"

text \<open>A write that succeeds marks the root.\<close>

lemma climb_marks: "climb sha fs True st (rebuild c b l r step ch) = Some (st2, n2) \<Longrightarrow> inconsistent (cell n2)"
  by (auto simp: climb_def rebuild_kids mark_inconsistent_def)

lemma set_at_marks: "set_at sha fs True path k gs d st n = Some (Inr (st2, n2)) \<Longrightarrow> inconsistent (cell n2)"
  by (cases n) (auto elim!: set_atE dest: climb_marks)

lemma add_at_marks: "add_at sha fs True path k rv d st n = Some (Inr (st2, n2)) \<Longrightarrow> inconsistent (cell n2)"
  by (cases n) (auto elim!: add_atE dest: climb_marks)

definition wrote where
  "wrote c0 c e c' \<longleftrightarrow> started_from c0 c' \<and> (if e = None then inconsistent (cell (root c')) else root c' = root c)"

lemma walk_wrote:
  assumes c: "started_from c0 c"
    and w: "Option.bind w (\<lambda>res. case res of Inl e \<Rightarrow> Some (Some e, c) | Inr s \<Rightarrow> finish c s) = Some (e, c')"
    and ok: "\<And>st2 n2. w = Some (Inr (st2, n2)) \<Longrightarrow> inconsistent (cell n2) \<and> undoable (root c) N st st2 n2"
    and st: "undo (arrays c0) (root c0) st (root c)"
  shows "wrote c0 c e c'"
proof (cases w)
  case (Some res)
  show ?thesis
  proof (cases res)
    case (Inl err)
    with w Some c show ?thesis by (auto simp: wrote_def)
  next
    case (Inr s)
    obtain st2 n2 where s: "s = (st2, n2)" by fastforce
    with w Some Inr have "finish c (st2, n2) = Some (e, c')" by simp
    with c have "e = None" "c' = c\<lparr>arrays := st2, root := n2\<rparr>" by (auto simp: finish_def Let_def started_from_def)
    with ok [of st2 n2] Some Inr s c st show ?thesis
      by (auto simp: wrote_def started_from_def undoable_def same_config_def)
  qed
qed (use w in simp)

lemma run_write_wrote:
  assumes c: "started_from c0 c" and w: "run_write sha c w = Some (e, c')" "\<not> removes w"
  shows "wrote c0 c e c'"
proof -
  have tx: "ongoing c" "apart (arrays c) (root c)" "undo (arrays c0) (root c0) (arrays c) (root c)"
    using c by (auto simp: started_from_def)
  have refused: "wrote c0 c (Some err) c" for err using c by (simp add: wrote_def)
  have set: "wrote c0 c e c'" if s: "Set sha c k gs = Some (e, c')" for k gs
  proof (cases "known (cell (root c))")
    case False
    with s refused show ?thesis by (auto simp: Set_def split: if_split_asm)
  next
    case True
    with s tx(1) have "Option.bind (set_at sha (coll_fields c) True (sha k) k gs 0 (arrays c) (root c))
        (\<lambda>res. case res of Inl e \<Rightarrow> Some (Some e, c) | Inr s \<Rightarrow> finish c s) = Some (e, c')"
      by (auto simp: Set_def Let_def split: if_split_asm)
    from walk_wrote [OF c this _ tx(3)] set_at_marks set_at_undoable [OF _ tx(2)] show ?thesis by blast
  qed
  show ?thesis
  proof (cases w)
    case (WAdd k gs)
    with w have add: "Add sha c k gs = Some (e, c')" by simp
    show ?thesis
    proof (cases "length k = 0 \<or> \<not> known (cell (root c))")
      case True
      with add refused show ?thesis by (auto simp: Add_def Let_def alloc_def bind_eq_Some_conv split: if_split_asm)
    next
      case False
      with add tx(1) obtain raw where b: "Option.bind (add_at sha (coll_fields c) True (sha k) k (length (arrays c)) 0
            (arrays c @ [raw]) (root c))
          (\<lambda>res. case res of Inl e \<Rightarrow> Some (Some e, c) | Inr s \<Rightarrow> finish c s) = Some (e, c')"
        by (cases "encode_all (coll_fields c) gs") (auto simp: Add_def Let_def alloc_def split: if_split_asm)
      have fr: "frame {} (arrays c) (arrays c @ [raw])" by simp
      have ap: "apart (arrays c @ [raw]) (root c)" "undo (arrays c0) (root c0) (arrays c @ [raw]) (root c)"
        using undo_frame [OF fr tx(2)] tx(3) by auto
      have "length (arrays c) \<notin> set (arefs (root c))" using tx(2) by (auto simp: apart_def)
      with walk_wrote [OF c b _ ap(2)] add_at_marks add_at_undoable [OF _ ap(1)] show ?thesis by fastforce
    qed
  next
    case (WSetField k i v)
    with w set show ?thesis by (auto simp: SetField_def split: if_split_asm)
  qed (use w set in auto)
qed

lemma run_writes_wrote:
  "started_from c0 c \<Longrightarrow> run_writes sha c ws = Some (es, c') \<Longrightarrow> \<forall>w \<in> set ws. \<not> removes w \<Longrightarrow>
     started_from c0 c' \<and> (None \<in> set es \<or> inconsistent (cell (root c)) \<longrightarrow> inconsistent (cell (root c'))) \<and>
     (None \<notin> set es \<longrightarrow> root c' = root c)"
proof (induction ws arbitrary: c es)
  case (Cons w ws)
  from Cons.prems(2) obtain e c1 es1 where r: "run_write sha c w = Some (e, c1)"
    "run_writes sha c1 ws = Some (es1, c')" "es = e # es1"
    by (auto simp: bind_eq_Some_conv)
  have 1: "wrote c0 c e c1" using run_write_wrote [OF Cons.prems(1) r(1)] Cons.prems(3) by simp
  then have "started_from c0 c1" by (simp add: wrote_def)
  from Cons.IH [OF this r(2)] Cons.prems(3) 1 show ?case
    by (auto simp: r(3) wrote_def split: if_split_asm)
qed simp

lemma rollback_marks:
  assumes "started_from c0 c" "\<not> node_leaf (root c0)"
  shows "inconsistent (cell (rollback_node (root c))) = inconsistent (cell (root c))"
proof -
  obtain cl b l r where root: "root c = Inner cl b l r" "b = None"
    using assms by (cases "root c"; cases "root c0")
      (auto simp: started_from_def as_before_def split: option.splits node.splits)
  then show ?thesis by (simp add: rollback_node.simps [of "Inner cl None l r"] node_restore_def)
qed

lemma Rollback_started:
  assumes c: "started_from c0 c" "coll_ok sha c" and root: "\<not> node_leaf (root c0)"
  obtains c' where "Rollback c = Some c'" "\<not> ongoing c'" "same_config c0 c'" "tx_id c' = tx_id c0 + 1"
    "kv c' = kv c0" "tree_label c' = tree_label c0" "\<And>k. Get_Record sha c' k = Get_Record sha c0 k"
    "inconsistent (cell (root c')) = inconsistent (cell (root c))"
proof -
  let ?c = "c\<lparr>root := rollback_node (root c), tx_id := tx_id c + 1, ongoing := False\<rparr>"
  have s: "ongoing c" "same_config c0 c" "tx_id c = tx_id c0" "undo (arrays c0) (root c0) (arrays c) (root c)"
    using c(1) by (auto simp: started_from_def)
  have r: "restored (arrays c0) (root c0) (arrays c) (rollback_node (root c))"
    using rollback_node_restores [OF s(4)] c(2) by (auto simp: coll_ok_def good_def)
  show ?thesis
    by (rule that [of ?c])
      (use s r restored_contents [OF r] restored_label [OF r] restored_record [of c0 "root c0" ?c "rollback_node (root c)"]
        rollback_marks [OF c(1) root] in
        \<open>auto simp: Rollback_def kv_def tree_label_def Get_Record_def same_config_def\<close>)
qed

lemma writes_rolled_back:
  assumes "kept sha K c" "\<not> ongoing c"
    and "\<forall>w \<in> set ws. write_ok K (coll_fields c) w \<and> \<not> removes w"
  obtains es c2 c3 where "Begin c = Some (c\<lparr>ongoing := True\<rparr>)" "run_writes sha (c\<lparr>ongoing := True\<rparr>) ws = Some (es, c2)"
    "Rollback c2 = Some c3" "\<not> ongoing c3" "kv c3 = kv c" "tree_label c3 = tree_label c"
    "\<And>k. Get_Record sha c3 k = Get_Record sha c k" "None \<in> set es \<Longrightarrow> inconsistent (cell (root c3))"
proof -
  let ?c1 = "c\<lparr>ongoing := True\<rparr>"
  have c: "whole sha c" "clean (root c)" "separated (arrays c) (root c)" "\<not> node_leaf (root c)"
    using assms(1,2) whole_known by (auto simp: kept_def whole_def coll_ok_def good_def)
  have "kept sha K ?c1" "coll_fields ?c1 = coll_fields c"
    using assms(1) by (auto simp: kept_def whole_def coll_ok_def kv_def)
  with run_writes_spec [of sha K ?c1 ws] assms(3) obtain es c2 where w: "run_writes sha ?c1 ws = Some (es, c2)" "kept sha K c2"
    by auto
  have "started_from c ?c1"
    using c undo_start [OF c(2)] by (simp add: started_from_def same_config_def apart_def arefs_clean separated_def)
  with run_writes_wrote [OF _ w(1)] assms(3) have s: "started_from c c2" "None \<in> set es \<Longrightarrow> inconsistent (cell (root c2))"
    by auto
  have "coll_ok sha c2" using w(2) by (simp add: kept_def whole_def)
  from Rollback_started [OF s(1) this c(4)] obtain c3 where "Rollback c2 = Some c3" "\<not> ongoing c3" "kv c3 = kv c"
    "tree_label c3 = tree_label c" "\<And>k. Get_Record sha c3 k = Get_Record sha c k"
    "inconsistent (cell (root c3)) = inconsistent (cell (root c2))" by metis
  with that [of es c2 c3] w(1) s(2) assms(2) show ?thesis by (simp add: Begin_def)
qed

end
