(* ===== verification/Typing.thy ===== *)
theory Typing
  imports Histories Walks ProofCorrect
begin

text \<open>
  Writes whose values need not suit the fields. What the code checks (the number of values) and what the
  encoders refuse ends in a panic, so that a history that runs to its end has written well-typed values
  only, and has become the history of a plain map.
\<close>

section \<open>A write that returns is well typed or without effect\<close>

fun write_key :: "write_op \<Rightarrow> bytes" where
  "write_key (WAdd k vs) = k"
| "write_key (WSet k vs) = k"
| "write_key (WSetField k i v) = k"
| "write_key (WRemove k) = k"

lemma set_values_encodable:
  "set_values fs gs vs = Some ws \<Longrightarrow> length gs = length fs \<Longrightarrow> encodable fs gs"
proof (induction fs gs vs arbitrary: ws rule: set_values.induct)
  case (3 F fs g gs vs)
  then show ?case
    by (cases vs) (auto simp: encodable_def bind_eq_Some_conv split: if_split_asm)
qed (auto simp: encodable_def)

lemma set_at_encodable:
  "set_at sha fs tx path k gs d st n = Some (Inr (st2, n2)) \<Longrightarrow> length gs = length fs \<Longrightarrow> encodable fs gs"
proof (induction n arbitrary: d st st2 n2 rule: tree_induct)
  case (Inner c b l r)
  from Inner.prems(1) show ?case
  proof (rule set_atE)
    fix step st1 ch
    let ?cu = "if step then r else l"
    assume leaf: "node_leaf ?cu \<Longrightarrow> overwrite_leaf sha fs tx gs st ?cu = Some (st1, ch)"
      and inner: "\<not> node_leaf ?cu \<Longrightarrow> set_at sha fs tx path k gs (d + 1) st ?cu = Some (Inr (st1, ch))"
    show ?thesis
    proof (cases "node_leaf ?cu")
      case True
      with leaf Inner.prems(2) set_values_encodable show ?thesis
        by (fastforce simp: overwrite_leaf_def Let_def bind_eq_Some_conv split: prod.split_asm)
    next
      case False
      with inner Inner.IH Inner.prems(2) show ?thesis by (cases step) auto
    qed
  qed
qed simp

lemma Set_typed:
  assumes "Set sha c k gs = Some (e, c')"
  shows "c' = c \<or> encodable (coll_fields c) gs"
proof (cases "known (cell (root c))")
  case False
  with assms show ?thesis by (auto simp: Set_def split: if_split_asm)
next
  case True
  with assms obtain res where len: "length gs = length (coll_fields c)"
    and res: "set_at sha (coll_fields c) (ongoing c) (sha k) k gs 0 (arrays c) (root c) = Some res"
      "(case res of Inl e \<Rightarrow> Some (Some e, c) | Inr s \<Rightarrow> finish c s) = Some (e, c')"
    by (auto simp: Set_def Let_def bind_eq_Some_conv split: if_split_asm)
  show ?thesis
  proof (cases res)
    case (Inr s)
    with res(1) set_at_encodable [OF _ len] show ?thesis by (cases s) blast
  qed (use res(2) in simp)
qed

lemma run_write_typed:
  assumes "run_write sha c w = Some (e, c')" "write_key w \<in> K" "[] \<notin> K"
  shows "c' = c \<or> write_ok K (coll_fields c) w"
proof (cases w)
  case (WAdd k vs)
  then have "k \<noteq> []" using assms(2,3) by auto
  then show ?thesis using assms(1,2) WAdd by (auto simp: Add_def bind_eq_Some_conv split: if_split_asm)
next
  case (WSetField k i v)
  then show ?thesis
    using assms(1,2) Set_typed by (auto simp: SetField_def one_field_def split: if_split_asm)
qed (use assms Set_typed in auto)

lemma typed_kept:
  assumes "kept sha K c" "run_write sha c w = Some (e, c')" "write_key w \<in> K"
  shows "kept sha K c' \<and> same_config c c' \<and> ongoing c' = ongoing c"
proof -
  have "[] \<notin> K" using assms(1) by (simp add: kept_def)
  with run_write_typed [OF assms(2,3)] consider "c' = c" | "write_ok K (coll_fields c) w" by blast
  then show ?thesis
  proof cases
    case 2
    with run_write_spec [OF assms(1) this] assms(2) show ?thesis by auto
  qed (use assms(1) in \<open>simp add: same_config_def\<close>)
qed

section \<open>Histories\<close>

lemma typed_writes:
  "kept sha K c \<Longrightarrow> run_writes sha c ws = Some (es, c') \<Longrightarrow> \<forall>w \<in> set ws. write_key w \<in> K \<Longrightarrow>
     kept sha K c' \<and> same_config c c' \<and> ongoing c' = ongoing c"
proof (induction ws arbitrary: c es)
  case (Cons w ws)
  then obtain e c1 es1 where w: "run_write sha c w = Some (e, c1)" "run_writes sha c1 ws = Some (es1, c')"
    by (auto simp: bind_eq_Some_conv)
  with Cons.prems typed_kept [OF Cons.prems(1) w(1)] Cons.IH [OF _ w(2)] show ?case
    by (auto simp: same_config_def)
qed (simp add: same_config_def)

lemma typed_tx:
  assumes "kept sha K c" "\<not> ongoing c" "run_tx sha c ws = Some (es, c')" "\<forall>w \<in> set ws. write_key w \<in> K"
  shows "kept sha K c' \<and> same_config c c' \<and> \<not> ongoing c'"
proof -
  have full: "full sha c" using assms(1,2) by (simp add: kept_def full_whole)
  obtain c1 where c1: "Begin c = Some c1" "whole sha c1" "ongoing c1" "same_config c c1" "kv c1 = kv c"
    using Begin_whole [OF full] by metis
  then have k1: "kept sha K c1" using assms(1) by (auto simp: kept_def)
  obtain c2 where c2: "run_writes sha c1 ws = Some (es, c2)" "End sha c2 = Some c'"
    using assms(3) c1(1) by (auto simp: run_tx_def bind_eq_Some_conv)
  have k2: "kept sha K c2" "same_config c1 c2" "ongoing c2"
    using typed_writes [OF k1 c2(1) assms(4)] c1(3) by auto
  then obtain c3 where "End sha c2 = Some c3" "full sha c3" "same_config c2 c3" "kv c3 = kv c2"
    using End_whole [of sha c2] unfolding kept_def by metis
  with c1 c2 k2 show ?thesis by (auto simp: kept_def full_whole same_config_def)
qed

lemma typed_history:
  "kept sha K c \<Longrightarrow> \<not> ongoing c \<Longrightarrow> run_history sha c hs = Some (es, c') \<Longrightarrow>
     \<forall>h \<in> set hs. \<forall>w \<in> set (writes_of h). write_key w \<in> K \<Longrightarrow>
     kept sha K c' \<and> same_config c c' \<and> \<not> ongoing c'"
proof (induction hs arbitrary: c es)
  case (Cons h hs)
  obtain es1 c1 es2 where run: "(case h of
           Outside w \<Rightarrow> map_option (\<lambda>(e, c'). ([e], c')) (run_write sha c w)
         | Inside ws \<Rightarrow> run_tx sha c ws
         | Pruning \<Rightarrow> map_option (\<lambda>c'. ([], c')) (Collect c)) = Some (es1, c1)"
    "run_history sha c1 hs = Some (es2, c')"
    using Cons.prems(3) by (auto simp: bind_eq_Some_conv)
  have "kept sha K c1 \<and> same_config c c1 \<and> \<not> ongoing c1"
  proof (cases h)
    case (Outside w)
    with run(1) Cons.prems(1,2,4) typed_kept [OF Cons.prems(1), of w] show ?thesis by auto
  next
    case (Inside ws)
    with run(1) Cons.prems(4) typed_tx [OF Cons.prems(1,2), of ws] show ?thesis by auto
  next
    case Pruning
    with run(1) collect_full [of sha c] Cons.prems(1,2) show ?thesis
      by (auto simp: kept_def whole_def same_config_def)
  qed
  with Cons.IH [OF _ _ run(2)] Cons.prems(4) show ?case by (auto simp: same_config_def)
qed (simp add: same_config_def)

section \<open>Reading\<close>

lemma decode_all_ok: "values_ok fs vs \<Longrightarrow> \<exists>xs. decode_all fs vs = Inr xs"
proof (induction fs arbitrary: vs)
  case (Cons F fs)
  then obtain v vs' where v: "vs = v # vs'" "decodable F v" "values_ok fs vs'"
    by (auto simp: values_ok_def list_all2_Cons1)
  obtain xs where "decode_all fs vs' = Inr xs" using Cons.IH [OF v(3)] by blast
  with v(1,2) show ?case by (auto simp: decodable_def)
qed simp

lemma full_reads:
  assumes "hash_ok sha" "full sha c" "k \<noteq> []"
  shows "Get_Record sha c k = Some (Inr (record_of c k (kv c k)))"
    and "kv c k \<noteq> None \<Longrightarrow> \<exists>xs. rec_Values (record_of c k (kv c k)) = Inr xs"
proof -
  have ok: "coll_ok sha c" using assms(2) by (simp add: full_def)
  show "Get_Record sha c k = Some (Inr (record_of c k (kv c k)))"
    using Get_Record_lookup [OF assms(1) ok assms(3)] full_lookup [OF assms] by simp
  assume "kv c k \<noteq> None"
  then obtain vs where vs: "kv c k = Some vs" by blast
  then have "values_ok (coll_fields c) vs" using kv_values_ok [OF ok] by blast
  with decode_all_ok [OF this] show "\<exists>xs. rec_Values (record_of c k (kv c k)) = Inr xs"
    by (auto simp: vs rec_Values_def record_of_def values_ok_def list_all2_lengthD)
qed

end
