(* ===== verification/Aliasing.thy ===== *)
theory Aliasing
  imports Rollbacks Typing
begin

text \<open>
  What \<open>Rollback\<close> does not undo. When \<open>Remove\<close> leaves a node with one leaf, the leaf's values move to the
  node: not a copy, the array itself. A later \<open>Set\<close> writes to that array, which the leaf that the backup
  of the node brings back still uses. \<open>aliased\<close> describes the path to such a leaf: what is there now and
  what is there after \<open>Rollback\<close> use one array.
\<close>

section \<open>Where a key leads\<close>

fun reaches :: "(bytes \<Rightarrow> bytes) \<Rightarrow> bytes \<Rightarrow> nat \<Rightarrow> aref \<Rightarrow> node \<Rightarrow> bool" where
  "reaches sha k d a (Leaf c b) \<longleftrightarrow> known c \<and> key c = k \<and> vals c = a"
| "reaches sha k d a (Inner c b l r) \<longleftrightarrow>
     known c \<and> (case bit_at (sha k) d of
       None \<Rightarrow> False | Some s \<Rightarrow> if s then reaches sha k (d + 1) a r else reaches sha k (d + 1) a l)"

lemma reaches_record:
  "reaches sha k d a n \<Longrightarrow>
     record_at c (sha k) k d n = Some (Inr (record_of c k (Some (read (arrays c) a))))"
  by (induction n arbitrary: d rule: tree_induct)
    (auto simp: recordKeyMatch_def record_of_def split: option.split_asm if_split_asm simp del: bit_at_Some bit_at_None)

lemma reaches_contents:
  assumes "hash_ok sha" "k \<noteq> []"
  shows "tree_ok sha fs st pre n \<Longrightarrow> reaches sha k (length pre) a n \<Longrightarrow> contents st n k = Some (read st a)"
proof (induction n arbitrary: pre rule: tree_induct)
  case (Inner c b l r)
  have len: "length pre < 8 * sha_size" using Inner.prems(1) by simp
  have kids: "tree_ok sha fs st (pre @ [False]) l" "tree_ok sha fs st (pre @ [True]) r" using Inner.prems(1) by auto
  have bit: "bit_at (sha k) (length pre) = Some (path_of sha k ! length pre)"
    by (rule bit_at_path [OF assms(1) len])
  show ?case
    using Inner.prems(2) Inner.IH(1) [OF kids(1)] Inner.IH(2) [OF kids(2)]
    unfolding contents_Inner_at [OF assms(1) Inner.prems(1)]
    by (auto simp: bit split: if_split_asm simp del: bit_at_Some bit_at_None contents.simps)
qed (use assms in auto)

section \<open>A leaf that shares its array with the leaf it was\<close>

fun aliased :: "(bytes \<Rightarrow> bytes) \<Rightarrow> bytes \<Rightarrow> nat \<Rightarrow> aref \<Rightarrow> node \<Rightarrow> bool" where
  "aliased sha k d a (Leaf c b) \<longleftrightarrow>
     known c \<and> key c = k \<and> vals c = a \<and> b \<noteq> None \<and> reaches sha k d a (rollback_node (Leaf c b))"
| "aliased sha k d a (Inner c b l r) \<longleftrightarrow>
     known c \<and> inconsistent c \<and> b = None \<and> (case bit_at (sha k) d of
       None \<Rightarrow> False | Some s \<Rightarrow> if s then aliased sha k (d + 1) a r else aliased sha k (d + 1) a l)"

lemma rollback_marked: "inconsistent c \<Longrightarrow> rollback_node (Inner c None l r) = Inner c None (rollback_node l) (rollback_node r)"
  by (simp add: rollback_node.simps [of "Inner c None l r"] node_restore_def)

lemma rollback_saved: "rollback_node (Leaf c (Some m)) = rollback_node (Leaf c' (Some m))"
  by (simp add: rollback_node.simps [of "Leaf c (Some m)"] rollback_node.simps [of "Leaf c' (Some m)"] node_restore_def)

lemma marked_same: "inconsistent c \<Longrightarrow> c\<lparr>inconsistent := True\<rparr> = c"
  by (cases c) simp

lemma aliased_reaches: "aliased sha k d a n \<Longrightarrow> reaches sha k d a n \<and> reaches sha k d a (rollback_node n)"
  by (induction n arbitrary: d rule: tree_induct)
    (auto simp: rollback_marked split: option.split_asm if_split_asm simp del: bit_at_Some bit_at_None)

text \<open>\<open>Set\<close> of the key writes to the shared array and changes nothing that \<open>Rollback\<close> would look at.\<close>

lemma overwrite_leaf_aliased:
  assumes "overwrite_leaf sha fs True gs st (Leaf c b) = Some (st2, n2)" "aliased sha k d a (Leaf c b)"
  shows "rollback_node n2 = rollback_node (Leaf c b) \<and> reaches sha k d a n2"
proof -
  obtain m where b: "b = Some m" using assms(2) by auto
  then obtain lab where "n2 = Leaf (c\<lparr>label := lab\<rparr>) (Some m)"
    using assms by (auto simp: overwrite_leaf_def backup_if_def node_backup_def update_def Let_def bind_eq_Some_conv)
  with b assms(2) rollback_saved show ?thesis by auto
qed

lemma set_at_aliased:
  "set_at sha fs True (sha k) k gs d st n = Some (Inr (st2, n2)) \<Longrightarrow> aliased sha k d a n \<Longrightarrow>
     rollback_node n2 = rollback_node n \<and> reaches sha k d a n2 \<and> inconsistent (cell n2)"
proof (induction n arbitrary: d st st2 n2 rule: tree_induct)
  case (Inner c b l r)
  from Inner.prems(1) show ?case
  proof (rule set_atE)
    fix step st1 ch
    let ?cu = "if step then r else l"
    assume bit: "bit_at (sha k) d = Some step"
      and up: "climb sha fs True st1 (rebuild c b l r step ch) = Some (st2, n2)"
      and leaf: "node_leaf ?cu \<Longrightarrow> overwrite_leaf sha fs True gs st ?cu = Some (st1, ch)"
      and inner: "\<not> node_leaf ?cu \<Longrightarrow> set_at sha fs True (sha k) k gs (d + 1) st ?cu = Some (Inr (st1, ch))"
    have al: "aliased sha k (d + 1) a ?cu" and c: "known c" "inconsistent c" "b = None"
      using Inner.prems(2) by (auto simp: bit simp del: bit_at_Some bit_at_None split: if_split_asm)
    have ch: "rollback_node ch = rollback_node ?cu \<and> reaches sha k (d + 1) a ch"
    proof (cases "node_leaf ?cu")
      case True
      then obtain c1 b1 where "?cu = Leaf c1 b1" by (cases "?cu") auto
      with overwrite_leaf_aliased [of sha fs gs st c1 b1 st1 ch k "d + 1" a] leaf True al show ?thesis by simp
    next
      case False
      with inner al Inner.IH show ?thesis by (cases step) auto
    qed
    have "n2 = Inner c None (kid_left step l ch) (kid_right step r ch)"
      using up c by (auto simp: climb_def rebuild_kids mark_inconsistent_def marked_same)
    with ch c bit show ?thesis
      by (cases step) (auto simp: rollback_marked kid_left_def kid_right_def simp del: bit_at_Some bit_at_None)
  qed
qed simp

section \<open>What Remove does to the other leaf of a node\<close>

text \<open>The two keys are those of the two leaves of one inner node.\<close>

fun siblings :: "node \<Rightarrow> bytes \<Rightarrow> bytes \<Rightarrow> bool" where
  "siblings (Leaf c b) k1 k2 \<longleftrightarrow> False"
| "siblings (Inner c b l r) k1 k2 \<longleftrightarrow>
     node_leaf l \<and> node_leaf r \<and> (key (cell l) = k1 \<and> key (cell r) = k2 \<or> key (cell l) = k2 \<and> key (cell r) = k1) \<or>
     siblings l k1 k2 \<or> siblings r k1 k2"

lemma siblings_on_path:
  "tree_ok sha fs st pre n \<Longrightarrow> all_known n \<Longrightarrow> siblings n k1 k2 \<Longrightarrow> k1 \<noteq> [] \<Longrightarrow> k2 \<noteq> [] \<Longrightarrow>
     on_path sha pre k1 \<and> on_path sha pre k2"
proof (induction n arbitrary: pre rule: tree_induct)
  case (Inner c b l r)
  show ?case
  proof (cases "siblings l k1 k2 \<or> siblings r k1 k2")
    case True
    with Inner show ?thesis by (auto dest: on_path_imp_prefix)
  next
    case False
    with Inner.prems show ?thesis by (cases l; cases r) (auto dest: on_path_imp_prefix)
  qed
qed simp

text \<open>A node that has become a leaf over its old self.\<close>

lemma collapse_aliased:
  fixes l r :: node and s :: bool
  defines "x \<equiv> if s then r else l" and "y \<equiv> if s then l else r"
  assumes co: "collapse True st (Inner c None l r) = (st2, n2)" "known c"
    and k: "bit_at (sha k) d = Some s" "k \<noteq> []"
    and x: "node_leaf x" "reaches sha k (d + 1) a x" "reaches sha k (d + 1) a (rollback_node x)"
    and y: "node_placeholder y"
  shows "aliased sha k d a n2"
proof -
  obtain cx bx where cx: "x = Leaf cx bx" "known cx" "key cx = k" "vals cx = a" using x(1,2) by (cases x) auto
  then have other: "(if node_placeholder l then r else l) = x"
    using y k(2) by (cases s) (auto simp: x_def y_def node_placeholder_def)
  obtain m where n2: "n2 = Leaf (c\<lparr>label := label cx, key := k, vals := a\<rparr>) (Some (Inner m None l r))" "known m"
    using co other cx
    by (auto simp: collapse_def backup_if_def node_backup_def alloc_def node_prune_def Let_def split: if_split_asm)
  have "rollback_node n2 = Inner m None (rollback_node l) (rollback_node r)"
    by (simp add: n2 rollback_node.simps [of "Leaf c' (Some (Inner m None l r))" for c'] node_restore_def)
  with x(3) k(1) co(2) n2 show ?thesis
    by (auto simp: x_def simp del: bit_at_Some bit_at_None split: if_split_asm)
qed

lemma climb_remove_aliased:
  assumes up: "climb_remove sha fs True is_root st (rebuild c None l r s ch) = Some (st2, n2)" "known c"
    and ch: "aliased sha k (d + 1) a ch" and k: "bit_at (sha k) d = Some s" "k \<noteq> []"
  shows "aliased sha k d a n2"
proof (cases "\<not> is_root \<and> collapsible (kid_left s l ch) (kid_right s r ch)")
  case True
  have ph: "\<not> node_placeholder ch" using ch k(2) by (cases ch) (auto simp: node_placeholder_def)
  have co: "collapse True st (Inner c None (kid_left s l ch) (kid_right s r ch)) = (st2, n2)"
    using up(1) True by (simp add: climb_remove_def rebuild_kids)
  show ?thesis
    by (rule collapse_aliased [where sha = sha and k = k and d = d and s = s and l = "kid_left s l ch" and r = "kid_right s r ch", OF co up(2) k])
      (use True ph aliased_reaches [OF ch] in
        \<open>auto simp: kid_left_def kid_right_def collapsible_def split: if_split_asm\<close>)
next
  case False
  then have "climb sha fs True st (rebuild c None l r s ch) = Some (st2, n2)"
    using up(1) by (auto simp: climb_remove_def rebuild_kids)
  then have "n2 = Inner (c\<lparr>inconsistent := True\<rparr>) None (kid_left s l ch) (kid_right s r ch)"
    by (auto simp: climb_def rebuild_kids mark_inconsistent_def)
  with up(2) ch k(1) show ?thesis
    by (cases s) (simp_all add: kid_left_def kid_right_def del: bit_at_Some bit_at_None)
qed

lemma remove_below_aliased:
  fixes l r :: node and s :: bool
  defines "x \<equiv> if s then r else l"
  assumes hash: "hash_ok sha" and k: "k1 \<noteq> []" "k2 \<noteq> []"
    and n: "tree_ok sha fs st pre (Inner c b l r)" "clean (Inner c b l r)" "all_known (Inner c b l r)"
    and sib: "siblings x k1 k2"
    and below: "\<And>st1 ch. remove_at sha fs True (sha k1) k1 False (length (pre @ [s])) st x = Some (Inr (st1, ch)) \<Longrightarrow>
      \<exists>a. aliased sha k2 (length (pre @ [s])) a ch"
    and run: "remove_at sha fs True (sha k1) k1 is_root (length pre) st (Inner c b l r) = Some (Inr (st2, n2))"
  shows "\<exists>a. aliased sha k2 (length pre) a n2"
proof -
  have len: "length pre < 8 * sha_size" using n(1) by simp
  have "tree_ok sha fs st (pre @ [s]) x" "all_known x" using n by (auto simp: x_def)
  from siblings_on_path [OF this sib k] have
    bits: "bit_at (sha k1) (length pre) = Some s" "bit_at (sha k2) (length pre) = Some s"
    by (simp_all add: on_path_snoc [OF hash len] bit_at_path [OF hash len])
  have c: "known c" "b = None" "\<not> node_leaf x" using n sib by (cases x; auto)+
  from run show ?thesis
  proof (rule remove_atE)
    fix step st1 ch
    let ?cu = "if step then r else l"
    assume bit: "bit_at (sha k1) (length pre) = Some step"
      and up: "climb_remove sha fs True is_root st1 (rebuild c b l r step ch) = Some (st2, n2)"
      and inner: "\<not> node_leaf ?cu \<Longrightarrow>
        remove_at sha fs True (sha k1) k1 False (length pre + 1) st ?cu = Some (Inr (st1, ch))"
    have s: "step = s" using bit bits(1) by simp
    then obtain a where "aliased sha k2 (length pre + 1) a ch"
      using below [of st1 ch] inner c(3) by (auto simp: x_def)
    with climb_remove_aliased [OF up [unfolded c(2) s] c(1) _ bits(2) k(2)] show ?thesis by blast
  qed
qed

lemma remove_at_aliased:
  assumes hash: "hash_ok sha" and k: "k1 \<noteq> []" "k2 \<noteq> []" "k1 \<noteq> k2"
  shows "tree_ok sha fs st pre n \<Longrightarrow> clean n \<Longrightarrow> all_known n \<Longrightarrow> siblings n k1 k2 \<Longrightarrow>
    remove_at sha fs True (sha k1) k1 False (length pre) st n = Some (Inr (st2, n2)) \<Longrightarrow>
    \<exists>a. aliased sha k2 (length pre) a n2"
proof (induction n arbitrary: pre st2 n2 rule: tree_induct)
  case (Inner c b l r)
  note n = Inner.prems(1-3)
  consider (left) "siblings l k1 k2" | (right) "siblings r k1 k2" |
    (here) "node_leaf l" "node_leaf r"
      "key (cell l) = k1 \<and> key (cell r) = k2 \<or> key (cell l) = k2 \<and> key (cell r) = k1"
    using Inner.prems(4) by auto
  then show ?case
  proof cases
    case left
    show ?thesis
      by (rule remove_below_aliased [OF hash k(1,2) n, where s = False])
        (use left Inner.prems(5) Inner.IH(1) [of "pre @ [False]"] n in auto)
  next
    case right
    show ?thesis
      by (rule remove_below_aliased [OF hash k(1,2) n, where s = True])
        (use right Inner.prems(5) Inner.IH(2) [of "pre @ [True]"] n in auto)
  next
    case here
    have len: "length pre < 8 * sha_size" using n(1) by simp
    have c: "known c" "b = None" using n by auto
    from Inner.prems(5) show ?thesis
    proof (rule remove_atE)
      fix step st1 ch
      let ?cu = "if step then r else l" and ?x = "if step then l else r"
      assume bit: "bit_at (sha k1) (length pre) = Some step"
        and up: "climb_remove sha fs True False st1 (rebuild c b l r step ch) = Some (st2, n2)"
        and leaf: "node_leaf ?cu \<Longrightarrow> clear_leaf sha fs True st ?cu = Some (Inr (st1, ch))"
      have s: "step = path_of sha k1 ! length pre" using bit bit_at_path [OF hash len, of k1] by simp
      obtain cl cr where lr: "l = Leaf cl None" "r = Leaf cr None" "known cl" "known cr"
        using here(1,2) n by (cases l; cases r) auto
      have keys: "key (cell ?cu) = k1" "key (cell ?x) = k2" "path_of sha k2 ! length pre = (\<not> step)"
        using here(3) n(1) k lr by (auto simp: s on_path_snoc [OF hash len])
      have "clear_leaf sha fs True st ?cu = Some (Inr (st1, ch))" using leaf here(1,2) by simp
      then have ph: "node_placeholder ch"
        by (auto simp: clear_leaf_def setPlaceholder_eq node_placeholder_def split: prod.split_asm if_split_asm)
      have x: "node_leaf ?x" "reaches sha k2 (length pre + 1) (vals (cell ?x)) ?x" "rollback_node ?x = ?x"
        using keys(2) lr n(2) by (auto simp: rollback_node.simps [of "Leaf c' None" for c'])
      have "collapse True st1 (Inner c None (kid_left step l ch) (kid_right step r ch)) = (st2, n2)"
        using up ph x(1) c(2)
        by (auto simp: climb_remove_def rebuild_kids collapsible_def kid_left_def kid_right_def split: if_split_asm)
      moreover have "bit_at (sha k2) (length pre) = Some (\<not> step)"
        using bit_at_path [OF hash len, of k2] keys(3) by simp
      ultimately have "aliased sha k2 (length pre) (vals (cell ?x)) n2"
        using collapse_aliased [of st1 c "kid_left step l ch" "kid_right step r ch" st2 n2 sha k2 "length pre" "\<not> step"] c(1) k(2) x ph
        by (auto simp: kid_left_def kid_right_def simp del: bit_at_Some bit_at_None split: if_split_asm)
      then show ?thesis by blast
    qed
  qed
qed simp

section \<open>Remove, Set, Rollback\<close>

text \<open>Below the root, where \<open>Remove\<close> of one of the keys makes the node a leaf with the other.\<close>

definition twins :: "node \<Rightarrow> bytes \<Rightarrow> bytes \<Rightarrow> bool" where
  "twins n k1 k2 \<longleftrightarrow>
     (case n of Leaf c b \<Rightarrow> False | Inner c b l r \<Rightarrow> siblings l k1 k2 \<or> siblings r k1 k2)"

lemma siblings_contents:
  "siblings n k1 k2 \<Longrightarrow> all_known n \<Longrightarrow> k1 \<noteq> [] \<Longrightarrow> k2 \<noteq> [] \<Longrightarrow> contents st n k1 \<noteq> None \<and> contents st n k2 \<noteq> None"
proof (induction n rule: tree_induct)
  case (Inner c b l r)
  then consider "siblings l k1 k2" | "siblings r k1 k2" |
    "node_leaf l" "node_leaf r" "key (cell l) = k1 \<and> key (cell r) = k2 \<or> key (cell l) = k2 \<and> key (cell r) = k1"
    by auto
  then show ?case
  proof cases
    case 3
    with Inner.prems show ?thesis by (cases l; cases r) auto
  qed (use Inner in \<open>auto simp: map_add_None\<close>)
qed simp

lemma marked_root:
  assumes "n = Inner c None l r"
  shows "remove_at sha fs True path k True d st n = Some (Inr (st2, n2)) \<Longrightarrow>
      \<exists>l' r'. n2 = Inner (c\<lparr>inconsistent := True\<rparr>) None l' r'"
    and "set_at sha fs True path k gs d st n = Some (Inr (st2, n2)) \<Longrightarrow>
      \<exists>l' r'. n2 = Inner (c\<lparr>inconsistent := True\<rparr>) None l' r'"
  using assms
  by (auto elim!: remove_atE set_atE simp: climb_remove_def climb_def rebuild_kids mark_inconsistent_def)

lemma rollback_aliases:
  assumes hash: "hash_ok sha" and c: "whole sha c" "\<not> ongoing c"
    and k: "k1 \<noteq> []" "k2 \<noteq> []" "k1 \<noteq> k2" "twins (root c) k1 k2" and gs: "encodable (coll_fields c) gs"
  obtains c2 c3 c4 old ws where
    "Begin c = Some (c\<lparr>ongoing := True\<rparr>)" "Remove sha (c\<lparr>ongoing := True\<rparr>) k1 = Some (None, c2)"
    "Set sha c2 k2 gs = Some (None, c3)" "Rollback c3 = Some c4" "kv c k2 = Some old"
    "merged (coll_fields c) gs old = Some ws" "Get_Record sha c4 k2 = Some (Inr (record_of c4 k2 (Some ws)))"
    "coll_fields c4 = coll_fields c" "tree_label c4 = tree_label c" "inconsistent (cell (root c4))"
proof -
  let ?c1 = "c\<lparr>ongoing := True\<rparr>"
  let ?fs = "coll_fields c"
  obtain cr b l r where root: "root c = Inner cr b l r" using k(4) by (cases "root c") (auto simp: twins_def)
  have n: "tree_ok sha ?fs (arrays c) [] (Inner cr b l r)" "clean (Inner cr b l r)" "all_known (Inner cr b l r)"
    using c root by (auto simp: whole_def coll_ok_def good_def)
  then have b: "b = None" "known cr" by auto
  have w1: "whole sha ?c1" using c by (auto simp: whole_def coll_ok_def)
  have kv1: "kv ?c1 = kv c" by (simp add: kv_def)
  obtain s where sib: "siblings (if s then r else l) k1 k2"
    using k(4) root by (auto simp: twins_def) (metis (full_types))+
  have "contents (arrays c) (if s then r else l) q \<noteq> None" if "q \<in> {k1, k2}" for q
    using siblings_contents [OF sib _ k(1,2)] n(3) that by (cases s) auto
  then have kvs: "kv c q \<noteq> None" if "q \<in> {k1, k2}" for q
    using that by (cases s) (auto simp: kv_def root map_add_None)
  obtain c2 where c2: "Remove sha ?c1 k1 = Some (None, c2)" "whole sha c2" "ongoing c2" "same_config ?c1 c2"
    "kv c2 = (kv c)(k1 := None)"
    using Remove_whole(2) [OF hash w1 k(1)] kvs [of k1] by (auto simp: kv1 rewritten_def)
  have fs2: "coll_fields c2 = ?fs" using c2(4) by (simp add: same_config_def)
  obtain old where old: "kv c k2 = Some old" using kvs [of k2] by auto
  with c2(5) k(3) have "kv c2 k2 = Some old" by simp
  with Set_whole(2) [OF hash c2(2) k(2), of gs] gs fs2 obtain ws c3 where
    ws: "merged ?fs gs old = Some ws" "Set sha c2 k2 gs = Some (None, c3)" "whole sha c3" "ongoing c3"
      "same_config c2 c3" "kv c3 k2 = Some ws"
    using c2(3) by (auto simp: rewritten_def)
  obtain st2 n2 where rem: "remove_at sha ?fs True (sha k1) k1 True 0 (arrays c) (root c) = Some (Inr (st2, n2))"
    "root c2 = n2" "arrays c2 = st2"
    using c2(1) b root by (simp add: Remove_def) (erule write_SomeD, auto simp: finish_def Let_def)
  have len: "length (coll_fields c2) = length gs"
    using gs fs2 by (auto simp: encodable_def list_all2_lengthD)
  obtain st3 n3 where set: "set_at sha ?fs True (sha k2) k2 gs 0 st2 n2 = Some (Inr (st3, n3))"
    "root c3 = n3" "arrays c3 = st3"
    using ws(2) c2(3) fs2 rem(2,3) len whole_known [OF c2(2)]
    by (simp add: Set_def) (erule write_SomeD, auto simp: finish_def Let_def)
  obtain a where a: "aliased sha k2 0 a n2"
    using remove_below_aliased [OF hash k(1,2) n sib, of True st2 n2] rem(1) root
      remove_at_aliased [OF hash k(1-3), of ?fs "arrays c" "[s]" "if s then r else l"] n sib
    by (cases s) auto
  note al = set_at_aliased [OF set(1) a]
  have "kv c3 k2 = Some (read st3 a)"
    using reaches_contents [OF hash k(2), of "coll_fields c3" st3 "[]" n3 a] ws(3) al set(2,3)
    by (simp add: kv_def whole_def coll_ok_def good_def)
  then have ra: "read st3 a = ws" using ws(6) by simp
  obtain l2 r2 where n2: "n2 = Inner (cr\<lparr>inconsistent := True\<rparr>) None l2 r2"
    using marked_root(1) [OF root [unfolded b(1)] rem(1)] by blast
  obtain l3 r3 where n3: "n3 = Inner (cr\<lparr>inconsistent := True\<rparr>) None l3 r3"
    using marked_root(2) [OF n2 set(1)] by auto
  let ?c4 = "c3\<lparr>root := rollback_node n3, tx_id := tx_id c3 + 1, ongoing := False\<rparr>"
  have "Rollback c3 = Some ?c4" using ws(4) set(2) by (simp add: Rollback_def)
  moreover have "Get_Record sha ?c4 k2 = Some (Inr (record_of ?c4 k2 (Some ws)))"
    using reaches_record [of sha k2 0 a "rollback_node n3" ?c4] aliased_reaches [OF a] al k(2) ra set(3)
    by (simp add: Get_Record_def)
  moreover have "tree_label ?c4 = tree_label c" "inconsistent (cell (root ?c4))"
    using root by (simp_all add: n3 tree_label_def rollback_marked)
  moreover have "coll_fields ?c4 = ?fs" using ws(5) fs2 by (simp add: same_config_def)
  ultimately show ?thesis
    using that c2(1) ws(1,2) old c(2) by (simp add: Begin_def)
qed

end
