(* ===== verification/CollectionProps.thy ===== *)
theory CollectionProps
  imports Examples NavigateCorrect TestChecks Aliasing
begin

text \<open>
  The properties of the database of package \<open>collection\<close>, each with an input at which its hypotheses
  hold.
\<close>

section \<open>A map with a Merkle root\<close>

text \<open>C1: From a new collection, any sequence of \<open>Add\<close>, \<open>Set\<close>, \<open>SetField\<close> and \<open>Remove\<close>, each outside a
  transaction or grouped in transactions, with prunings in between, runs to its end without a panic.
  Every call answers what the same call on a plain key/value map answers, and afterwards the
  collection stands for that map: \<open>Get(k).Record()\<close> gives the values of the map under every key. The
  keys are in a set without collision of the hash function, and the values suit the fields.\<close>

theorem history_refines_map:
  assumes "hash_ok sha" "inj_on sha K" "[] \<notin> K" "fields_ok fs" "New sha fs = Some c0"
    and "\<forall>h \<in> set hs. \<forall>w \<in> set (writes_of h). write_ok K fs w"
    and "spec_writes fs Map.empty (concat (map writes_of hs)) = (answers, m)"
  shows "\<exists>c. run_history sha c0 hs = Some (answers, c) \<and> whole sha c \<and> \<not> ongoing c \<and> kv c = m \<and>
    (\<forall>k. k \<noteq> [] \<longrightarrow> Get_Record sha c k = Some (Inr (record_of c k (m k))))"
proof -
  have c0: "full sha c0" "kv c0 = Map.empty" "coll_fields c0 = fs"
    using New_full [OF assms(1,4)] assms(5) by auto
  then have "kept sha K c0" "\<not> ongoing c0" using assms(1-3) by (auto simp: kept_def full_whole)
  then obtain c where c: "run_history sha c0 hs = Some (answers, c)" "kept sha K c" "\<not> ongoing c" "kv c = m"
    using run_history_spec [of sha K c0 hs] assms(6,7) c0 by auto
  then have "whole sha c" "full sha c" by (auto simp: kept_def full_whole)
  then have "Get_Record sha c k = Some (Inr (record_of c k (m k)))" if "k \<noteq> []" for k
    using Get_Record_lookup [OF assms(1) _ that, of c] full_lookup [OF assms(1) _ that, of c] c(4)
    by (simp add: full_def)
  with c \<open>whole sha c\<close> show ?thesis by blast
qed

theorem history_refines_map_witness:
  "\<exists>c. run_history demo_sha demo_db
      [Outside (WAdd [1] [GUint64 5, GBytes [7]]), Pruning,
       Inside [WAdd [2] [GUint64 3, GBytes [4]], WRemove [1], WRemove [3]]] =
     Some ([None, None, None, Some KeyNotFound], c) \<and> whole demo_sha c \<and> \<not> ongoing c \<and>
     kv c = [[2] \<mapsto> [put_uint64 3, [4]]] \<and>
     (\<forall>k. k \<noteq> [] \<longrightarrow> Get_Record demo_sha c k =
        Some (Inr (record_of c k ([[2] \<mapsto> [put_uint64 3, [4]]] k))))"
proof (rule history_refines_map [of demo_sha "{[1], [2], [3]}" demo_fields])
  let ?hs = "[Outside (WAdd [1] [GUint64 5, GBytes [7]]), Pruning,
       Inside [WAdd [2] [GUint64 3, GBytes [4]], WRemove [1], WRemove [3]]]"
  show "\<forall>h \<in> set ?hs. \<forall>w \<in> set (writes_of h). write_ok {[1], [2], [3]} demo_fields w"
    using demo_write_ok by (simp del: write_ok.simps) simp
  show "spec_writes demo_fields Map.empty (concat (map writes_of ?hs)) =
      ([None, None, None, Some KeyNotFound], [[2] \<mapsto> [put_uint64 3, [4]]])"
    by (simp add: demo_encode)
qed (use demo_db demo_keys in simp_all)

text \<open>C6: The Merkle root depends on the contents only: two full collections with the same fields and
  the same key/value map have the same root, whatever histories led to them.\<close>

theorem contents_determine_root:
  assumes "hash_ok sha" "full sha c" "full sha c'" "coll_fields c = coll_fields c'" "kv c = kv c'"
  shows "tree_label c = tree_label c'"
  by (rule full_root [OF assms])

theorem contents_determine_root_witness: "tree_label demo_db1 = tree_label demo_db2"
  by (rule contents_determine_root [of demo_sha]) (simp_all add: demo_db1(1,3) demo_db2)

text \<open>C7: Conversely the Merkle root binds the contents: two full collections with the same root have
  the same values under every key, unless two of the nodes that are hashed for their labels collide.\<close>

theorem root_binds_map:
  assumes "hash_ok sha" "full sha c" "full sha c'" "coll_fields c = coll_fields c'"
    and "inj_on sha (hashed (arrays c) (root c) \<union> hashed (arrays c') (root c'))"
    and "tree_label c = tree_label c'" "k \<noteq> []"
  shows "kv c k = kv c' k"
  using root_binds_contents [OF assms(1,5) _ _ _ _ assms(4,6,7)]
    full_lookup [OF assms(1,2,7)] full_lookup [OF assms(1,3,7)] assms(2,3)
  by (auto simp: full_def)

theorem root_binds_map_witness: "kv demo_db1 [2] = kv demo_db2 [2]"
proof (rule root_binds_map [of demo_sha])
  have "full demo_sha demo_db1" "full demo_sha demo_db2" using demo_db1(1) demo_db2(1) by auto
  then show "tree_label demo_db1 = tree_label demo_db2"
    using full_root [OF demo_hash] demo_db1(3) demo_db2(2,3) by metis
  show "inj_on demo_sha
      (hashed (arrays demo_db1) (root demo_db1) \<union> hashed (arrays demo_db2) (root demo_db2))"
    using demo_secure demo_hashed by (simp add: secure_on_def)
qed (simp_all add: demo_db1(1,3) demo_db2(1,3))

section \<open>The operations\<close>

text \<open>C10: In a full collection with a stake field whose stakes add up to less than 2 to the 64,
  navigating along that field with a number below the total stake finds a key that is there, with its
  values; with any other number it is refused; and every key is found by exactly as many numbers as it
  has stake. So a number drawn at random below the total finds every key with the probability of its
  share of the stake.\<close>

theorem navigation_shares:
  assumes "hash_ok sha" "full sha c" "j < length (coll_fields c)" "coll_fields c ! j = Stake64"
    and "total_stake c j < 2 ^ 64" "k \<noteq> []"
  shows "(if unat q < total_stake c j
      then \<exists>r n. navigate c j q = Some (Inr r, n) \<and> kv c (rec_key r) = Some (rec_values r)
      else \<exists>n. navigate c j q = Some (Inl QueryExceedsStake, n)) \<and>
    card {q. \<exists>r n. navigate c j q = Some (Inr r, n) \<and> rec_key r = k} = stake_at c j k"
  using navigate_within [OF assms(1-5), of q] navigate_beyond [OF assms(1-5), of q] navigate_shares [OF assms]
  by auto

theorem navigation_shares_witness:
  "(\<exists>r n. navigate demo_db1 0 4 = Some (Inr r, n) \<and> rec_values r = [put_uint64 5, [7]]) \<and>
   (\<exists>n. navigate demo_db1 0 5 = Some (Inl QueryExceedsStake, n)) \<and>
   card {q. \<exists>r n. navigate demo_db1 0 q = Some (Inr r, n) \<and> rec_key r = [1]} = 5"
proof -
  have j: "0 < length (coll_fields demo_db1)" "coll_fields demo_db1 ! 0 = Stake64"
    by (simp_all add: demo_db1(3) demo_fields_def)
  have t: "total_stake demo_db1 0 = 5" "stake_at demo_db1 0 [1] = 5"
    by (simp_all add: total_stake_def stake_at_def demo_db1(2))
  have "total_stake demo_db1 0 < 2 ^ 64" "[1 :: byte] \<noteq> []" by (simp_all add: t)
  note n = navigation_shares [OF demo_hash demo_db1(1) j this]
  show ?thesis using n [of 4] n [of 5] by (auto simp: t demo_db1(2) split: if_splits)
qed

text \<open>A transaction is equivalent to its writes: \<open>Begin\<close>, a list of writes and \<open>End\<close> (which drops the
  backups and recomputes the labels of the nodes marked inconsistent) gives the same answers, the same
  contents and the same Merkle root as the writes one by one outside a transaction.\<close>

theorem transaction_equivalence:
  assumes "kept sha K c" "\<not> ongoing c" "\<forall>w \<in> set ws. write_ok K (coll_fields c) w"
  shows "\<exists>answers c1 c2. run_tx sha c ws = Some (answers, c1) \<and> run_writes sha c ws = Some (answers, c2) \<and>
    kv c1 = kv c2 \<and> tree_label c1 = tree_label c2"
  by (rule run_tx_writes [OF assms])

theorem transaction_equivalence_witness:
  "\<exists>answers c1 c2.
     run_tx demo_sha demo_db1 [WAdd [2] [GUint64 3, GBytes [4]], WRemove [1]] = Some (answers, c1) \<and>
     run_writes demo_sha demo_db1 [WAdd [2] [GUint64 3, GBytes [4]], WRemove [1]] = Some (answers, c2) \<and>
     kv c1 = kv c2 \<and> tree_label c1 = tree_label c2"
proof (rule transaction_equivalence [OF demo_kept1])
  show "\<not> ongoing demo_db1" using demo_db1(1) by (simp add: full_def)
  show "\<forall>w \<in> set [WAdd [2] [GUint64 3, GBytes [4]], WRemove [1]].
      write_ok {[1], [2], [3]} (coll_fields demo_db1) w"
    using demo_write_ok by (simp add: demo_db1(3) del: write_ok.simps) simp
qed

text \<open>C30: The checks the package's own tests make hold after every operation: whatever consistent collection
  is pruned (as every write outside a transaction does), labels, values, paths and scope are right at
  every node; the checks for presence and absence of a key say what the map says; and the check of the
  values of a key has no complaint exactly if the values encode to those stored.\<close>

theorem test_checks_pass:
  assumes "hash_ok sha" "coll_ok sha c" "\<not> ongoing c" "k \<noteq> []"
  shows "\<exists>c'. Collect c = Some c' \<and> check_tree sha c' = Some [] \<and> check_scope c' = Some [] \<and>
    check_key c' k = (if kv c' k = None then [NodeNotFound] else []) \<and>
    check_noKey c' k = (if kv c' k = None then [] else [UnexpectedNode]) \<and>
    (\<forall>vs gs raw. kv c' k = Some vs \<longrightarrow> encode_all (coll_fields c) gs = Some raw \<longrightarrow>
       (\<exists>cs. check_values c' k gs = Some cs \<and> (cs = [] \<longleftrightarrow> raw = vs)))"
proof -
  obtain c' where c': "Collect c = Some c'" "coll_ok sha c'" "\<not> ongoing c'" "coll_fields c' = coll_fields c"
    using Collect_total [OF assms(1,2)] assms(2,3) by (auto simp: collects_def coll_ok_def same_config_def)
  have "check_scope c' = Some []" by (rule check_scope_ok [OF _ c'(1)]) (use assms(2) in \<open>simp add: coll_ok_def\<close>)
  moreover have "keyRecursion k (root c') = None \<longleftrightarrow> kv c' k = None"
    using keyRecursion_kv [OF assms(1) c'(2) assms(4)] by simp
  ultimately show ?thesis
    using c' check_tree_ok [OF assms(1) c'(2,3)] check_values_iff [OF assms(1) c'(2) assms(4)]
    by (intro exI [of _ c']) (auto simp: check_key_def check_noKey_def)
qed

theorem test_checks_pass_witness:
  "\<exists>c'. Collect demo_db1 = Some c' \<and> check_tree demo_sha c' = Some [] \<and> check_scope c' = Some [] \<and>
     check_key c' [1] = [] \<and> check_values c' [1] [GUint64 5, GBytes [7]] = Some [] \<and>
     check_values c' [1] [GUint64 6, GBytes [7]] \<noteq> Some []"
proof -
  have ok: "coll_ok demo_sha demo_db1" "\<not> ongoing demo_db1" using demo_db1(1) by (auto simp: full_def)
  have c: "Collect demo_db1 = Some demo_db1" using collect_full [of demo_sha demo_db1] demo_db1(1) by (simp add: full_def)
  have d: "put_uint64 6 \<noteq> put_uint64 5" by code_simp
  from test_checks_pass [OF demo_hash ok, of "[1]"] c
  have r: "check_tree demo_sha demo_db1 = Some []" "check_scope demo_db1 = Some []" "check_key demo_db1 [1] = []"
    and v: "\<And>gs raw. encode_all demo_fields gs = Some raw \<Longrightarrow>
      \<exists>cs. check_values demo_db1 [1] gs = Some cs \<and> (cs = [] \<longleftrightarrow> raw = [put_uint64 5, [7]])"
    by (auto simp: demo_db1(2,3))
  show ?thesis using r c d v [OF demo_encode, of 5 "[7]"] v [OF demo_encode, of 6 "[7]"] by auto
qed

section \<open>Scopes, types, rollbacks\<close>

text \<open>C33: \<open>Collect\<close> never panics on a consistent collection outside a transaction, whatever its scope:
  the Merkle root stays, no entry changes or appears, and every key whose path the scope covers is
  kept. What it leaves is again a consistent collection.\<close>

theorem Collect_keeps_scope:
  assumes "hash_ok sha" "coll_ok sha c" "\<not> ongoing c"
  shows "\<exists>c'. Collect c = Some c' \<and> coll_ok sha c' \<and> tree_label c' = tree_label c \<and> kv c' \<subseteq>\<^sub>m kv c \<and>
    (\<forall>k. in_scope (coll_scope c) sha k \<longrightarrow> kv c' k = kv c k)"
  using Collect_total [OF assms(1,2)] assms(2,3) by (auto simp: collects_def coll_ok_def)

theorem Collect_keeps_scope_witness:
  "\<exists>c'. Collect (demo_db1\<lparr>coll_scope := scope_Add (scope_None empty_scope) [1] 8\<rparr>) = Some c' \<and>
     tree_label c' = tree_label demo_db1 \<and> kv c' [1] = Some [put_uint64 5, [7]]"
proof -
  let ?c = "demo_db1\<lparr>coll_scope := scope_Add (scope_None empty_scope) [1] 8\<rparr>"
  have "coll_ok demo_sha ?c" "\<not> ongoing ?c"
    using demo_db1(1)
    by (auto simp: full_def coll_ok_def scope_ok_def scope_Add_def scope_None_def empty_scope_def
        mask_ok_def sha_size_def)
  from Collect_keeps_scope [OF demo_hash this] obtain c' where
    c': "Collect ?c = Some c'" "tree_label c' = tree_label ?c"
      "in_scope (coll_scope ?c) demo_sha [1] \<longrightarrow> kv c' [1] = kv ?c [1]" by auto
  have "in_scope (scope_Add (scope_None empty_scope) [1] 8) demo_sha [1]" by code_simp
  with c' demo_db1(2) show ?thesis by (auto simp: tree_label_def kv_def)
qed

text \<open>C34: No history of calls leaves an ill-typed entry. From a new collection, whatever values are given to
  \<open>Add\<close>, \<open>Set\<close> and \<open>SetField\<close>, in or out of transactions: if the calls come to their end without a panic,
  every entry has one value for each field, each one that the field can decode, and \<open>Get\<close> finds the entry
  with a record whose \<open>Values\<close> gives no error. \<open>Add\<close> and \<open>Set\<close> panic when they are not given one value for
  each field, and \<open>Add\<close> when a field cannot encode its value.\<close>

theorem entries_well_typed:
  assumes "hash_ok sha" "inj_on sha K" "[] \<notin> K" "fields_ok fs" "New sha fs = Some c0"
    and "\<forall>h \<in> set hs. \<forall>w \<in> set (writes_of h). write_key w \<in> K"
    and "run_history sha c0 hs = Some (answers, c)"
  shows "(\<forall>k vs. kv c k = Some vs \<longrightarrow>
      length vs = length fs \<and> (\<forall>j < length fs. \<exists>v. Decode (fs ! j) (vs ! j) = Inr v)) \<and>
    (\<forall>k \<in> dom (kv c). \<exists>r xs. Get_Record sha c k = Some (Inr r) \<and> rec_Values r = Inr xs) \<and>
    (\<forall>k gs. k \<noteq> [] \<longrightarrow>
      (length gs \<noteq> length fs \<longrightarrow> Add sha c k gs = None \<and> Set sha c k gs = None) \<and>
      (encode_all fs gs = None \<longrightarrow> Add sha c k gs = None))"
proof (intro conjI)
  have "full sha c0" "kv c0 = Map.empty" and fs0: "coll_fields c0 = fs"
    using New_full [OF assms(1,4)] assms(5) by auto
  then have "kept sha K c0" "\<not> ongoing c0" using assms(1-3) by (auto simp: kept_def full_whole)
  from typed_history [OF this assms(7,6)]
  have c: "kept sha K c" "full sha c" "coll_fields c = fs"
    using fs0 by (auto simp: kept_def full_whole same_config_def)
  then have ok: "coll_ok sha c" by (simp add: full_def)
  show "\<forall>k vs. kv c k = Some vs \<longrightarrow>
      length vs = length fs \<and> (\<forall>j < length fs. \<exists>v. Decode (fs ! j) (vs ! j) = Inr v)"
    using kv_values_ok [OF ok] c(3) by (auto simp: values_ok_def list_all2_conv_all_nth decodable_def)
  show "\<forall>k \<in> dom (kv c). \<exists>r xs. Get_Record sha c k = Some (Inr r) \<and> rec_Values r = Inr xs"
  proof
    fix k
    assume k: "k \<in> dom (kv c)"
    then have "k \<noteq> []" using c(1) by (auto simp: kept_def)
    with full_reads [OF assms(1) c(2)] k show "\<exists>r xs. Get_Record sha c k = Some (Inr r) \<and> rec_Values r = Inr xs"
      by blast
  qed
  show "\<forall>k gs. k \<noteq> [] \<longrightarrow>
      (length gs \<noteq> length fs \<longrightarrow> Add sha c k gs = None \<and> Set sha c k gs = None) \<and>
      (encode_all fs gs = None \<longrightarrow> Add sha c k gs = None)"
    by (simp add: Add_def Set_def c(3))
qed

text \<open>A well-typed \<open>Add\<close>, and a \<open>Set\<close> of a key that is not there with a value of the wrong type.\<close>

theorem entries_well_typed_witness:
  "\<exists>c. run_history demo_sha demo_db [Outside (WAdd [1] [GUint64 5, GBytes [7]]), Outside (WSet [2] [GSame, GUint64 0])] =
      Some ([None, Some KeyNotFound], c) \<and>
    (\<forall>k vs. kv c k = Some vs \<longrightarrow> length vs = 2) \<and> Add demo_sha c [2] [GUint64 1] = None"
proof -
  let ?hs = "[Outside (WAdd [1] [GUint64 5, GBytes [7]]), Outside (WSet [2] [GSame, GUint64 0])]"
  have "map_option fst (run_history demo_sha demo_db ?hs) = Some [None, Some KeyNotFound]" by code_simp
  then obtain c where run: "run_history demo_sha demo_db ?hs = Some ([None, Some KeyNotFound], c)" by auto
  have len: "length demo_fields = 2" by (simp add: demo_fields_def)
  have keys: "\<forall>h \<in> set ?hs. \<forall>w \<in> set (writes_of h). write_key w \<in> {[1], [2], [3]}" by simp
  note typed = entries_well_typed [OF demo_hash demo_keys _ demo_fields_ok demo_db(1) keys run, unfolded len]
  then have "\<forall>k vs. kv c k = Some vs \<longrightarrow> length vs = 2" "Add demo_sha c [2] [GUint64 1] = None" by simp_all
  with run show ?thesis by blast
qed

text \<open>C36: \<open>Rollback\<close> does not restore the values. Let \<open>k1\<close> and \<open>k2\<close> be the keys of the two leaves of an inner
  node below the root. In a transaction that removes \<open>k1\<close> and sets \<open>k2\<close>, and is rolled back, every call
  succeeds, but afterwards \<open>Get\<close> of \<open>k2\<close> gives the values that \<open>Set\<close> wrote, under the old Merkle root: when
  \<open>Remove\<close> lets the leaf of \<open>k2\<close> take the place of its parent, the parent shares the leaf's values, and
  \<open>Set\<close> writes into them. The root stays marked inconsistent, so that the next \<open>Verify\<close> panics.\<close>

theorem rollback_keeps_write:
  assumes "hash_ok sha" "whole sha c" "\<not> ongoing c"
    and "k1 \<noteq> []" "k2 \<noteq> []" "k1 \<noteq> k2" "twins (root c) k1 k2" "encodable (coll_fields c) gs"
  shows "\<exists>c1 c2 c3 c4 old new. Begin c = Some c1 \<and> Remove sha c1 k1 = Some (None, c2) \<and>
    Set sha c2 k2 gs = Some (None, c3) \<and> Rollback c3 = Some c4 \<and>
    Get_Record sha c k2 = Some (Inr (record_of c k2 (Some old))) \<and>
    Get_Record sha c4 k2 = Some (Inr (record_of c4 k2 (Some new))) \<and>
    merged (coll_fields c) gs old = Some new \<and> coll_fields c4 = coll_fields c \<and>
    tree_label c4 = tree_label c \<and> (\<forall>p. Verify sha c4 p = None)"
proof -
  obtain c2 c3 c4 old new where r: "Begin c = Some (c\<lparr>ongoing := True\<rparr>)"
    "Remove sha (c\<lparr>ongoing := True\<rparr>) k1 = Some (None, c2)" "Set sha c2 k2 gs = Some (None, c3)" "Rollback c3 = Some c4"
    "kv c k2 = Some old" "merged (coll_fields c) gs old = Some new"
    "Get_Record sha c4 k2 = Some (Inr (record_of c4 k2 (Some new)))" "coll_fields c4 = coll_fields c"
    "tree_label c4 = tree_label c" "inconsistent (cell (root c4))"
    by (rule rollback_aliases [OF assms])
  have "full sha c" using assms(2,3) by (simp add: full_whole)
  from full_reads(1) [OF assms(1) this assms(5)] r(5)
  have "Get_Record sha c k2 = Some (Inr (record_of c k2 (Some old)))" by simp
  moreover have "Verify sha c4 p = None" for p using r(10) by (simp add: Verify_def)
  ultimately show ?thesis using r by blast
qed

text \<open>The database with the keys 1 and 2, which are the leaves of one inner node.\<close>

definition two_writes :: "write_op list" where
  "two_writes = [WAdd [1] [GBytes [10]], WAdd [2] [GBytes [20]]]"

definition two_keys :: collection where
  "two_keys = snd (the (run_writes demo_sha (the (New demo_sha [Data])) two_writes))"

lemma two_keys: "whole demo_sha two_keys" "\<not> ongoing two_keys" "coll_fields two_keys = [Data]"
  "kv two_keys [2] = Some [[20]]"
proof -
  have fs: "fields_ok [Data]" using data_field.merkle_field_axioms by (simp add: fields_ok_def)
  obtain c0 where c0: "New demo_sha [Data] = Some c0" "full demo_sha c0" "kv c0 = Map.empty" "coll_fields c0 = [Data]"
    using New_full [OF demo_hash fs] by metis
  then have "kept demo_sha {[1], [2], [3]} c0" "\<not> ongoing c0" using demo_keys by (auto simp: kept_def full_whole)
  moreover have "\<forall>w \<in> set two_writes. write_ok {[1], [2], [3]} (coll_fields c0) w"
    by (simp add: c0(4) two_writes_def) (simp add: Data_def Data_Encode_def)
  ultimately obtain c where c: "run_writes demo_sha c0 two_writes = Some (fst (spec_writes [Data] Map.empty two_writes), c)"
    "kept demo_sha {[1], [2], [3]} c" "same_config c0 c" "\<not> ongoing c"
    "kv c = snd (spec_writes [Data] Map.empty two_writes)"
    using run_writes_spec [of demo_sha "{[1], [2], [3]}" c0 two_writes] c0(3,4) by auto
  then have "two_keys = c" by (simp add: two_keys_def c0(1))
  with c c0(4) show "whole demo_sha two_keys" "\<not> ongoing two_keys" "coll_fields two_keys = [Data]"
    "kv two_keys [2] = Some [[20]]"
    by (auto simp: kept_def same_config_def two_writes_def Let_def Data_def Data_Encode_def)
qed

theorem rollback_keeps_write_witness:
  "\<exists>c1 c2 c3 c4 old. Begin two_keys = Some c1 \<and> Remove demo_sha c1 [1] = Some (None, c2) \<and>
     Set demo_sha c2 [2] [GBytes [30]] = Some (None, c3) \<and> Rollback c3 = Some c4 \<and>
     Get_Record demo_sha two_keys [2] = Some (Inr (record_of two_keys [2] (Some old))) \<and> old = [[20]] \<and>
     Get_Record demo_sha c4 [2] = Some (Inr (record_of c4 [2] (Some [[30]]))) \<and>
     tree_label c4 = tree_label two_keys \<and> (\<forall>p. Verify demo_sha c4 p = None)"
proof -
  have tw: "twins (root two_keys) [1] [2]" by code_simp
  have enc: "encodable (coll_fields two_keys) [GBytes [30]]"
    by (simp add: two_keys(3) encodable_def Data_def Data_Encode_def)
  have read: "Get_Record demo_sha two_keys [2] = Some (Inr (record_of two_keys [2] (Some [[20]])))"
    using full_reads(1) [of demo_sha two_keys "[2]"] two_keys by (simp add: full_whole)
  have new: "merged [Data] [GBytes [30]] old = Some ws \<Longrightarrow> ws = [[30]]" for old ws
    by (cases old) (auto simp: Data_def Data_Encode_def)
  show ?thesis
    using rollback_keeps_write [OF demo_hash two_keys(1,2) _ _ _ tw enc] new read unfolding two_keys(3)
    by fastforce
qed

text \<open>C39: As long as a transaction only adds and sets, \<open>Rollback\<close> undoes it: the collection has its map and
  its Merkle root again, and \<open>Get\<close> answers for every key what it answered before. But if any write has
  succeeded, the root stays marked inconsistent, and \<open>Verify\<close> panics from then on.\<close>

theorem rollback_restores:
  assumes "kept sha K c" "\<not> ongoing c"
    and "\<forall>w \<in> set ws. write_ok K (coll_fields c) w \<and> \<not> removes w"
  shows "\<exists>es c1 c2 c3. Begin c = Some c1 \<and> run_writes sha c1 ws = Some (es, c2) \<and> Rollback c2 = Some c3 \<and>
    \<not> ongoing c3 \<and> kv c3 = kv c \<and> tree_label c3 = tree_label c \<and>
    (\<forall>k. Get_Record sha c3 k = Get_Record sha c k) \<and> (None \<in> set es \<longrightarrow> (\<forall>p. Verify sha c3 p = None))"
proof -
  let ?c1 = "c\<lparr>ongoing := True\<rparr>"
  obtain es c2 c3 where r: "Begin c = Some ?c1" "run_writes sha ?c1 ws = Some (es, c2)" "Rollback c2 = Some c3"
    "\<not> ongoing c3" "kv c3 = kv c" "tree_label c3 = tree_label c" "\<And>k. Get_Record sha c3 k = Get_Record sha c k"
    "None \<in> set es \<Longrightarrow> inconsistent (cell (root c3))"
    using writes_rolled_back [OF assms] by metis
  then have "\<forall>p. Verify sha c3 p = None" if "None \<in> set es" using that by (simp add: Verify_def)
  with r show ?thesis by blast
qed

theorem rollback_restores_witness:
  "\<exists>c2 c3. run_writes demo_sha (the (Begin demo_db1)) [WSet [1] [GUint64 9, GSame]] = Some ([None], c2) \<and>
     Rollback c2 = Some c3 \<and> kv c3 = kv demo_db1 \<and> tree_label c3 = tree_label demo_db1 \<and>
     (\<forall>p. Verify demo_sha c3 p = None)"
proof -
  let ?w = "WSet [1] [GUint64 9, GSame]"
  have tx: "\<not> ongoing demo_db1" using demo_db1(1) by (simp add: full_def)
  have ok: "write_ok {[1], [2], [3]} (coll_fields demo_db1) ?w" using demo_encodable by (simp add: demo_db1(3))
  obtain es c1 c2 c3 where r: "Begin demo_db1 = Some c1" "run_writes demo_sha c1 [?w] = Some (es, c2)"
    "Rollback c2 = Some c3" "kv c3 = kv demo_db1" "tree_label c3 = tree_label demo_db1"
    "None \<in> set es \<longrightarrow> (\<forall>p. Verify demo_sha c3 p = None)"
    using rollback_restores [OF demo_kept1 tx, of "[?w]"] ok by auto
  obtain c' where b: "Begin demo_db1 = Some c'" "whole demo_sha c'" "same_config demo_db1 c'" "kv c' = kv demo_db1"
    using Begin_whole [OF demo_db1(1)] by metis
  then have c1: "c' = c1" "coll_fields c1 = demo_fields" "kv c1 = kv demo_db1"
    using r(1) demo_db1(3) by (simp_all add: same_config_def)
  have "kept demo_sha {[1], [2], [3]} c1" using demo_kept1 b(2) c1 by (simp add: kept_def)
  from run_writes_spec [OF this, of "[?w]"] r(2) ok have "es = [None]"
    by (simp add: c1 spec_set_def demo_db1(2,3))
  with r show ?thesis by auto
qed

end
