(* ===== verification/Expression.thy ===== *)
theory Expression
  imports Prelude
begin

text \<open>
  Models \<open>omniledger/darc/expression/expression.go\<close>: the parser and evaluator of access control
  expressions, built from goparsec combinators (\<open>Token\<close>, \<open>And\<close>, \<open>OrdChoice\<close>, \<open>Kleene\<close>, whose
  source is in the vendor directory).

  The parser evaluates while it parses: the callback \<open>fn\<close> is called for every id the moment it is
  read. A callback may never return (see \<open>evalExpr\<close>), so it has an option type and a parse has three
  outcomes: \<open>Diverges\<close>, \<open>NoParse\<close> (the combinators return a nil node) and a value with the rest of
  the input. Recursion through parentheses takes fuel; \<open>parse_enough\<close> shows that the fuel
  \<open>Evaluate\<close> starts with never runs out.
\<close>

section \<open>Scanning\<close>

definition is_ws :: "byte \<Rightarrow> bool" where
  "is_ws b \<longleftrightarrow> b = 0x20 \<or> b = 0x09 \<or> b = 0x0d \<or> b = 0x0a"

text \<open>\<open>[0-9a-z]\<close> and \<open>[0-9a-f]\<close>.\<close>

definition is_alnum :: "byte \<Rightarrow> bool" where
  "is_alnum b \<longleftrightarrow> 0x30 \<le> b \<and> b \<le> 0x39 \<or> 0x61 \<le> b \<and> b \<le> 0x7a"

definition is_hex :: "byte \<Rightarrow> bool" where
  "is_hex b \<longleftrightarrow> 0x30 \<le> b \<and> b \<le> 0x39 \<or> 0x61 \<le> b \<and> b \<le> 0x66"

definition SkipWS :: "bytes \<Rightarrow> bytes" where
  "SkipWS s = dropWhile is_ws s"

text \<open>A token of one character, after white space.\<close>

definition token_char :: "byte \<Rightarrow> bytes \<Rightarrow> bytes option" where
  "token_char ch s = (case SkipWS s of c # rest \<Rightarrow> if c = ch then Some rest else None | [] \<Rightarrow> None)"

text \<open>\<open>id()\<close>: the longest match of \<open>[0-9a-z]+:[0-9a-f]+\<close>, after white space.\<close>

definition token_id :: "bytes \<Rightarrow> (bytes \<times> bytes) option" where
  "token_id s =
     (let t = SkipWS s; name = takeWhile is_alnum t in
      (case dropWhile is_alnum t of
         c # rest \<Rightarrow>
           (let hex = takeWhile is_hex rest in
            if name \<noteq> [] \<and> c = 0x3a \<and> hex \<noteq> []
            then Some (name @ [c] @ hex, dropWhile is_hex rest) else None)
       | [] \<Rightarrow> None))"

section \<open>The parser\<close>

datatype outcome = Diverges | NoParse | Parsed bool bytes

text \<open>
  \<open>value\<close> is an id or a parenthesised \<open>sum\<close>; \<open>sum\<close> is a \<open>value\<close> and then operators and values,
  combined from left to right as they come.
\<close>

fun parse_value :: "(bytes \<Rightarrow> bool option) \<Rightarrow> nat \<Rightarrow> bytes \<Rightarrow> outcome"
  and parse_sum :: "(bytes \<Rightarrow> bool option) \<Rightarrow> nat \<Rightarrow> bytes \<Rightarrow> outcome"
  and parse_rest :: "(bytes \<Rightarrow> bool option) \<Rightarrow> nat \<Rightarrow> bool \<Rightarrow> bytes \<Rightarrow> outcome"
where
  "parse_value fn 0 s = Diverges"
| "parse_value fn (Suc n) s =
     (case token_id s of
        Some (ident, rest) \<Rightarrow> (case fn ident of None \<Rightarrow> Diverges | Some b \<Rightarrow> Parsed b rest)
      | None \<Rightarrow>
          (case token_char 0x28 s of
             None \<Rightarrow> NoParse
           | Some s1 \<Rightarrow>
               (case parse_sum fn n s1 of
                  Diverges \<Rightarrow> Diverges
                | NoParse \<Rightarrow> NoParse
                | Parsed b s2 \<Rightarrow>
                    (case token_char 0x29 s2 of None \<Rightarrow> NoParse | Some s3 \<Rightarrow> Parsed b s3))))"
| "parse_sum fn 0 s = Diverges"
| "parse_sum fn (Suc n) s =
     (case parse_value fn n s of
        Diverges \<Rightarrow> Diverges
      | NoParse \<Rightarrow> NoParse
      | Parsed b rest \<Rightarrow> parse_rest fn n b rest)"
| "parse_rest fn 0 val s = Diverges"
| "parse_rest fn (Suc n) val s =
     (case token_char 0x26 s of
        Some s1 \<Rightarrow>
          (case parse_value fn n s1 of
             Diverges \<Rightarrow> Diverges
           | NoParse \<Rightarrow> Parsed val s
           | Parsed b s2 \<Rightarrow> parse_rest fn n (val \<and> b) s2)
      | None \<Rightarrow>
          (case token_char 0x7c s of
             Some s1 \<Rightarrow>
               (case parse_value fn n s1 of
                  Diverges \<Rightarrow> Diverges
                | NoParse \<Rightarrow> Parsed val s
                | Parsed b s2 \<Rightarrow> parse_rest fn n (val \<or> b) s2)
           | None \<Rightarrow> Parsed val s))"

datatype expr_error = ScannerNotEmpty | FailedToCast

text \<open>
  \<open>Evaluate\<close>. A parse that fails consumed nothing, so the scanner is empty only if the input is
  blank; the nil node then fails the cast.
\<close>

definition parse_fuel :: "bytes \<Rightarrow> nat" where
  "parse_fuel s = 3 * length s + 3"

definition Evaluate :: "(bytes \<Rightarrow> bool option) \<Rightarrow> bytes \<Rightarrow> (expr_error + bool) option" where
  "Evaluate fn expr =
     (case parse_sum fn (parse_fuel expr) expr of
        Diverges \<Rightarrow> None
      | NoParse \<Rightarrow> Some (Inl (if SkipWS expr \<noteq> [] then ScannerNotEmpty else FailedToCast))
      | Parsed b rest \<Rightarrow> Some (if SkipWS rest \<noteq> [] then Inl ScannerNotEmpty else Inr b))"

definition DefaultParser :: "bytes \<Rightarrow> bytes list \<Rightarrow> (expr_error + bool) option" where
  "DefaultParser expr ids = Evaluate (\<lambda>s. Some (s \<in> set ids)) expr"

fun string_join :: "bytes list \<Rightarrow> bytes \<Rightarrow> bytes" where
  "string_join [] sep = []"
| "string_join [x] sep = x"
| "string_join (x # y # ys) sep = x @ sep @ string_join (y # ys) sep"

definition InitAndExpr :: "bytes list \<Rightarrow> bytes" where
  "InitAndExpr ids = string_join ids [0x20, 0x26, 0x20]"

definition InitOrExpr :: "bytes list \<Rightarrow> bytes" where
  "InitOrExpr ids = string_join ids [0x20, 0x7c, 0x20]"

section \<open>The fuel never runs out\<close>

lemma length_SkipWS: "length (SkipWS s) \<le> length s"
  by (simp add: SkipWS_def length_dropWhile_le)

lemma token_char_shorter: "token_char ch s = Some r \<Longrightarrow> length r < length s"
  using length_SkipWS [of s] by (auto simp: token_char_def split: list.splits if_splits)

lemma token_id_shorter: "token_id s = Some (i, r) \<Longrightarrow> length r < length s"
proof -
  assume t: "token_id s = Some (i, r)"
  let ?t = "SkipWS s"
  from t obtain c rest where d: "dropWhile is_alnum ?t = c # rest" "r = dropWhile is_hex rest"
    by (auto simp: token_id_def Let_def split: list.splits if_splits)
  have "length (c # rest) \<le> length ?t" using length_dropWhile_le [of is_alnum ?t] d(1) by simp
  then show ?thesis
    using d(2) length_dropWhile_le [of is_hex rest] length_SkipWS [of s] by simp
qed

lemma parse_shorter:
  "parse_value fn n s = Parsed b r \<Longrightarrow> length r < length s"
  "parse_sum fn n s = Parsed b r \<Longrightarrow> length r < length s"
  "parse_rest fn n v s = Parsed b r \<Longrightarrow> length r \<le> length s"
proof (induction fn n s and fn n s and fn n v s arbitrary: b r and b r and b r
    rule: parse_value_parse_sum_parse_rest.induct)
  case (2 fn n s)
  then show ?case
    by (fastforce split: option.splits outcome.splits prod.splits dest: token_id_shorter token_char_shorter)
next
  case (4 fn n s)
  then show ?case by (fastforce split: outcome.splits)
next
  case (6 fn n val s)
  then show ?case
    by (fastforce split: option.splits outcome.splits dest: token_char_shorter)
qed auto

lemma parse_enough:
  assumes "\<forall>i. \<exists>b. fn i = Some b"
  shows "3 * length s + 2 \<le> n \<Longrightarrow> parse_value fn n s \<noteq> Diverges"
    "3 * length s + 3 \<le> n \<Longrightarrow> parse_sum fn n s \<noteq> Diverges"
    "3 * length s + 1 \<le> n \<Longrightarrow> parse_rest fn n v s \<noteq> Diverges"
  using assms
proof (induction fn n s and fn n s and fn n v s rule: parse_value_parse_sum_parse_rest.induct)
  case (2 fn n s)
  have "parse_sum fn n r \<noteq> Diverges" if "token_id s = None" "token_char 0x28 s = Some r" for r
    using 2(2) token_char_shorter [OF that(2)] by (intro 2(1) [OF that _ 2(3)]) simp
  moreover have "\<exists>b. fn i = Some b" for i using 2(3) by blast
  ultimately show ?case
    by (cases "token_id s") (auto split: option.splits outcome.splits, metis option.discI)
next
  case (4 fn n s)
  then show ?case
    using parse_shorter(1) [of fn n s] by (fastforce split: outcome.splits)
next
  case (6 fn n val s)
  have "parse_value fn n r \<noteq> Diverges \<and> (\<forall>b r2. parse_value fn n r = Parsed b r2 \<longrightarrow>
      parse_rest fn n (if ch = 0x26 then val \<and> b else val \<or> b) r2 \<noteq> Diverges)"
    if "token_char ch s = Some r" "ch = 0x26 \<or> token_char 0x26 s = None \<and> ch = 0x7c" for ch r
  proof -
    have len: "3 * length r + 4 \<le> 3 * length s + 1" using token_char_shorter [OF that(1)] by simp
    from that(2) show ?thesis
    proof (elim disjE conjE)
      assume ch: "ch = 0x26"
      show ?thesis
        using 6(3) [OF that(1) [unfolded ch]] 6(4) [OF that(1) [unfolded ch]] 6(5,6) len ch
          parse_shorter(1) [of fn n r] by fastforce
    next
      assume ch: "ch = 0x7c" and none: "token_char 0x26 s = None"
      show ?thesis
        using 6(1) [OF none that(1) [unfolded ch]] 6(2) [OF none that(1) [unfolded ch]] 6(5,6) len ch
          parse_shorter(1) [of fn n r] by fastforce
    qed
  qed
  from this [of "0x26"] this [of "0x7c"] show ?case
    by (auto split: option.splits outcome.splits)
qed auto

lemma Evaluate_total: "Evaluate (\<lambda>i. Some (g i)) expr \<noteq> None"
  using parse_enough(2) [of "\<lambda>i. Some (g i)" expr "parse_fuel expr"]
  by (auto simp: Evaluate_def parse_fuel_def split: outcome.splits)

end
