(* ===== verification/Darc.thy ===== *)
theory Darc
  imports Expression "HOL-Library.AList" "HOL-Library.List_Lexorder"
begin

text \<open>
  Models \<open>omniledger/darc/struct.go\<close> and \<open>darc.go\<close>: distributed access right controls, their
  identities and signers, the requests they accept, and the verification of their evolution.

  \<^item> A type variable stands for each kind of key material: curve points \<open>'p\<close>, secrets \<open>'s\<close> and
    ECDSA public keys \<open>'k\<close>. The cryptographic libraries are the fields of \<open>crypto\<close>.
  \<^item> \<open>Rules\<close> is a Go map: an association list whose keys are distinct; its order is not
    observable (\<open>GetID\<close> sorts the actions).
  \<^item> A nil slice is distinguished from an empty one only where the code asks for nil (\<open>BaseID\<close>).
  \<^item> \<open>None\<close> is a call that does not return: a nil dereference, a failed type assertion, or endless
    delegation.
\<close>

section \<open>Data\<close>

type_synonym action = bytes
type_synonym expr = bytes
type_synonym rules = "(action \<times> expr) list"

record 'p identity =
  id_darc :: "bytes option"
  id_ed25519 :: "'p option"
  id_x509ec :: "bytes option"

record 'p signature =
  sig_bytes :: bytes
  sig_signer :: "'p identity"

datatype 'p darc = Darc (Version: "64 word") (Description: bytes) (BaseID: "bytes option")
    (Rules: rules) (Path: "'p darc list") (PathDigest: bytes) (Signatures: "'p signature list")

record ('p, 's) signer =
  sg_ed25519 :: "('p \<times> 's) option"
  sg_x509ec :: "(bytes \<times> bytes) option"

record 'p request =
  rq_BaseID :: bytes
  rq_Action :: action
  rq_Msg :: bytes
  rq_Identities :: "'p identity list"
  rq_Signatures :: "bytes list"

datatype 'k pkix_key = EcdsaKey 'k | OtherKey

datatype darc_error =
    DarcIsNil | NoSigners | NoSignatures | ActionExists | ActionDoesNotExist
  | CannotUpdateDefault | CannotDeleteDefault | EmptyEvolutionPath
  | NoBaseDarc | PathDigestMismatch | EmptyPath | NilBaseID | BaseIDsDiffer | IncorrectVersion
  | EvaluationFailed expr_error | EvaluatedToFalse | VerificationFailedAt nat darc_error
  | SignatureCountMismatch | BaseIDMismatch | NothingToSign | CannotSignWithDarc
  | UnknownSignerType | NoPrivateKey | CannotVerifyDarcSignature | UnknownIdentity
  | WrongSignature | NotImplemented | DarcIDsDiffer | LibraryError

record ('p, 's, 'k) crypto =
  point_string :: "'p \<Rightarrow> bytes"
  point_equal :: "'p \<Rightarrow> 'p \<Rightarrow> bool"
  schnorr_Verify :: "'p \<Rightarrow> bytes \<Rightarrow> bytes \<Rightarrow> bool"
  schnorr_Sign :: "'s \<Rightarrow> bytes \<Rightarrow> darc_error + bytes"
  parse_pkix :: "bytes \<Rightarrow> darc_error + 'k pkix_key"
  asn1_signature :: "bytes \<Rightarrow> darc_error + int \<times> int"
  sha384 :: "bytes \<Rightarrow> bytes"
  ecdsa_Verify :: "'k \<Rightarrow> bytes \<Rightarrow> int \<times> int \<Rightarrow> bool"

section \<open>Strings\<close>

definition ascii :: "char list \<Rightarrow> bytes" where
  "ascii = map of_char"

definition evolve :: action where "evolve = ascii ''_evolve''"
definition sign :: action where "sign = ascii ''_sign''"

text \<open>\<open>%x\<close>: two lower-case hexadecimal digits a byte.\<close>

definition hex_digit :: "nat \<Rightarrow> byte" where
  "hex_digit n = (if n < 10 then of_nat (0x30 + n) else of_nat (0x61 + (n - 10)))"

definition hex_string :: "bytes \<Rightarrow> bytes" where
  "hex_string bs = concat (map (\<lambda>b. [hex_digit (unat b div 16), hex_digit (unat b mod 16)]) bs)"

section \<open>Identities\<close>

definition identity_Type :: "'p identity \<Rightarrow> int" where
  "identity_Type i =
     (if id_darc i \<noteq> None then 0 else if id_ed25519 i \<noteq> None then 1
      else if id_x509ec i \<noteq> None then 2 else - 1)"

definition TypeString :: "'p identity \<Rightarrow> bytes" where
  "TypeString i =
     (if identity_Type i = 0 then ascii ''darc'' else if identity_Type i = 1 then ascii ''ed25519''
      else if identity_Type i = 2 then ascii ''x509ec'' else ascii ''No identity'')"

definition identity_String :: "('p, 's, 'k) crypto \<Rightarrow> 'p identity \<Rightarrow> bytes" where
  "identity_String cr i =
     (case id_darc i of
        Some d \<Rightarrow> TypeString i @ ascii '':'' @ hex_string d
      | None \<Rightarrow>
          (case id_ed25519 i of
             Some p \<Rightarrow> TypeString i @ ascii '':'' @ point_string cr p
           | None \<Rightarrow>
               (case id_x509ec i of
                  Some x \<Rightarrow> TypeString i @ ascii '':'' @ hex_string x
                | None \<Rightarrow> ascii ''No identity'')))"

definition IdentityDarc_Equal :: "bytes \<Rightarrow> bytes \<Rightarrow> bool" where
  "IdentityDarc_Equal idd idd2 \<longleftrightarrow> idd = idd2"

definition IdentityEd25519_Equal :: "('p, 's, 'k) crypto \<Rightarrow> 'p \<Rightarrow> 'p \<Rightarrow> bool" where
  "IdentityEd25519_Equal cr ide ide2 = point_equal cr ide ide2"

definition IdentityX509EC_Equal :: "bytes \<Rightarrow> bytes \<Rightarrow> bool" where
  "IdentityX509EC_Equal idkc idkc2 \<longleftrightarrow> idkc = idkc2"

definition identity_Equal :: "('p, 's, 'k) crypto \<Rightarrow> 'p identity \<Rightarrow> 'p identity \<Rightarrow> bool" where
  "identity_Equal cr i j =
     (if identity_Type i \<noteq> identity_Type j then False
      else if identity_Type i = 0 then IdentityDarc_Equal (the (id_darc i)) (the (id_darc j))
      else if identity_Type i = 1 then IdentityEd25519_Equal cr (the (id_ed25519 i)) (the (id_ed25519 j))
      else if identity_Type i = 2 then IdentityX509EC_Equal (the (id_x509ec i)) (the (id_x509ec j))
      else False)"

definition NewIdentityDarc :: "bytes \<Rightarrow> 'p identity" where
  "NewIdentityDarc d = \<lparr>id_darc = Some d, id_ed25519 = None, id_x509ec = None\<rparr>"

definition NewIdentityEd25519 :: "'p \<Rightarrow> 'p identity" where
  "NewIdentityEd25519 p = \<lparr>id_darc = None, id_ed25519 = Some p, id_x509ec = None\<rparr>"

definition NewIdentityX509EC :: "bytes \<Rightarrow> 'p identity" where
  "NewIdentityX509EC x = \<lparr>id_darc = None, id_ed25519 = None, id_x509ec = Some x\<rparr>"

definition IdentityEd25519_Verify ::
  "('p, 's, 'k) crypto \<Rightarrow> 'p \<Rightarrow> bytes \<Rightarrow> bytes \<Rightarrow> darc_error option" where
  "IdentityEd25519_Verify cr point msg s = (if schnorr_Verify cr point msg s then None else Some WrongSignature)"

text \<open>A public key that is not an ECDSA key makes the type assertion panic.\<close>

definition x509_Verify ::
  "('p, 's, 'k) crypto \<Rightarrow> bytes \<Rightarrow> bytes \<Rightarrow> bytes \<Rightarrow> darc_error option option" where
  "x509_Verify cr public msg s =
     (case parse_pkix cr public of
        Inl err \<Rightarrow> Some (Some err)
      | Inr pub \<Rightarrow>
          (case asn1_signature cr s of
             Inl err \<Rightarrow> Some (Some err)
           | Inr rs \<Rightarrow>
               (case pub of
                  OtherKey \<Rightarrow> None
                | EcdsaKey k \<Rightarrow>
                    Some (if ecdsa_Verify cr k (sha384 cr msg) rs then None else Some WrongSignature))))"

definition identity_Verify ::
  "('p, 's, 'k) crypto \<Rightarrow> 'p identity \<Rightarrow> bytes \<Rightarrow> bytes \<Rightarrow> darc_error option option" where
  "identity_Verify cr i msg s =
     (if identity_Type i = 0 then Some (Some CannotVerifyDarcSignature)
      else case id_ed25519 i of
        Some p \<Rightarrow> Some (IdentityEd25519_Verify cr p msg s)
      | None \<Rightarrow>
          (case id_x509ec i of
             Some x \<Rightarrow> x509_Verify cr x msg s
           | None \<Rightarrow> Some (Some UnknownIdentity)))"

section \<open>Signers\<close>

definition signer_Type :: "('p, 's) signer \<Rightarrow> int" where
  "signer_Type s = (if sg_ed25519 s \<noteq> None then 1 else if sg_x509ec s \<noteq> None then 2 else - 1)"

text \<open>
  Without a key a new pair is generated: \<open>fresh\<close> is what \<open>key.NewKeyPair\<close> returns. The constructor
  of the other kind of signer returns nil.
\<close>

definition NewSignerEd25519 :: "'p \<times> 's \<Rightarrow> 'p option \<Rightarrow> 's option \<Rightarrow> ('p, 's) signer" where
  "NewSignerEd25519 fresh point secret =
     \<lparr>sg_ed25519 = Some (case (point, secret) of (Some p, Some x) \<Rightarrow> (p, x) | _ \<Rightarrow> fresh), sg_x509ec = None\<rparr>"

definition NewSignerX509EC :: "('p, 's) signer option" where
  "NewSignerX509EC = None"

definition SignerEd25519_Sign :: "('p, 's, 'k) crypto \<Rightarrow> 'p \<times> 's \<Rightarrow> bytes \<Rightarrow> darc_error + bytes" where
  "SignerEd25519_Sign cr eds msg = schnorr_Sign cr (snd eds) msg"

definition SignerX509EC_Sign :: "bytes \<times> bytes \<Rightarrow> bytes \<Rightarrow> darc_error + bytes" where
  "SignerX509EC_Sign kcs msg = Inl NotImplemented"

text \<open>A signer without a key has the nil identity.\<close>

definition signer_Identity :: "('p, 's) signer \<Rightarrow> 'p identity option" where
  "signer_Identity s =
     (case sg_ed25519 s of
        Some (point, secret) \<Rightarrow> Some (NewIdentityEd25519 point)
      | None \<Rightarrow>
          (case sg_x509ec s of
             Some (point, secret) \<Rightarrow> Some (NewIdentityX509EC point)
           | None \<Rightarrow> None))"

text \<open>The message is \<open>None\<close> for a nil slice. X509 signatures are not implemented.\<close>

definition signer_Sign ::
  "('p, 's, 'k) crypto \<Rightarrow> ('p, 's) signer \<Rightarrow> bytes option \<Rightarrow> darc_error + bytes" where
  "signer_Sign cr s msg =
     (case msg of
        None \<Rightarrow> Inl NothingToSign
      | Some m \<Rightarrow>
          (case sg_ed25519 s of
             Some eds \<Rightarrow> SignerEd25519_Sign cr eds m
           | None \<Rightarrow>
               (case sg_x509ec s of
                  Some kcs \<Rightarrow> SignerX509EC_Sign kcs m
                | None \<Rightarrow> Inl UnknownSignerType)))"

definition GetPrivate :: "('p, 's) signer \<Rightarrow> darc_error + 's" where
  "GetPrivate s =
     (case sg_ed25519 s of
        Some (point, secret) \<Rightarrow> Inr secret
      | None \<Rightarrow> if sg_x509ec s \<noteq> None then Inl NoPrivateKey else Inl UnknownSignerType)"

section \<open>Rules\<close>

definition isDefault :: "action \<Rightarrow> bool" where
  "isDefault a \<longleftrightarrow> a = evolve \<or> a = sign"

definition Contains :: "rules \<Rightarrow> action \<Rightarrow> bool" where
  "Contains r a \<longleftrightarrow> map_of r a \<noteq> None"

text \<open>A missing action reads as the empty expression.\<close>

definition rule_at :: "rules \<Rightarrow> action \<Rightarrow> expr" where
  "rule_at r a = (case map_of r a of None \<Rightarrow> [] | Some e \<Rightarrow> e)"

definition AddRule :: "rules \<Rightarrow> action \<Rightarrow> expr \<Rightarrow> darc_error + rules" where
  "AddRule r a e = (if Contains r a then Inl ActionExists else Inr (AList.update a e r))"

definition updateRule :: "rules \<Rightarrow> action \<Rightarrow> expr \<Rightarrow> darc_error + rules" where
  "updateRule r a e = (if \<not> Contains r a then Inl ActionDoesNotExist else Inr (AList.update a e r))"

definition UpdateRule :: "rules \<Rightarrow> action \<Rightarrow> expr \<Rightarrow> darc_error + rules" where
  "UpdateRule r a e = (if isDefault a then Inl CannotUpdateDefault else updateRule r a e)"

definition DeleteRules :: "rules \<Rightarrow> action \<Rightarrow> darc_error + rules" where
  "DeleteRules r a =
     (if isDefault a then Inl CannotDeleteDefault
      else if \<not> Contains r a then Inl ActionDoesNotExist
      else Inr (AList.delete a r))"

definition GetEvolutionExpr :: "rules \<Rightarrow> expr" where
  "GetEvolutionExpr r = rule_at r evolve"

definition GetSignExpr :: "rules \<Rightarrow> expr" where
  "GetSignExpr r = rule_at r sign"

definition UpdateEvolution :: "rules \<Rightarrow> expr \<Rightarrow> darc_error + rules" where
  "UpdateEvolution r e = updateRule r evolve e"

definition UpdateSign :: "rules \<Rightarrow> expr \<Rightarrow> darc_error + rules" where
  "UpdateSign r e = updateRule r sign e"

definition InitRules ::
  "('p, 's, 'k) crypto \<Rightarrow> 'p identity list \<Rightarrow> 'p identity list \<Rightarrow> rules" where
  "InitRules cr owners signers =
     AList.update sign (InitOrExpr (map (identity_String cr) signers))
       (AList.update evolve (InitAndExpr (map (identity_String cr) owners)) [])"

section \<open>Darcs\<close>

definition NewDarc :: "rules \<Rightarrow> bytes \<Rightarrow> 'p darc" where
  "NewDarc rs desc = Darc 0 desc None rs [] [] []"

definition id_bytes :: "bytes option \<Rightarrow> bytes" where
  "id_bytes i = (case i of None \<Rightarrow> [] | Some b \<Rightarrow> b)"

definition IsNull :: "bytes option \<Rightarrow> bool" where
  "IsNull i \<longleftrightarrow> i = None"

definition ID_Equal :: "bytes \<Rightarrow> bytes \<Rightarrow> bool" where
  "ID_Equal i other \<longleftrightarrow> i = other"

text \<open>A copy of a nil slice is empty and no longer nil.\<close>

definition copyBytes :: "bytes option \<Rightarrow> bytes option" where
  "copyBytes a = Some (go_copy (replicate (length (id_bytes a)) 0) (id_bytes a))"

definition darc_Copy :: "'p darc \<Rightarrow> 'p darc" where
  "darc_Copy d =
     Darc (Version d) (id_bytes (copyBytes (Some (Description d)))) (copyBytes (BaseID d)) (Rules d) []
       (id_bytes (copyBytes (Some (PathDigest d)))) []"

definition put_uint64_le :: "64 word \<Rightarrow> bytes" where
  "put_uint64_le v = map (\<lambda>i. ucast (drop_bit (8 * i) v)) [0..<8]"

definition GetID_preimage :: "'p darc \<Rightarrow> bytes" where
  "GetID_preimage d =
     put_uint64_le (Version d) @ Description d @ id_bytes (BaseID d) @ PathDigest d @
     concat (map (\<lambda>a. a @ rule_at (Rules d) a) (sort (map fst (Rules d))))"

definition GetID :: "(bytes \<Rightarrow> bytes) \<Rightarrow> 'p darc \<Rightarrow> bytes" where
  "GetID sha d = sha (GetID_preimage d)"

definition GetBaseID :: "(bytes \<Rightarrow> bytes) \<Rightarrow> 'p darc \<Rightarrow> bytes" where
  "GetBaseID sha d = (if Version d = 0 then GetID sha d else id_bytes (BaseID d))"

definition GetIdentityString :: "('p, 's, 'k) crypto \<Rightarrow> (bytes \<Rightarrow> bytes) \<Rightarrow> 'p darc \<Rightarrow> bytes" where
  "GetIdentityString cr sha d = identity_String cr (NewIdentityDarc (GetID sha d))"

definition darc_Equal :: "(bytes \<Rightarrow> bytes) \<Rightarrow> 'p darc \<Rightarrow> 'p darc \<Rightarrow> bool" where
  "darc_Equal sha d d2 \<longleftrightarrow> GetID sha d = GetID sha d2"

definition ToProto :: "('p darc \<Rightarrow> darc_error + bytes) \<Rightarrow> 'p darc option \<Rightarrow> darc_error + bytes" where
  "ToProto pb_encode d = (case d of None \<Rightarrow> Inl DarcIsNil | Some d \<Rightarrow> pb_encode (darc_Copy d))"

definition NewDarcFromProto :: "(bytes \<Rightarrow> darc_error + 'p darc) \<Rightarrow> bytes \<Rightarrow> darc_error + 'p darc" where
  "NewDarcFromProto pb_decode protoDarc = (case pb_decode protoDarc of Inl err \<Rightarrow> Inl err | Inr d \<Rightarrow> Inr d)"

definition darcsMsg :: "(bytes \<Rightarrow> bytes) \<Rightarrow> 'p darc list \<Rightarrow> bytes" where
  "darcsMsg sha darcs = concat (map (GetID sha) darcs)"

definition hashAll :: "(bytes \<Rightarrow> bytes) \<Rightarrow> bytes list \<Rightarrow> bytes" where
  "hashAll sha msgs = sha (concat msgs)"

definition EvolveFrom :: "(bytes \<Rightarrow> bytes) \<Rightarrow> 'p darc \<Rightarrow> 'p darc list \<Rightarrow> darc_error + 'p darc" where
  "EvolveFrom sha d path =
     (if length path = 0 then Inl EmptyEvolutionPath
      else (let prev = path ! (length path - 1)
            in Inr (Darc (Version prev + 1) (Description d)
                      (if Version prev = 0 then Some (GetID sha prev) else BaseID prev) (Rules d) path
                      (hashAll sha [darcsMsg sha path]) (Signatures d))))"

definition IncrementVersion :: "'p darc \<Rightarrow> 'p darc" where
  "IncrementVersion d =
     Darc (Version d + 1) (Description d) (BaseID d) (Rules d) (Path d) (PathDigest d) (Signatures d)"

definition set_path :: "'p darc \<Rightarrow> 'p darc list \<Rightarrow> 'p darc" where
  "set_path d path =
     Darc (Version d) (Description d) (BaseID d) (Rules d) path (PathDigest d) (Signatures d)"

fun pathContains :: "'p darc \<Rightarrow> ('p darc \<Rightarrow> bool) \<Rightarrow> bool" where
  "pathContains d cb = list_ex cb (Path d)"

text \<open>The parts that only delegate to a library, or to the equality of byte slices.\<close>

lemma delegating_calls [simp]:
  "IdentityDarc_Equal a b \<longleftrightarrow> a = b" "IdentityX509EC_Equal a b \<longleftrightarrow> a = b"
  "IdentityEd25519_Equal cr p q = point_equal cr p q"
  "IdentityEd25519_Verify cr p msg s = (if schnorr_Verify cr p msg s then None else Some WrongSignature)"
  "SignerEd25519_Sign cr (p, x) msg = schnorr_Sign cr x msg"
  "SignerX509EC_Sign kcs msg = Inl NotImplemented"
  "ID_Equal a b \<longleftrightarrow> a = b" "copyBytes sl = Some (id_bytes sl)" "id_bytes (Some a) = a"
  "NewDarcFromProto dec buf = dec buf"
  by (simp_all add: IdentityDarc_Equal_def IdentityX509EC_Equal_def IdentityEd25519_Equal_def
      IdentityEd25519_Verify_def SignerEd25519_Sign_def SignerX509EC_Sign_def ID_Equal_def copyBytes_def
      id_bytes_def NewDarcFromProto_def go_copy_same_length split: sum.splits)

section \<open>Requests\<close>

definition inner_Hash ::
  "('p, 's, 'k) crypto \<Rightarrow> (bytes \<Rightarrow> bytes) \<Rightarrow> bytes \<Rightarrow> action \<Rightarrow> bytes \<Rightarrow> 'p identity list \<Rightarrow> bytes" where
  "inner_Hash cr sha base act msg ids =
     sha (base @ act @ msg @ concat (map (identity_String cr) ids))"

definition request_Hash :: "('p, 's, 'k) crypto \<Rightarrow> (bytes \<Rightarrow> bytes) \<Rightarrow> 'p request \<Rightarrow> bytes" where
  "request_Hash cr sha r = inner_Hash cr sha (rq_BaseID r) (rq_Action r) (rq_Msg r) (rq_Identities r)"

text \<open>The same digest with a darc ID in the place of the message.\<close>

definition DarcHash ::
  "('p, 's, 'k) crypto \<Rightarrow> (bytes \<Rightarrow> bytes) \<Rightarrow> bytes \<Rightarrow> action \<Rightarrow> bytes \<Rightarrow> 'p identity list \<Rightarrow> bytes" where
  "DarcHash cr sha base act darcID ids =
     sha (base @ act @ darcID @ concat (map (identity_String cr) ids))"

definition GetIdentityStrings :: "('p, 's, 'k) crypto \<Rightarrow> 'p request \<Rightarrow> bytes list" where
  "GetIdentityStrings cr r = map (identity_String cr) (rq_Identities r)"

definition InitRequest ::
  "bytes \<Rightarrow> action \<Rightarrow> bytes \<Rightarrow> 'p identity list \<Rightarrow> bytes list \<Rightarrow> 'p request" where
  "InitRequest baseID act msg ids sigs =
     \<lparr>rq_BaseID = baseID, rq_Action = act, rq_Msg = msg, rq_Identities = ids, rq_Signatures = sigs\<rparr>"

end
