(* ===== verification/DarcVerify.thy ===== *)
theory DarcVerify
  imports Darc
begin

text \<open>
  Models the rest of \<open>darc.go\<close>: signing and verifying requests, verifying the evolution of a darc,
  and \<open>evalExpr\<close>, which evaluates an expression whose ids may be darcs that delegate further.

  \<open>evalExpr\<close>, \<open>Darc.Verify\<close> and the callbacks are mutually recursive in the code, but \<open>Verify\<close> calls
  back with a \<open>getDarc\<close> that finds nothing, so the recursion through it is not deep: an id that
  names a darc is then false. \<open>evalExpr_nil\<close> is that instance. The remaining recursion follows the
  \<open>_sign\<close> rules from darc to darc; it takes fuel, and need not end.
\<close>

section \<open>Requests that are signed\<close>

definition signer_identities :: "('p, 's) signer list \<Rightarrow> 'p identity list option" where
  "signer_identities signers =
     (if list_all (\<lambda>s. signer_Identity s \<noteq> None) signers
      then Some (map (the \<circ> signer_Identity) signers) else None)"

fun sign_all ::
  "('p, 's, 'k) crypto \<Rightarrow> ('p, 's) signer list \<Rightarrow> bytes \<Rightarrow> darc_error + bytes list" where
  "sign_all cr [] digest = Inr []"
| "sign_all cr (s # ss) digest =
     (case signer_Sign cr s (Some digest) of
        Inl err \<Rightarrow> Inl err
      | Inr sg \<Rightarrow> (case sign_all cr ss digest of Inl err \<Rightarrow> Inl err | Inr sgs \<Rightarrow> Inr (sg # sgs)))"

text \<open>A signer without a key has a nil identity; hashing the request then panics.\<close>

definition InitAndSignRequest ::
  "('p, 's, 'k) crypto \<Rightarrow> (bytes \<Rightarrow> bytes) \<Rightarrow> bytes \<Rightarrow> action \<Rightarrow> bytes \<Rightarrow> ('p, 's) signer list \<Rightarrow>
   (darc_error + 'p request) option" where
  "InitAndSignRequest cr sha baseID act msg signers =
     (if length signers = 0 then Some (Inl NoSigners)
      else do {
        ids \<leftarrow> signer_identities signers;
        let digest = inner_Hash cr sha baseID act msg ids;
        Some (case sign_all cr signers digest of
            Inl err \<Rightarrow> Inl err
          | Inr sigs \<Rightarrow> Inr (InitRequest baseID act msg ids sigs))
      })"

definition MakeEvolveRequest ::
  "('p, 's, 'k) crypto \<Rightarrow> (bytes \<Rightarrow> bytes) \<Rightarrow> ('p darc \<Rightarrow> darc_error + bytes) \<Rightarrow>
   'p darc option \<Rightarrow> ('p, 's) signer list \<Rightarrow> (darc_error + 'p request \<times> bytes) option" where
  "MakeEvolveRequest cr sha pb_encode dp prevSigners =
     (case dp of
        None \<Rightarrow> Some (Inl DarcIsNil)
      | Some d \<Rightarrow>
          if length prevSigners = 0 then Some (Inl NoSigners)
          else do {
            ids \<leftarrow> signer_identities prevSigners;
            let digest = inner_Hash cr sha (GetBaseID sha d) evolve (GetID sha d) ids;
            Some (case sign_all cr prevSigners digest of
                Inl err \<Rightarrow> Inl err
              | Inr sigs \<Rightarrow>
                  (case ToProto pb_encode (Some d) of
                     Inl err \<Rightarrow> Inl err
                   | Inr darcBuf \<Rightarrow>
                       Inr (InitRequest (GetBaseID sha d) evolve (GetID sha d) ids sigs, darcBuf)))
          })"

definition MsgToDarc ::
  "(bytes \<Rightarrow> bytes) \<Rightarrow> (bytes \<Rightarrow> darc_error + 'p darc) \<Rightarrow> 'p request \<Rightarrow> bytes \<Rightarrow> 'p darc list \<Rightarrow>
   darc_error + 'p darc" where
  "MsgToDarc sha pb_decode r darcBuf existingPath =
     (case NewDarcFromProto pb_decode darcBuf of
        Inl err \<Rightarrow> Inl err
      | Inr d \<Rightarrow>
          if \<not> ID_Equal (GetID sha d) (rq_Msg r) then Inl DarcIDsDiffer
          else if length (rq_Signatures r) \<noteq> length (rq_Identities r) then Inl SignatureCountMismatch
          else (let darcSigs = map2 (\<lambda>s i. \<lparr>sig_bytes = s, sig_signer = i\<rparr>) (rq_Signatures r) (rq_Identities r)
                in if hashAll sha [darcsMsg sha existingPath] \<noteq> PathDigest d then Inl PathDigestMismatch
                   else Inr (Darc (Version d) (Description d) (BaseID d) (Rules d) existingPath
                               (PathDigest d) darcSigs)))"

section \<open>Evaluating an expression\<close>

definition is_darc_id :: "bytes \<Rightarrow> bool" where
  "is_darc_id s \<longleftrightarrow> take 4 s = ascii ''darc''"

text \<open>What the expression's value means: \<open>None\<close> is the nil error.\<close>

definition expr_check :: "(expr_error + bool) option \<Rightarrow> darc_error option option" where
  "expr_check res =
     (case res of
        None \<Rightarrow> None
      | Some (Inl err) \<Rightarrow> Some (Some (EvaluationFailed err))
      | Some (Inr b) \<Rightarrow> Some (if b then None else Some EvaluatedToFalse))"

definition evalExpr_nil :: "expr \<Rightarrow> bytes list \<Rightarrow> darc_error option option" where
  "evalExpr_nil e ids =
     expr_check (Evaluate (\<lambda>s. if is_darc_id s then Some False else Some (s \<in> set ids)) e)"

section \<open>Verifying one evolution\<close>

text \<open>The first signature that does not verify ends the loop.\<close>

fun verify_signatures ::
  "('p, 's, 'k) crypto \<Rightarrow> bytes \<Rightarrow> 'p signature list \<Rightarrow> darc_error option option" where
  "verify_signatures cr digest [] = Some None"
| "verify_signatures cr digest (s # ss) =
     (case identity_Verify cr (sig_signer s) digest (sig_bytes s) of
        None \<Rightarrow> None
      | Some (Some err) \<Rightarrow> Some (Some err)
      | Some None \<Rightarrow> verify_signatures cr digest ss)"

text \<open>\<open>eval\<close> is \<open>evalExpr\<close>, applied to \<open>getDarc\<close>.\<close>

definition evalExprWithSigs ::
  "('p, 's, 'k) crypto \<Rightarrow> expr \<Rightarrow> (expr \<Rightarrow> bytes list \<Rightarrow> darc_error option option) \<Rightarrow> 'p signature list \<Rightarrow>
   darc_error option option" where
  [simp]: "evalExprWithSigs cr e eval sigs = eval e (map (\<lambda>s. identity_String cr (sig_signer s)) sigs)"

text \<open>
  \<open>eval\<close> is the evaluation of an expression against the given ids. \<open>prevDarc\<close> is a pointer that the
  caller may leave nil; the comparison of base IDs then panics.
\<close>

definition verifyOneEvolution ::
  "('p, 's, 'k) crypto \<Rightarrow> (bytes \<Rightarrow> bytes) \<Rightarrow> (expr \<Rightarrow> bytes list \<Rightarrow> darc_error option option) \<Rightarrow>
   'p darc \<Rightarrow> 'p darc option \<Rightarrow> darc_error option option" where
  "verifyOneEvolution cr sha eval newDarc prevDarc =
     (if BaseID newDarc = None then Some (Some NilBaseID)
      else case prevDarc of
        None \<Rightarrow> None
      | Some prev \<Rightarrow>
          if \<not> ID_Equal (GetBaseID sha newDarc) (GetBaseID sha prev) then Some (Some BaseIDsDiffer)
          else if Version newDarc \<noteq> Version prev + 1 then Some (Some IncorrectVersion)
          else (case evalExprWithSigs cr (GetEvolutionExpr (Rules prev)) eval (Signatures newDarc) of
             None \<Rightarrow> None
           | Some (Some err) \<Rightarrow> Some (Some err)
           | Some None \<Rightarrow>
               verify_signatures cr
                 (DarcHash cr sha (GetBaseID sha newDarc) evolve (GetID sha newDarc)
                    (map sig_signer (Signatures newDarc)))
                 (Signatures newDarc)))"

fun verify_path ::
  "('p, 's, 'k) crypto \<Rightarrow> (bytes \<Rightarrow> bytes) \<Rightarrow> (expr \<Rightarrow> bytes list \<Rightarrow> darc_error option option) \<Rightarrow>
   nat \<Rightarrow> 'p darc option \<Rightarrow> 'p darc list \<Rightarrow> darc_error option option" where
  "verify_path cr sha eval i prev [] = Some None"
| "verify_path cr sha eval i prev (cur # rest) =
     (if prev = None \<and> Version cur = 0 then verify_path cr sha eval (i + 1) (Some cur) rest
      else (case verifyOneEvolution cr sha eval cur prev of
          None \<Rightarrow> None
        | Some (Some err) \<Rightarrow> Some (Some (VerificationFailedAt i err))
        | Some None \<Rightarrow> verify_path cr sha eval (i + 1) (Some cur) rest))"

definition findPath ::
  "('p, 's, 'k) crypto \<Rightarrow> (bytes \<Rightarrow> bytes) \<Rightarrow> (bytes \<Rightarrow> 'p darc option) \<Rightarrow> 'p darc \<Rightarrow>
   darc_error option \<times> 'p darc" where
  "findPath cr sha getDarc d =
     (let looked =
        (if length (Path d) = 0
         then (case getDarc (identity_String cr (NewIdentityDarc (GetBaseID sha d))) of
             None \<Rightarrow> Inl NoBaseDarc
           | Some latest \<Rightarrow>
               (let path = takeWhile (\<lambda>p. Version d > Version p) (Path latest)
                in if hashAll sha [darcsMsg sha path] \<noteq> PathDigest d then Inl PathDigestMismatch
                   else Inr (set_path d path)))
         else Inr d)
      in case looked of
        Inl err \<Rightarrow> (Some err, d)
      | Inr d' \<Rightarrow> (if length (Path d') = 0 then Some EmptyPath else None, d'))"

text \<open>\<open>VerifyWithCB\<close> also fills in the path of the darc; both results are returned.\<close>

definition verify_with ::
  "('p, 's, 'k) crypto \<Rightarrow> (bytes \<Rightarrow> bytes) \<Rightarrow> (expr \<Rightarrow> bytes list \<Rightarrow> darc_error option option) \<Rightarrow>
   (bytes \<Rightarrow> 'p darc option) \<Rightarrow> 'p darc option \<Rightarrow> (darc_error option \<times> 'p darc option) option" where
  "verify_with cr sha eval getDarc dp =
     (case dp of
        None \<Rightarrow> Some (Some DarcIsNil, None)
      | Some d \<Rightarrow>
          if Version d = 0 then Some (None, Some d)
          else if length (Signatures d) = 0 then Some (Some NoSignatures, Some d)
          else (case findPath cr sha getDarc d of
              (Some err, d') \<Rightarrow> Some (Some err, Some d')
            | (None, d') \<Rightarrow>
                (case verify_path cr sha eval 0 None (Path d') of
                   None \<Rightarrow> None
                 | Some (Some err) \<Rightarrow> Some (Some err, Some d')
                 | Some None \<Rightarrow>
                     (case verifyOneEvolution cr sha eval d' (Some (last (Path d'))) of
                        None \<Rightarrow> None
                      | Some err \<Rightarrow> Some (err, Some d')))))"

definition darc_Verify ::
  "('p, 's, 'k) crypto \<Rightarrow> (bytes \<Rightarrow> bytes) \<Rightarrow> 'p darc option \<Rightarrow>
   (darc_error option \<times> 'p darc option) option" where
  "darc_Verify cr sha dp = verify_with cr sha evalExpr_nil (\<lambda>s. None) dp"

section \<open>Delegation\<close>

fun evalExpr ::
  "('p, 's, 'k) crypto \<Rightarrow> (bytes \<Rightarrow> bytes) \<Rightarrow> nat \<Rightarrow> (bytes \<Rightarrow> 'p darc option) \<Rightarrow> expr \<Rightarrow> bytes list \<Rightarrow>
   darc_error option option" where
  "evalExpr cr sha 0 getDarc e ids = None"
| "evalExpr cr sha (Suc n) getDarc e ids =
     expr_check (Evaluate (\<lambda>s.
       if is_darc_id s
       then (case darc_Verify cr sha (getDarc s) of
           None \<Rightarrow> None
         | Some (Some err, _) \<Rightarrow> Some False
         | Some (None, None) \<Rightarrow> None
         | Some (None, Some d) \<Rightarrow>
             if \<not> Contains (Rules d) sign then Some False
             else (case evalExpr cr sha n getDarc (rule_at (Rules d) sign) ids of
                 None \<Rightarrow> None
               | Some (Some err) \<Rightarrow> Some False
               | Some None \<Rightarrow> Some True))
       else Some (s \<in> set ids)) e)"

definition darc_VerifyWithCB ::
  "('p, 's, 'k) crypto \<Rightarrow> (bytes \<Rightarrow> bytes) \<Rightarrow> nat \<Rightarrow> (bytes \<Rightarrow> 'p darc option) \<Rightarrow> 'p darc option \<Rightarrow>
   (darc_error option \<times> 'p darc option) option" where
  "darc_VerifyWithCB cr sha fuel getDarc dp =
     verify_with cr sha (evalExpr cr sha fuel getDarc) getDarc dp"

section \<open>Verifying a request\<close>

fun verify_identities ::
  "('p, 's, 'k) crypto \<Rightarrow> bytes \<Rightarrow> 'p identity list \<Rightarrow> bytes list \<Rightarrow> darc_error option option" where
  "verify_identities cr digest (i # is) (s # ss) =
     (case identity_Verify cr i digest s of
        None \<Rightarrow> None
      | Some (Some err) \<Rightarrow> Some (Some err)
      | Some None \<Rightarrow> verify_identities cr digest is ss)"
| "verify_identities cr digest _ _ = Some None"

definition request_verify_with ::
  "('p, 's, 'k) crypto \<Rightarrow> (bytes \<Rightarrow> bytes) \<Rightarrow> (expr \<Rightarrow> bytes list \<Rightarrow> darc_error option option) \<Rightarrow>
   'p request \<Rightarrow> 'p darc \<Rightarrow> darc_error option option" where
  "request_verify_with cr sha eval r d =
     (if length (rq_Signatures r) = 0 then Some (Some NoSignatures)
      else if length (rq_Signatures r) \<noteq> length (rq_Identities r) then Some (Some SignatureCountMismatch)
      else if \<not> ID_Equal (GetBaseID sha d) (rq_BaseID r) then Some (Some BaseIDMismatch)
      else if \<not> Contains (Rules d) (rq_Action r) then Some (Some ActionDoesNotExist)
      else (case verify_identities cr (request_Hash cr sha r) (rq_Identities r) (rq_Signatures r) of
          None \<Rightarrow> None
        | Some (Some err) \<Rightarrow> Some (Some err)
        | Some None \<Rightarrow> eval (rule_at (Rules d) (rq_Action r)) (GetIdentityStrings cr r)))"

definition request_VerifyWithCB ::
  "('p, 's, 'k) crypto \<Rightarrow> (bytes \<Rightarrow> bytes) \<Rightarrow> nat \<Rightarrow> 'p request \<Rightarrow> 'p darc \<Rightarrow>
   (bytes \<Rightarrow> 'p darc option) \<Rightarrow> darc_error option option" where
  "request_VerifyWithCB cr sha fuel r d getDarc =
     request_verify_with cr sha (evalExpr cr sha fuel getDarc) r d"

definition request_Verify ::
  "('p, 's, 'k) crypto \<Rightarrow> (bytes \<Rightarrow> bytes) \<Rightarrow> 'p request \<Rightarrow> 'p darc \<Rightarrow> darc_error option option" where
  "request_Verify cr sha r d = request_verify_with cr sha evalExpr_nil r d"

end
