(* ===== verification/Instructions.thy ===== *)
theory Instructions
  imports DarcVerify Records Manipulators
begin

text \<open>
  Models \<open>omniledger/service/transaction.go\<close>: instructions, client transactions and state changes,
  their hashes, the access control request an instruction stands for, and the order in which the
  transactions of a block are put.

  \<open>Spawn\<close>, \<open>Invoke\<close> and \<open>Delete\<close> of an instruction are pointers, so each may be nil or not. Go
  \<open>int\<close>s are \<open>int\<close>; only their low 32 bits are hashed. A type variable \<open>'p\<close> stands for the curve
  points in the signatures. \<open>network.Marshal\<close> and \<open>protobuf.Encode\<close> are parameters.
\<close>

section \<open>Data\<close>

record argument =
  arg_Name :: bytes
  arg_Value :: bytes

record object_id =
  DarcID :: bytes
  InstanceID :: bytes

record spawn =
  sp_ContractID :: bytes
  sp_Args :: "argument list"

record invoke =
  inv_Command :: bytes
  inv_Args :: "argument list"

record 'p instruction =
  in_ObjectID :: object_id
  in_Nonce :: bytes
  in_Index :: int
  in_Length :: int
  in_Spawn :: "spawn option"
  in_Invoke :: "invoke option"
  in_Delete :: bool
  in_Signatures :: "'p signature list"

type_synonym 'p client_tx = "'p instruction list"

datatype state_action = Create | Update | Remove_action | OtherAction int

record state_change =
  sc_StateAction :: state_action
  sc_ObjectID :: bytes
  sc_ContractID :: bytes
  sc_Value :: bytes

record coin =
  coin_Name :: object_id
  coin_Value :: "64 word"

text \<open>Errors of the service, and those it passes on.\<close>

datatype service_error =
    CollError coll_error
  | DarcError darc_error
  | InvalidStateAction
  | NothingStored
  | VersionMismatch
  | InvalidGenesisDarc
  | UnknownSkipchain
  | NoTransactions
  | NoValidTransaction
  | NoLatestBlock
  | NotConfig
  | InvalidValueLength
  | NotDarc
  | ContractError
  | ConfigNotSpawned
  | EmptyRules
  | ZeroInterval
  | NotYetImplemented
  | MarshalError
  | WrongDataType
  | StoreBlockError
  | KeyRequired
  | KeyTooLarge
  | ValueTooLarge
  | ValueNotBytes
  | ContractNotBytes
  | MissingBlock
  | NoIdentities
  | ServiceNotFound

section \<open>Object ids and arguments\<close>

definition oid_Slice :: "object_id \<Rightarrow> bytes" where
  "oid_Slice oid = DarcID oid @ InstanceID oid"

text \<open>A missing argument and an empty one both read as no bytes.\<close>

fun Search :: "argument list \<Rightarrow> bytes \<Rightarrow> bytes" where
  "Search [] name = []"
| "Search (arg # args) name = (if arg_Name arg = name then arg_Value arg else Search args name)"

section \<open>Hashes\<close>

definition put_uint32_le :: "32 word \<Rightarrow> bytes" where
  "put_uint32_le v = map (\<lambda>i. ucast (drop_bit (8 * i) v)) [0..<4]"

definition hash_args :: "argument list \<Rightarrow> bytes" where
  "hash_args args = concat (map (\<lambda>a. arg_Name a @ arg_Value a) args)"

definition instr_preimage :: "'p instruction \<Rightarrow> bytes" where
  "instr_preimage instr =
     DarcID (in_ObjectID instr) @ InstanceID (in_ObjectID instr) @ in_Nonce instr @
     put_uint32_le (word_of_int (in_Index instr)) @ put_uint32_le (word_of_int (in_Length instr)) @
     (case in_Spawn instr of
        Some sp \<Rightarrow> [0] @ sp_ContractID sp @ hash_args (sp_Args sp)
      | None \<Rightarrow>
          (case in_Invoke instr of
             Some call \<Rightarrow> [1] @ hash_args (inv_Args call)
           | None \<Rightarrow> if in_Delete instr then [2] else []))"

definition instr_Hash :: "(bytes \<Rightarrow> bytes) \<Rightarrow> 'p instruction \<Rightarrow> bytes" where
  "instr_Hash sha instr = sha (instr_preimage instr)"

definition instrs_Hash :: "(bytes \<Rightarrow> bytes) \<Rightarrow> 'p instruction list \<Rightarrow> bytes" where
  "instrs_Hash sha instrs = sha (concat (map (instr_Hash sha) instrs))"

definition cts_Hash :: "(bytes \<Rightarrow> bytes) \<Rightarrow> 'p client_tx list \<Rightarrow> bytes" where
  "cts_Hash sha cts = sha (concat (map (instrs_Hash sha) cts))"

text \<open>A state change that cannot be encoded is logged and adds nothing.\<close>

definition scs_Hash ::
  "(bytes \<Rightarrow> bytes) \<Rightarrow> (state_change \<Rightarrow> bytes option) \<Rightarrow> state_change list \<Rightarrow> bytes" where
  "scs_Hash sha pb_encode scs =
     sha (concat (map (\<lambda>sc. case pb_encode sc of None \<Rightarrow> [] | Some b \<Rightarrow> b) scs))"

section \<open>The contract and the action of an instruction\<close>

text \<open>The collection the contracts read has two data fields: the value and the contract ID.\<close>

definition as_bytes :: "gval \<Rightarrow> bytes option" where
  "as_bytes g = (case g of GBytes b \<Rightarrow> Some b | _ \<Rightarrow> None)"

definition GetContractState ::
  "(bytes \<Rightarrow> bytes) \<Rightarrow> 'p instruction \<Rightarrow> collection \<Rightarrow> (service_error + bytes \<times> bytes) option" where
  "GetContractState sha instr coll =
     (case in_Spawn instr of
        Some sp \<Rightarrow> Some (Inr (sp_ContractID sp, []))
      | None \<Rightarrow>
          (case Get_Record sha coll (oid_Slice (in_ObjectID instr)) of
             None \<Rightarrow> None
           | Some (Inl err) \<Rightarrow> Some (Inl (CollError err))
           | Some (Inr rec) \<Rightarrow>
               (case rec_Values rec of
                  Inl err \<Rightarrow> Some (Inl (CollError err))
                | Inr cv \<Rightarrow>
                    do {
                      v1 \<leftarrow> slice_get cv 1; contractID \<leftarrow> as_bytes v1;
                      v0 \<leftarrow> slice_get cv 0; state \<leftarrow> as_bytes v0;
                      Some (Inr (contractID, state))
                    })))"

definition instr_Action :: "'p instruction \<Rightarrow> action" where
  "instr_Action instr =
     (case in_Spawn instr of
        Some sp \<Rightarrow> ascii ''Spawn_'' @ sp_ContractID sp
      | None \<Rightarrow>
          (case in_Invoke instr of
             Some call \<Rightarrow> ascii ''Invoke_'' @ inv_Command call
           | None \<Rightarrow> if in_Delete instr then ascii ''Delete'' else ascii ''invalid''))"

text \<open>
  The loop takes the address of its variable: when it is over, every entry of the identities is the
  signer of the last signature.
\<close>

definition ToDarcRequest :: "(bytes \<Rightarrow> bytes) \<Rightarrow> 'p instruction \<Rightarrow> 'p request" where
  "ToDarcRequest sha instr =
     InitRequest (DarcID (in_ObjectID instr)) (instr_Action instr) (instr_Hash sha instr)
       (map (\<lambda>_. sig_signer (last (in_Signatures instr))) (in_Signatures instr))
       (map sig_bytes (in_Signatures instr))"

text \<open>Signing replaces the signatures; a signer without a key makes the hash panic.\<close>

definition SignBy ::
  "('p, 's, 'k) crypto \<Rightarrow> (bytes \<Rightarrow> bytes) \<Rightarrow> ('p, 's) signer list \<Rightarrow> 'p instruction \<Rightarrow>
   (darc_error + 'p instruction) option" where
  "SignBy cr sha signers instr =
     do {
       ids \<leftarrow> signer_identities signers;
       let digest = request_Hash cr sha ((ToDarcRequest sha instr)\<lparr>rq_Identities := ids\<rparr>);
       Some (case sign_all cr signers digest of
           Inl err \<Rightarrow> Inl err
         | Inr sigs \<Rightarrow>
             Inr (instr\<lparr>in_Signatures :=
               map2 (\<lambda>s i. \<lparr>sig_bytes = s, sig_signer = i\<rparr>) sigs ids\<rparr>))
     }"

section \<open>State changes\<close>

definition NewStateChange ::
  "state_action \<Rightarrow> object_id \<Rightarrow> bytes \<Rightarrow> bytes \<Rightarrow> state_change" where
  "NewStateChange sa objectID contractID value =
     \<lparr>sc_StateAction = sa, sc_ObjectID = oid_Slice objectID, sc_ContractID = contractID,
      sc_Value = value\<rparr>"

definition action_String :: "state_action \<Rightarrow> bytes" where
  "action_String a =
     (case a of Create \<Rightarrow> ascii ''Create'' | Update \<Rightarrow> ascii ''Update''
      | Remove_action \<Rightarrow> ascii ''Remove'' | OtherAction n \<Rightarrow> ascii ''Invalid stateChange'')"

section \<open>The order of transactions\<close>

text \<open>
  \<open>sort.Slice\<close> is not stable: the order of two transactions with the same salted hash is not fixed
  by the code.
\<close>

definition sortWithSalt :: "(bytes \<Rightarrow> bytes) \<Rightarrow> bytes list \<Rightarrow> bytes \<Rightarrow> bytes list" where
  "sortWithSalt sha ts salt = sort_key (\<lambda>t. sha (salt @ t)) ts"

definition xor_bytes :: "bytes \<Rightarrow> bytes \<Rightarrow> bytes" where
  "xor_bytes a b = map2 (\<lambda>x y. x XOR y) a b"

definition xorTransactions :: "(bytes \<Rightarrow> bytes) \<Rightarrow> bytes list \<Rightarrow> bytes" where
  "xorTransactions sha ts = foldl (\<lambda>result t. xor_bytes result (sha t)) zero_digest ts"

fun try_map :: "('a \<Rightarrow> 'e + 'b) \<Rightarrow> 'a list \<Rightarrow> 'e + 'b list" where
  "try_map f [] = Inr []"
| "try_map f (x # xs) =
     (case f x of
        Inl e \<Rightarrow> Inl e
      | Inr y \<Rightarrow> (case try_map f xs of Inl e \<Rightarrow> Inl e | Inr ys \<Rightarrow> Inr (y # ys)))"

definition sortTransactions ::
  "(bytes \<Rightarrow> bytes) \<Rightarrow> ('p client_tx \<Rightarrow> service_error + bytes) \<Rightarrow> (bytes \<Rightarrow> service_error + 'p client_tx) \<Rightarrow>
   'p client_tx list \<Rightarrow> service_error + 'p client_tx list" where
  "sortTransactions sha marshal unmarshal ts =
     (case try_map marshal ts of
        Inl err \<Rightarrow> Inl err
      | Inr bs \<Rightarrow> try_map unmarshal (sortWithSalt sha bs (xorTransactions sha bs)))"

end
