(* ===== verification/CollectionDB.thy ===== *)
theory CollectionDB
  imports Instructions
begin

text \<open>
  Models \<open>omniledger/service/struct.go\<close>: the collection of a skipchain, kept in memory and on disk.

  A bolt bucket is an association list in the order of its keys, the order in which a cursor goes
  through it. \<open>db.Update\<close> is a transaction: when the function given to it returns an error,
  nothing is written.
\<close>

section \<open>Buckets\<close>

type_synonym bucket = "(bytes \<times> bytes) list"

definition bucket_Get :: "bucket \<Rightarrow> bytes \<Rightarrow> bytes" where
  "bucket_Get b k = (case map_of b k of None \<Rightarrow> [] | Some v \<Rightarrow> v)"

definition bucket_Put :: "bucket \<Rightarrow> bytes \<Rightarrow> bytes \<Rightarrow> service_error + bucket" where
  "bucket_Put b k v =
     (if length k = 0 then Inl KeyRequired
      else if length k > 32768 then Inl KeyTooLarge
      else if length v > 2 ^ 31 - 2 then Inl ValueTooLarge
      else Inr (insort_key fst (k, v) (filter (\<lambda>p. fst p \<noteq> k) b)))"

definition bucket_Delete :: "bucket \<Rightarrow> bytes \<Rightarrow> bucket" where
  "bucket_Delete b k = filter (\<lambda>p. fst p \<noteq> k) b"

section \<open>The database\<close>

record collection_db =
  cdb_bucket :: bucket
  cdb_coll :: collection

text \<open>The loop of \<open>loadAll\<close>: errors of \<open>Add\<close> are ignored.\<close>

fun loadAll ::
  "(bytes \<Rightarrow> bytes) \<Rightarrow> bucket \<Rightarrow> bucket \<Rightarrow> collection \<Rightarrow> collection option" where
  "loadAll sha b [] c = Some c"
| "loadAll sha b ((k, v) # rest) c =
     do {
       (err, c') \<leftarrow> Add sha c k [GBytes v, GBytes (bucket_Get b (k @ ascii ''sig''))];
       loadAll sha b rest c'
     }"

text \<open>The bucket is created if it is not there yet.\<close>

definition newCollectionDB :: "(bytes \<Rightarrow> bytes) \<Rightarrow> bucket option \<Rightarrow> collection_db option" where
  "newCollectionDB sha disk =
     do {
       c \<leftarrow> New sha [Data, Data];
       let b = (case disk of None \<Rightarrow> [] | Some b \<Rightarrow> b);
       c' \<leftarrow> loadAll sha b b c;
       Some \<lparr>cdb_bucket = b, cdb_coll = c'\<rparr>
     }"

section \<open>Storing a state change\<close>

definition coll_result ::
  "(coll_error option \<times> collection) option \<Rightarrow> (service_error option \<times> collection) option" where
  "coll_result res = do { (err, c) \<leftarrow> res; Some (map_option CollError err, c) }"

definition storeInColl ::
  "(bytes \<Rightarrow> bytes) \<Rightarrow> collection \<Rightarrow> state_change \<Rightarrow> (service_error option \<times> collection) option" where
  "storeInColl sha c t =
     (case sc_StateAction t of
        Create \<Rightarrow> coll_result (Add sha c (sc_ObjectID t) [GBytes (sc_Value t), GBytes (sc_ContractID t)])
      | Update \<Rightarrow> coll_result (Set sha c (sc_ObjectID t) [GBytes (sc_Value t), GBytes (sc_ContractID t)])
      | Remove_action \<Rightarrow> coll_result (Remove sha c (sc_ObjectID t))
      | OtherAction n \<Rightarrow> Some (Some InvalidStateAction, c))"

text \<open>The key of the contract ID: the object ID, four zero bytes and \<open>kind\<close>.\<close>

definition keykind :: "bytes \<Rightarrow> bytes" where
  "keykind k = (k @ replicate 4 0) @ ascii ''kind''"

definition store_in_bucket :: "bucket \<Rightarrow> state_change \<Rightarrow> service_error + bucket" where
  "store_in_bucket b t =
     (case sc_StateAction t of
        OtherAction n \<Rightarrow> Inl InvalidStateAction
      | Remove_action \<Rightarrow>
          Inr (bucket_Delete (bucket_Delete b (sc_ObjectID t)) (keykind (sc_ObjectID t)))
      | _ \<Rightarrow>
          (case bucket_Put b (sc_ObjectID t) (sc_Value t) of
             Inl err \<Rightarrow> Inl err
           | Inr b' \<Rightarrow> bucket_Put b' (keykind (sc_ObjectID t)) (sc_ContractID t)))"

definition Store ::
  "(bytes \<Rightarrow> bytes) \<Rightarrow> collection_db \<Rightarrow> state_change \<Rightarrow>
   (service_error option \<times> collection_db) option" where
  "Store sha db t =
     do {
       (err, c) \<leftarrow> storeInColl sha (cdb_coll db) t;
       let db' = db\<lparr>cdb_coll := c\<rparr>;
       (case err of
          Some e \<Rightarrow> Some (Some e, db')
        | None \<Rightarrow>
            (case store_in_bucket (cdb_bucket db') t of
               Inl e \<Rightarrow> Some (Some e, db')
             | Inr b \<Rightarrow> Some (None, db'\<lparr>cdb_bucket := b\<rparr>)))
     }"

text \<open>Storing state changes one after the other, up to the first error.\<close>

fun store_all ::
  "('s \<Rightarrow> state_change \<Rightarrow> (service_error option \<times> 's) option) \<Rightarrow> 's \<Rightarrow> state_change list \<Rightarrow>
   (service_error option \<times> 's) option" where
  "store_all store s [] = Some (None, s)"
| "store_all store s (sc # scs) =
     do {
       (err, s') \<leftarrow> store s sc;
       (case err of Some e \<Rightarrow> Some (Some e, s') | None \<Rightarrow> store_all store s' scs)
     }"

section \<open>Reading\<close>

definition GetValueContract ::
  "(bytes \<Rightarrow> bytes) \<Rightarrow> collection_db \<Rightarrow> bytes \<Rightarrow> (service_error + bytes \<times> bytes) option" where
  "GetValueContract sha db k =
     do {
       res \<leftarrow> Get_Record sha (cdb_coll db) k;
       (case res of
          Inl err \<Rightarrow> Some (Inl (CollError err))
        | Inr proof \<Rightarrow>
            (case rec_Values proof of
               Inl err \<Rightarrow> Some (Inl (CollError err))
             | Inr hashes \<Rightarrow>
                 (if length hashes = 0 then Some (Inl NothingStored)
                  else (case as_bytes (hashes ! 0) of
                      None \<Rightarrow> Some (Inl ValueNotBytes)
                    | Some value \<Rightarrow>
                        do {
                          h \<leftarrow> slice_get hashes 1;
                          Some (case as_bytes h of
                              None \<Rightarrow> Inl ContractNotBytes
                            | Some contract \<Rightarrow> Inr (value, contract))
                        }))))
     }"

definition RootHash :: "collection_db \<Rightarrow> bytes" where
  "RootHash db = GetRoot (cdb_coll db)"

section \<open>Trying a hash\<close>

text \<open>
  The state changes are added in order. Each addition defers its removal: the removals run when
  the function returns, the last one first, and each that fails replaces the error.
\<close>

fun try_adds ::
  "(bytes \<Rightarrow> bytes) \<Rightarrow> collection \<Rightarrow> bytes list \<Rightarrow> state_change list \<Rightarrow>
   (service_error option \<times> bytes list \<times> collection) option" where
  "try_adds sha c deferred [] = Some (None, deferred, c)"
| "try_adds sha c deferred (sc # scs) =
     do {
       (err, c') \<leftarrow> Add sha c (sc_ObjectID sc) [GBytes (sc_Value sc), GBytes (sc_ContractID sc)];
       (case err of
          Some e \<Rightarrow> Some (Some (CollError e), deferred, c')
        | None \<Rightarrow> try_adds sha c' (sc_ObjectID sc # deferred) scs)
     }"

fun run_deferred ::
  "(bytes \<Rightarrow> bytes) \<Rightarrow> collection \<Rightarrow> bytes \<times> service_error option \<Rightarrow> bytes list \<Rightarrow>
   ((bytes \<times> service_error option) \<times> collection) option" where
  "run_deferred sha c res [] = Some (res, c)"
| "run_deferred sha c res (k # ks) =
     do {
       (err, c') \<leftarrow> Remove sha c k;
       run_deferred sha c' (case err of Some e \<Rightarrow> ([], Some (CollError e)) | None \<Rightarrow> res) ks
     }"

definition tryHash ::
  "(bytes \<Rightarrow> bytes) \<Rightarrow> collection_db \<Rightarrow> state_change list \<Rightarrow>
   ((bytes \<times> service_error option) \<times> collection_db) option" where
  "tryHash sha db ts =
     do {
       (err, deferred, c) \<leftarrow> try_adds sha (cdb_coll db) [] ts;
       (res, c') \<leftarrow> run_deferred sha c
         (case err of Some e \<Rightarrow> ([], Some e) | None \<Rightarrow> (GetRoot c, None)) deferred;
       Some (res, db\<lparr>cdb_coll := c'\<rparr>)
     }"

end
