(* ===== verification/Varint.thy ===== *)
theory Varint
  imports Field
begin

unbundle bit_operations_syntax

text \<open>
  The variable-length integers of Go's \<open>encoding/binary\<close> that \<open>service.go\<close> and \<open>contracts.go\<close> use
  for the block interval: seven bits a byte, the lowest first, the top bit set on all bytes but the
  last; signed integers are zig-zag encoded. An \<open>int64\<close> is a 64-bit word. \<open>PutVarint\<close> panics when
  the buffer is too short. Reading back gives the integer that was put.
\<close>

function uvarint :: "64 word \<Rightarrow> bytes" where
  "uvarint x = (if x < 0x80 then [ucast x] else (ucast x OR 0x80) # uvarint (drop_bit 7 x))"
  by pat_completeness auto
termination
proof (relation "measure unat")
  fix x :: "64 word"
  assume "\<not> x < 0x80"
  then have "0x80 \<le> unat x" by (simp add: word_less_nat_alt)
  then show "(drop_bit 7 x, x) \<in> measure unat"
    by (simp add: unat_drop_bit_eq drop_bit_nat_def)
qed simp

declare uvarint.simps [simp del]

definition zigzag :: "64 word \<Rightarrow> 64 word" where
  "zigzag x = (if x <s 0 then NOT (push_bit 1 x) else push_bit 1 x)"

definition PutVarint :: "bytes \<Rightarrow> 64 word \<Rightarrow> bytes option" where
  "PutVarint buf x =
     (let bs = uvarint (zigzag x)
      in if length bs \<le> length buf then Some (bs @ drop (length bs) buf) else None)"

text \<open>\<open>i\<close> is the index of the next byte, \<open>x\<close> what has been read so far. Overflow and the end of the
  buffer give zero.\<close>

fun Uvarint :: "nat \<Rightarrow> 64 word \<Rightarrow> bytes \<Rightarrow> 64 word" where
  "Uvarint i x [] = 0"
| "Uvarint i x (b # bs) =
     (if b < 0x80
      then (if i > 9 \<or> (i = 9 \<and> b > 1) then 0 else x OR push_bit (7 * i) (ucast b))
      else Uvarint (i + 1) (x OR push_bit (7 * i) (ucast (b AND 0x7F))) bs)"

definition Varint :: "bytes \<Rightarrow> 64 word" where
  "Varint buf =
     (let ux = Uvarint 0 0 buf; x = drop_bit 1 ux in if ux AND 1 \<noteq> 0 then NOT x else x)"

section \<open>The round trip\<close>

lemma bit_zigzag: "bit (zigzag x) (Suc n) \<longleftrightarrow> n < 63 \<and> bit x n \<noteq> (x <s 0)"
  unfolding zigzag_def by (auto simp: bit_not_iff bit_push_bit_iff simp del: push_bit_Suc push_bit_of_1)

lemma zigzag_inverse: "(if zigzag x AND 1 \<noteq> 0 then NOT (drop_bit 1 (zigzag x)) else drop_bit 1 (zigzag x)) = x"
proof -
  have sgn: "x <s 0 \<longleftrightarrow> bit x 63" using bit_last_iff [of x] by (simp add: word_sless_alt)
  have "zigzag x AND 1 \<noteq> 0 \<longleftrightarrow> bit (zigzag x) 0"
    by (simp add: and_one_eq bit_0 odd_iff_mod_2_eq_one)
  then have odd: "(zigzag x AND 1 \<noteq> 0) = (x <s 0)"
    by (auto simp: zigzag_def bit_simps bit_0)
  show ?thesis unfolding odd
  proof (rule bit_word_eqI)
    fix n assume "n < LENGTH(64)"
    then have "n < 63 \<or> n = 63" by auto
    then show "bit (if x <s 0 then NOT (drop_bit 1 (zigzag x)) else drop_bit 1 (zigzag x)) n = bit x n"
      by (auto simp: bit_not_iff bit_drop_bit_eq bit_zigzag sgn)
  qed
qed

lemma less_8_cases: "(n :: nat) < 8 \<Longrightarrow> n \<in> {0, 1, 2, 3, 4, 5, 6, 7}"
  by auto

lemma bit_80: "bit (0x80 :: 8 word) n \<longleftrightarrow> n = 7"
proof (cases "n < 8")
  case True
  from less_8_cases [OF this] show ?thesis by (auto simp: bit_iff_odd)
qed (use bit_imp_le_length [of "0x80 :: 8 word" n] in auto)

lemma bit_7F: "bit (0x7F :: 8 word) n \<longleftrightarrow> n < 7"
proof (cases "n < 8")
  case True
  from less_8_cases [OF this] show ?thesis by (auto simp: bit_iff_odd)
qed (use bit_imp_le_length [of "0x7F :: 8 word" n] in auto)

lemma low_bits:
  "bit (ucast ((ucast x OR 0x80 :: 8 word) AND 0x7F) :: 64 word) n \<longleftrightarrow> n < 7 \<and> bit (x :: 64 word) n"
  unfolding bit_ucast_iff bit_and_iff bit_or_iff bit_7F bit_80 by auto

lemma not_small: "\<not> (ucast x OR 0x80 :: 8 word) < 0x80"
proof -
  have "0x80 AND (ucast x OR 0x80) = (0x80 :: 8 word)" by (rule bit_word_eqI) (auto simp: bit_simps bit_80)
  then have "0x80 \<le> (ucast x OR 0x80 :: 8 word)" using word_and_le1 [of "0x80 :: 8 word" "ucast x OR 0x80"] by simp
  then show ?thesis by simp
qed

lemma split_low_bits:
  "push_bit s (ucast ((ucast x OR 0x80 :: 8 word) AND 0x7F)) OR push_bit (7 + s) (drop_bit 7 x) = push_bit s (x :: 64 word)"
proof (rule bit_word_eqI)
  fix n assume "n < LENGTH(64)"
  moreover have "7 + (n - (7 + s)) = n - s" if "\<not> n - s < 7" using that by simp
  ultimately show "bit (push_bit s (ucast ((ucast x OR 0x80 :: 8 word) AND 0x7F)) OR push_bit (7 + s) (drop_bit 7 x)) n
      = bit (push_bit s x) n"
    by (cases "n - s < 7") (auto simp: bit_push_bit_iff bit_drop_bit_eq bit_or_iff low_bits)
qed

lemma Uvarint_uvarint:
  "unat x * 2 ^ (7 * i) < 2 ^ 64 \<Longrightarrow> i < 10 \<Longrightarrow>
     Uvarint i acc (uvarint x @ rest) = acc OR push_bit (7 * i) x"
proof (induction x arbitrary: i acc rule: uvarint.induct)
  case (1 x)
  show ?case
  proof (cases "x < 0x80")
    case True
    then have "unat x < 128" by (simp add: word_less_nat_alt)
    then have u: "unat (ucast x :: 8 word) = unat x" by (simp add: unsigned_ucast_eq take_bit_nat_eq_self)
    have "(ucast (ucast x :: 8 word) :: 64 word) = take_bit 8 x"
      by (rule bit_word_eqI) (auto simp: bit_ucast_iff bit_take_bit_iff)
    also have "\<dots> = x"
      using \<open>unat x < 128\<close> by (simp add: word_unat_eq_iff unsigned_take_bit_eq take_bit_nat_eq_self)
    finally have "(ucast (ucast x :: 8 word) :: 64 word) = x" .
    moreover have "\<not> (i > 9 \<or> i = 9 \<and> (ucast x :: 8 word) > 1)"
      using "1.prems" u by (auto simp: word_less_nat_alt)
    ultimately show ?thesis using True u by (auto simp: uvarint.simps [of x] word_less_nat_alt)
  next
    case False
    then have big: "128 \<le> unat x" by (simp add: word_less_nat_alt)
    have "i < 9"
    proof (rule ccontr)
      assume "\<not> i < 9"
      then have "i = 9" using "1.prems" by simp
      with "1.prems" big show False by simp
    qed
    have "unat (drop_bit 7 x) * 2 ^ (7 * (i + 1)) \<le> unat x * 2 ^ (7 * i)"
      by (simp add: unat_drop_bit_eq drop_bit_nat_def power_add)
    with "1.prems" \<open>i < 9\<close> "1.IH" [OF False, of "i + 1"] show ?thesis
      by (simp add: uvarint.simps [of x] False not_small or.assoc split_low_bits)
  qed
qed

lemma Varint_PutVarint:
  assumes "PutVarint buf x = Some buf'"
  shows "Varint buf' = x" "length buf' = length buf"
proof -
  have U: "Uvarint 0 0 buf' = zigzag x"
    using assms Uvarint_uvarint [of "zigzag x" 0 0] unsigned_less [of "zigzag x"]
    by (auto simp: PutVarint_def Let_def split: if_splits)
  show "Varint buf' = x" unfolding Varint_def Let_def U by (rule zigzag_inverse)
  show "length buf' = length buf" using assms by (auto simp: PutVarint_def Let_def split: if_splits)
qed

text \<open>Seven bits go into a byte, so eight bytes hold the integers of 56 bits.\<close>

lemma length_uvarint: "length (uvarint x) \<le> n \<longleftrightarrow> 0 < n \<and> unat x < 2 ^ (7 * n)"
proof (induction x arbitrary: n rule: uvarint.induct)
  case (1 x)
  show ?case
  proof (cases "x < 0x80")
    case True
    then have "unat x < 2 ^ (7 * 1)" by (simp add: word_less_nat_alt)
    moreover have "(2 :: nat) ^ (7 * 1) \<le> 2 ^ (7 * n)" if "0 < n" by (rule power_increasing) (use that in auto)
    ultimately have "0 < n \<Longrightarrow> unat x < 2 ^ (7 * n)" by (meson less_le_trans)
    with True show ?thesis by (auto simp: uvarint.simps [of x])
  next
    case False
    then have big: "128 \<le> unat x" by (simp add: word_less_nat_alt)
    show ?thesis
    proof (cases n)
      case (Suc m)
      have "unat (drop_bit 7 x) < 2 ^ (7 * m) \<longleftrightarrow> unat x < 2 ^ (7 * n)"
        by (simp add: Suc unat_drop_bit_eq drop_bit_nat_def power_add div_less_iff_less_mult mult.commute)
      moreover have "0 < m" if "unat x < 2 ^ (7 * n)" using that big Suc by (cases m) auto
      ultimately show ?thesis using 1 [OF False, of m] False Suc by (auto simp: uvarint.simps [of x])
    qed (use False in \<open>simp add: uvarint.simps [of x]\<close>)
  qed
qed

lemma PutVarint_panics:
  "PutVarint buf x = None \<longleftrightarrow> length buf = 0 \<or> 2 ^ (7 * length buf) \<le> unat (zigzag x)"
  using length_uvarint [of "zigzag x" "length buf"] by (auto simp: PutVarint_def Let_def)

text \<open>A nonnegative integer is doubled.\<close>

lemma zigzag_nonneg:
  assumes "0 \<le> sint x"
  shows "unat (zigzag x) = 2 * nat (sint x)"
proof -
  have "sint x < 2 ^ 63" using sint_less [of x] by simp
  then have s: "sint x = uint x" using assms by (simp add: uint_sint take_bit_int_eq_self)
  have "uint x < 2 ^ 63" using \<open>sint x < 2 ^ 63\<close> s by simp
  then have "unat x < 2 ^ 63" by (simp add: unat_eq_nat_uint nat_less_iff del: nat_uint_eq)
  have "zigzag x = push_bit 1 x" using assms by (simp add: zigzag_def word_sless_alt)
  also have "unat (push_bit 1 x) = 2 * unat x"
    using \<open>unat x < 2 ^ 63\<close> by (simp add: unat_word_ariths)
  finally show ?thesis by (simp add: s)
qed
end
