(* ===== verification/Contracts.thy ===== *)
theory Contracts
  imports CollectionDB Varint
begin

text \<open>
  Models \<open>omniledger/service/contracts.go\<close>: the special object IDs and the two contracts every
  service knows. A contract reads the collection and answers with state changes; one that changes
  the collection it is given is outside the model. Encoding and decoding by \<open>protobuf\<close> are
  parameters. \<open>None\<close> is a contract that panics.
\<close>

type_synonym 'p contract =
  "collection \<Rightarrow> 'p instruction \<Rightarrow> coin list \<Rightarrow> (service_error + state_change list \<times> coin list) option"

definition ZeroNonce :: bytes where "ZeroNonce = replicate 32 0"
definition OneNonce :: bytes where "OneNonce = (replicate 32 0)[31 := 1]"
definition ZeroDarc :: bytes where "ZeroDarc = replicate 32 0"

definition GenesisReferenceID :: object_id where
  "GenesisReferenceID = \<lparr>DarcID = ZeroDarc, InstanceID = ZeroNonce\<rparr>"

definition ContractConfigID :: bytes where "ContractConfigID = ascii ''config''"
definition ContractDarcID :: bytes where "ContractDarcID = ascii ''darc''"
definition CmdDarcEvolve :: bytes where "CmdDarcEvolve = ascii ''Evolve''"

text \<open>A duration is a number of nanoseconds in an \<open>int64\<close>.\<close>

record config =
  BlockInterval :: "64 word"

definition ContractConfig ::
  "('p, 's, 'k) crypto \<Rightarrow> (bytes \<Rightarrow> bytes) \<Rightarrow> (bytes \<Rightarrow> darc_error + 'p darc) \<Rightarrow>
   (config \<Rightarrow> service_error + bytes) \<Rightarrow> 'p contract" where
  "ContractConfig cr sha pb_darc pb_config cdb tx coins =
     (case in_Spawn tx of
        None \<Rightarrow> Some (Inl ConfigNotSpawned)
      | Some sp \<Rightarrow>
          (let darcBuf = Search (sp_Args sp) (ascii ''darc'') in
           case pb_darc darcBuf of
             Inl err \<Rightarrow> Some (Inl (DarcError err))
           | Inr d \<Rightarrow>
               if length (Rules d) = 0 then Some (Inl EmptyRules)
               else (case darc_Verify cr sha (Some d) of
                   None \<Rightarrow> None
                 | Some (Some err, _) \<Rightarrow> Some (Inl (DarcError err))
                 | Some (None, _) \<Rightarrow>
                     (let interval = Varint (Search (sp_Args sp) (ascii ''block_interval'')) in
                      if interval = 0 then Some (Inl ZeroInterval)
                      else (case pb_config \<lparr>BlockInterval = interval\<rparr> of
                          Inl err \<Rightarrow> Some (Inl err)
                        | Inr configBuf \<Rightarrow>
                            Some (Inr
                              ([NewStateChange Create GenesisReferenceID ContractConfigID
                                  (DarcID (in_ObjectID tx)),
                                NewStateChange Create (in_ObjectID tx) ContractDarcID darcBuf,
                                NewStateChange Create
                                  \<lparr>DarcID = DarcID (in_ObjectID tx), InstanceID = OneNonce\<rparr>
                                  ContractConfigID configBuf], [])))))))"

definition ContractDarc :: "'p contract" where
  "ContractDarc cdb tx coins = Some (Inl NotYetImplemented)"

end
