(* ===== verification/ServiceProof.thy ===== *)
theory ServiceProof
  imports Contracts Proofs
begin

text \<open>
  Models \<open>omniledger/service/proof.go\<close> and the data header of \<open>struct.go\<close>: a proof that a key is in
  the collection of a skipchain, or is not.

  The skipchain (\<open>cothority/skipchain\<close>) is a parameter: of a block only the fields the service reads
  or writes are kept, blocks are looked up in a database \<open>'d\<close>, rosters are of a type \<open>'r\<close>. A roster
  is a pointer and may be nil. \<open>follow\<close> is a loop that a cycle of forward links keeps running, so it
  is a partial function: \<open>None\<close> is a loop that does not end.
\<close>

record 'r forward_link =
  fl_From :: bytes
  fl_To :: bytes
  fl_NewRoster :: "'r option"
  fl_Signature :: bytes

record 'r skipblock =
  sb_Index :: int
  sb_Hash :: bytes
  sb_GenesisID :: bytes
  sb_Roster :: "'r option"
  sb_MaximumHeight :: int
  sb_BaseHeight :: int
  sb_VerifierIDs :: "bytes list"
  sb_Data :: bytes
  sb_ForwardLink :: "'r forward_link list"

definition SkipChainID :: "'r skipblock \<Rightarrow> bytes" where
  "SkipChainID sb = (if sb_Index sb = 0 then sb_Hash sb else sb_GenesisID sb)"

record data_header =
  CollectionRoot :: bytes
  ClientTransactionHash :: bytes
  StateChangesHash :: bytes
  Timestamp :: int

record 'r service_proof =
  InclusionProof :: mproof
  Latest :: "'r skipblock"
  Links :: "'r forward_link list"

section \<open>Making a proof\<close>

partial_function (option) follow ::
  "(bytes \<Rightarrow> 'r skipblock option) \<Rightarrow> 'r forward_link list \<Rightarrow> 'r skipblock \<Rightarrow>
   (service_error + 'r forward_link list \<times> 'r skipblock) option" where
  "follow getByID links sb =
     (if length (sb_ForwardLink sb) = 0 then Some (Inr (links, sb))
      else (let link = last (sb_ForwardLink sb) in
        case getByID (fl_To link) of
          None \<Rightarrow> Some (Inl MissingBlock)
        | Some sb' \<Rightarrow> follow getByID (links @ [link]) sb'))"

definition NewProof ::
  "(bytes \<Rightarrow> bytes) \<Rightarrow> collection_db \<Rightarrow> (bytes \<Rightarrow> 'r skipblock option) \<Rightarrow> bytes \<Rightarrow> bytes \<Rightarrow>
   (service_error + 'r service_proof) option" where
  "NewProof sha c getByID sbID k =
     do {
       res \<leftarrow> Get_Proof sha (cdb_coll c) k;
       (case res of
          Inl err \<Rightarrow> Some (Inl (CollError err))
        | Inr p \<Rightarrow>
            (case getByID sbID of
               None \<Rightarrow> Some (Inl UnknownSkipchain)
             | Some sb \<Rightarrow>
                 do {
                   walk \<leftarrow> follow getByID
                     [\<lparr>fl_From = [], fl_To = sbID, fl_NewRoster = sb_Roster sb, fl_Signature = []\<rparr>] sb;
                   Some (case walk of
                       Inl err \<Rightarrow> Inl err
                     | Inr (links, latest) \<Rightarrow>
                         Inr \<lparr>InclusionProof = p, Latest = latest, Links = links\<rparr>)
                 }))
     }"

section \<open>Verifying a proof\<close>

datatype verify_error =
    ErrorVerifyCollection | ErrorVerifyCollectionRoot | ErrorVerifySkipchain
  | ErrorUnmarshal service_error

text \<open>
  The loop over the links after the first; \<open>publics\<close> is the roster whose keys check the next link.
  \<open>verify_link\<close> stands for \<open>ForwardLink.Verify\<close>.
\<close>

fun verify_links ::
  "('r forward_link \<Rightarrow> 'r \<Rightarrow> bool) \<Rightarrow> bytes \<Rightarrow> 'r \<Rightarrow> 'r forward_link list \<Rightarrow> verify_error option" where
  "verify_links verify_link sbID publics [] = None"
| "verify_links verify_link sbID publics (l # ls) =
     (if \<not> verify_link l publics then Some ErrorVerifySkipchain
      else if fl_From l \<noteq> sbID then Some ErrorVerifySkipchain
      else verify_links verify_link (fl_To l)
             (case fl_NewRoster l of None \<Rightarrow> publics | Some r \<Rightarrow> r) ls)"

text \<open>
  \<open>unmarshal\<close> answers an error, a data header, or (\<open>Inr None\<close>) something else, which makes the type
  assertion panic. The first link must have a roster.
\<close>

definition service_Verify ::
  "(bytes \<Rightarrow> bytes) \<Rightarrow> (bytes \<Rightarrow> service_error + data_header option) \<Rightarrow>
   ('r forward_link \<Rightarrow> 'r \<Rightarrow> bool) \<Rightarrow> 'r service_proof \<Rightarrow> bytes \<Rightarrow> verify_error option option" where
  "service_Verify sha unmarshal verify_link p scID =
     do {
       consistent \<leftarrow> Consistent sha (InclusionProof p);
       (if \<not> consistent then Some (Some ErrorVerifyCollection)
        else case unmarshal (sb_Data (Latest p)) of
          Inl err \<Rightarrow> Some (Some (ErrorUnmarshal err))
        | Inr None \<Rightarrow> None
        | Inr (Some header) \<Rightarrow>
            if TreeRootHash (InclusionProof p) \<noteq> CollectionRoot header
            then Some (Some ErrorVerifyCollectionRoot)
            else (case Links p of
                [] \<Rightarrow> Some None
              | l # ls \<Rightarrow>
                  (case fl_NewRoster l of
                     None \<Rightarrow> None
                   | Some r \<Rightarrow> Some (verify_links verify_link scID r ls))))
     }"

definition KeyValue :: "(bytes \<Rightarrow> bytes) \<Rightarrow> 'r service_proof \<Rightarrow> (coll_error + bytes \<times> bytes list) option" where
  "KeyValue sha p =
     do {
       values \<leftarrow> RawValues sha (InclusionProof p);
       Some (case values of Inl err \<Rightarrow> Inl err | Inr vs \<Rightarrow> Inr (p_key (InclusionProof p), vs))
     }"

end
