(* ===== verification/ServiceProofCorrect.thy ===== *)
theory ServiceProofCorrect
  imports ServiceProof ProofCorrect
begin

text \<open>
  Proofs of the service: what \<open>NewProof\<close> makes over a well-formed skipchain verifies; what an
  accepted proof shows of its links; and what it does not show, because the root it compares is the
  key of the root node, which nothing binds.
\<close>

section \<open>Well-formed skipchains\<close>

definition next_roster :: "'r forward_link \<Rightarrow> 'r \<Rightarrow> 'r" where
  "next_roster l r = (case fl_NewRoster l of None \<Rightarrow> r | Some r' \<Rightarrow> r')"

text \<open>
  The last forward link of every block leads from the block to a later one, is signed by the roster
  of the block, and says when the roster changes. \<open>N\<close> bounds the indices.
\<close>

definition skipchain_ok ::
  "(bytes \<Rightarrow> 'r skipblock option) \<Rightarrow> ('r forward_link \<Rightarrow> 'r \<Rightarrow> bool) \<Rightarrow> int \<Rightarrow> bool" where
  "skipchain_ok getByID verify_link N \<longleftrightarrow>
     (\<forall>id sb. getByID id = Some sb \<longrightarrow> (\<exists>r. sb_Roster sb = Some r \<and>
        (sb_ForwardLink sb \<noteq> [] \<longrightarrow>
          (let l = last (sb_ForwardLink sb) in fl_From l = id \<and> verify_link l r \<and>
            (\<exists>sb'. getByID (fl_To l) = Some sb' \<and> sb_Index sb < sb_Index sb' \<and> sb_Index sb' \<le> N \<and>
               sb_Roster sb' = Some (next_roster l r))))))"

lemma skipchain_okE:
  assumes "skipchain_ok getByID verify_link N" "getByID k = Some sb"
  obtains r where "sb_Roster sb = Some r"
    "sb_ForwardLink sb \<noteq> [] \<Longrightarrow> fl_From (last (sb_ForwardLink sb)) = k \<and>
      verify_link (last (sb_ForwardLink sb)) r \<and>
      (\<exists>sb'. getByID (fl_To (last (sb_ForwardLink sb))) = Some sb' \<and> sb_Index sb < sb_Index sb' \<and>
         sb_Index sb' \<le> N \<and> sb_Roster sb' = Some (next_roster (last (sb_ForwardLink sb)) r))"
proof -
  from assms obtain r where "sb_Roster sb = Some r"
    "sb_ForwardLink sb \<noteq> [] \<longrightarrow> fl_From (last (sb_ForwardLink sb)) = k \<and>
      verify_link (last (sb_ForwardLink sb)) r \<and>
      (\<exists>sb'. getByID (fl_To (last (sb_ForwardLink sb))) = Some sb' \<and> sb_Index sb < sb_Index sb' \<and>
         sb_Index sb' \<le> N \<and> sb_Roster sb' = Some (next_roster (last (sb_ForwardLink sb)) r))"
    unfolding skipchain_ok_def Let_def by blast
  then show thesis by (rule that [OF _ mp])
qed

section \<open>The links of a proof\<close>

text \<open>The walk ends, and the links it adds verify from the block it starts at.\<close>

lemma follow_verifies:
  "skipchain_ok getByID verify_link N \<Longrightarrow> getByID k = Some sb \<Longrightarrow> sb_Roster sb = Some r \<Longrightarrow>
     \<exists>new latest. follow getByID links sb = Some (Inr (links @ new, latest)) \<and>
       sb_ForwardLink latest = [] \<and> (\<exists>k'. getByID k' = Some latest) \<and>
       verify_links verify_link k r new = None"
proof (induction "nat (N - sb_Index sb)" arbitrary: k sb r links rule: less_induct)
  case less
  show ?case
  proof (cases "sb_ForwardLink sb = []")
    case True
    with less.prems show ?thesis by (intro exI [of _ "[]"] exI [of _ sb]) (auto simp: follow.simps)
  next
    case False
    let ?l = "last (sb_ForwardLink sb)"
    obtain sb' where l: "fl_From ?l = k" "verify_link ?l r" "getByID (fl_To ?l) = Some sb'"
      "sb_Index sb < sb_Index sb'" "sb_Index sb' \<le> N" "sb_Roster sb' = Some (next_roster ?l r)"
      by (rule skipchain_okE [OF less.prems(1,2)]) (use False less.prems(3) in auto)
    have "nat (N - sb_Index sb') < nat (N - sb_Index sb)" using l(4,5) by simp
    then obtain new latest where "follow getByID (links @ [?l]) sb' = Some (Inr ((links @ [?l]) @ new, latest))"
      "sb_ForwardLink latest = []" "\<exists>k'. getByID k' = Some latest"
      "verify_links verify_link (fl_To ?l) (next_roster ?l r) new = None"
      using less.hyps [OF _ less.prems(1) l(3,6), of "links @ [?l]"] by blast
    with l False show ?thesis
      by (intro exI [of _ "?l # new"] exI [of _ latest])
        (simp add: follow.simps [of _ _ sb] next_roster_def)
  qed
qed

lemma root_key_empty: "coll_ok sha c \<Longrightarrow> key (cell (root c)) = []"
  by (cases "root c") (auto simp: coll_ok_def good_def split: if_splits)

text \<open>The merkle root of a collection is always empty: it is the key of its root node.\<close>

lemma GetRoot_empty: "coll_ok sha c \<Longrightarrow> GetRoot c = []"
  by (simp add: GetRoot_def root_key_empty)

lemma Get_Proof_root: "Get_Proof sha c k = Some (Inr p) \<Longrightarrow> p_root p = dumpNode (arrays c) (root c)"
  by (auto simp: Get_Proof_def elim!: bind_SomeE split: if_split_asm sum.split_asm)

lemma TreeRootHash_empty:
  assumes "Get_Proof sha c k = Some (Inr p)" "coll_ok sha c"
  shows "TreeRootHash p = []"
  using root_key_empty [OF assms(2)] Get_Proof_root [OF assms(1)]
  by (cases "root c") (simp_all add: TreeRootHash_def dumpNode_def)

section \<open>An honest proof verifies\<close>

lemma NewProof_verifies:
  assumes "hash_ok sha" "full sha (cdb_coll c)" "k \<noteq> []"
    and "secure_on sha (hashed (arrays (cdb_coll c)) (root (cdb_coll c)))"
    and "skipchain_ok getByID verify_link N" "getByID scID = Some sb"
    and "\<And>b id. getByID id = Some b \<Longrightarrow>
      \<exists>h. unmarshal (sb_Data b) = Inr (Some h) \<and> CollectionRoot h = []"
  shows "\<exists>p. NewProof sha c getByID scID k = Some (Inr p) \<and>
    service_Verify sha unmarshal verify_link p scID = Some None \<and>
    KeyValue sha p = Some (case kv (cdb_coll c) k of None \<Rightarrow> Inl NoMatch | Some vs \<Rightarrow> Inr (k, vs))"
proof -
  have ok: "coll_ok sha (cdb_coll c)" using assms(2) by (simp add: full_def)
  obtain p where p: "Get_Proof sha (cdb_coll c) k = Some (Inr p)" "Consistent sha p = Some True"
    "p_key p = k" "RawValues sha p = Some (case kv (cdb_coll c) k of None \<Rightarrow> Inl NoMatch | Some vs \<Rightarrow> Inr vs)"
    by (rule Get_Proof_complete [OF assms(1-4)])
  obtain r where r: "sb_Roster sb = Some r" using skipchain_okE [OF assms(5,6)] by metis
  let ?l0 = "\<lparr>fl_From = [], fl_To = scID, fl_NewRoster = sb_Roster sb, fl_Signature = []\<rparr>"
  obtain new latest k' where f: "follow getByID [?l0] sb = Some (Inr ([?l0] @ new, latest))"
    "getByID k' = Some latest" "verify_links verify_link scID r new = None"
    using follow_verifies [OF assms(5,6) r, of "[?l0]"] by blast
  obtain h where h: "unmarshal (sb_Data latest) = Inr (Some h)" "CollectionRoot h = []"
    using assms(7) [OF f(2)] by blast
  let ?p = "\<lparr>InclusionProof = p, Latest = latest, Links = ?l0 # new\<rparr>"
  have "NewProof sha c getByID scID k = Some (Inr ?p)"
    using p(1) f(1) assms(6) by (simp add: NewProof_def)
  moreover have "service_Verify sha unmarshal verify_link ?p scID = Some None"
    using p(2) h f(3) r TreeRootHash_empty [OF p(1) ok] by (simp add: service_Verify_def)
  moreover have "KeyValue sha ?p = Some (case kv (cdb_coll c) k of None \<Rightarrow> Inl NoMatch | Some vs \<Rightarrow> Inr (k, vs))"
    using p(3,4) by (simp add: KeyValue_def split: option.splits)
  ultimately show ?thesis by blast
qed

section \<open>What an accepted proof shows\<close>

definition linked :: "('r forward_link \<Rightarrow> 'r \<Rightarrow> bool) \<Rightarrow> bytes \<Rightarrow> 'r \<Rightarrow> 'r forward_link list \<Rightarrow> bool" where
  "linked verify_link start r ls \<longleftrightarrow>
     (\<forall>j < length ls.
        fl_From (ls ! j) = (if j = 0 then start else fl_To (ls ! (j - 1))) \<and>
        verify_link (ls ! j) (foldl (\<lambda>r l. next_roster l r) r (take j ls)))"

lemma linked_Cons:
  "linked verify_link start r (l # ls) \<longleftrightarrow>
     fl_From l = start \<and> verify_link l r \<and> linked verify_link (fl_To l) (next_roster l r) ls"
proof -
  have "(\<forall>j < length (l # ls). P j) \<longleftrightarrow> P 0 \<and> (\<forall>j < length ls. P (Suc j))" for P
    by (auto simp: less_Suc_eq_0_disj)
  then show ?thesis unfolding linked_def by (auto simp: nth_Cons' split: if_splits)
qed

lemma verify_links_iff: "verify_links verify_link start r ls = None \<longleftrightarrow> linked verify_link start r ls"
proof (induction ls arbitrary: start r)
  case Nil
  then show ?case by (simp add: linked_def)
next
  case (Cons l ls)
  then show ?case by (simp add: linked_Cons next_roster_def)
qed

lemma service_Verify_iff:
  "service_Verify sha unmarshal verify_link p scID = Some None \<longleftrightarrow>
     Consistent sha (InclusionProof p) = Some True \<and>
     (\<exists>h. unmarshal (sb_Data (Latest p)) = Inr (Some h) \<and>
        CollectionRoot h = TreeRootHash (InclusionProof p)) \<and>
     (Links p = [] \<or> (\<exists>r. fl_NewRoster (hd (Links p)) = Some r \<and>
        linked verify_link scID r (tl (Links p))))"
  by (auto simp: service_Verify_def go_simps verify_links_iff split: sum.splits option.splits list.splits)

section \<open>What it does not show\<close>

definition forge :: "mproof \<Rightarrow> bytes \<Rightarrow> mproof" where
  "forge p root_hash = p\<lparr>p_root := (p_root p)\<lparr>d_key := root_hash\<rparr>\<rparr>"

lemma forge_fields [simp]:
  "p_key (forge p x) = p_key p" "p_steps (forge p x) = p_steps p" "d_key (p_root (forge p x)) = x"
  by (simp_all add: forge_def)

lemma consistent_steps_key:
  "steps \<noteq> [] \<Longrightarrow> consistent_steps sha path d (cursor\<lparr>d_key := x\<rparr>) steps = consistent_steps sha path d cursor steps"
  by (cases steps) auto

lemma forge_consistent:
  assumes "\<not> dump_leaf (p_root p)"
  shows "Consistent sha (forge p x) = Consistent sha p"
proof -
  have "dump_consistent sha ((p_root p)\<lparr>d_key := x\<rparr>) = dump_consistent sha (p_root p)"
    using assms by (auto simp: dump_consistent_def dump_toHash_def dump_leaf_def)
  then show ?thesis
    using consistent_steps_key [of "p_steps p" sha "sha (p_key p)" 0 x "p_root p"]
    by (simp add: Consistent_def forge_def)
qed

lemma forged_proof_accepted:
  assumes "Consistent sha p = Some True" "\<not> dump_leaf (p_root p)"
    and "unmarshal (sb_Data latest) = Inr (Some h)"
  shows "service_Verify sha unmarshal verify_link
      \<lparr>InclusionProof = forge p (CollectionRoot h), Latest = latest, Links = []\<rparr> scID = Some None \<and>
    RawValues sha (forge p (CollectionRoot h)) = RawValues sha p"
  using assms forge_consistent [OF assms(2), of sha "CollectionRoot h"]
  by (simp add: service_Verify_def TreeRootHash_def RawValues_def cong: if_cong)

text \<open>A proof made from any collection can be made to pass for any block.\<close>

lemma any_contents_accepted:
  assumes "hash_ok sha" "full sha c" "k \<noteq> []" "secure_on sha (hashed (arrays c) (root c))"
    and "unmarshal (sb_Data latest) = Inr (Some h)"
  shows "\<exists>p. service_Verify sha unmarshal verify_link p scID = Some None \<and> Latest p = latest \<and>
    KeyValue sha p = Some (case kv c k of None \<Rightarrow> Inl NoMatch | Some vs \<Rightarrow> Inr (k, vs))"
proof -
  have ok: "tree_ok sha (coll_fields c) (arrays c) [] (root c)" "clean (root c)" "all_known (root c)"
    "\<not> node_leaf (root c)"
    using assms(2) all_known_cell by (auto simp: full_def coll_ok_def good_def)
  obtain p where p: "Get_Proof sha c k = Some (Inr p)" "Consistent sha p = Some True" "p_key p = k"
    "RawValues sha p = Some (case kv c k of None \<Rightarrow> Inl NoMatch | Some vs \<Rightarrow> Inr vs)"
    by (rule Get_Proof_complete [OF assms(1-4)])
  have "\<not> dump_leaf (p_root p)"
    using dumpNode_consistent(2) [OF assms(4) order_refl ok(1-3)] ok(4) Get_Proof_root [OF p(1)] by simp
  note forged = forged_proof_accepted [where unmarshal = unmarshal and latest = latest and h = h
      and verify_link = verify_link and scID = scID, OF p(2) this assms(5)]
  show ?thesis
    by (rule exI [of _ "\<lparr>InclusionProof = forge p (CollectionRoot h), Latest = latest, Links = []\<rparr>"])
      (use forged p(3,4) in \<open>simp add: KeyValue_def split: option.splits\<close>)
qed

end
