(* ===== verification/Views.thy ===== *)
theory Views
  imports ProofCorrect
begin

text \<open>
  A node that keeps only part of the tree. \<open>view\<close> says that a tree is a full tree some of whose
  subtrees have been forgotten (only their labels are left). A collection whose tree is a view of a
  full collection is well formed, and what it says about a key is true of the full collection.
  \<open>Verify\<close> accepts exactly the consistent proofs against its root, and stays a view: no proof,
  however made, can bring wrong data into it, unless the hash function fails.
\<close>

fun view :: "store \<Rightarrow> node \<Rightarrow> store \<Rightarrow> node \<Rightarrow> bool" where
  "view st (Leaf c b) st' n' \<longleftrightarrow>
     \<not> inconsistent c \<and> b = None \<and> label c = label (cell n') \<and>
     (if known c
      then node_leaf n' \<and> key c = key (cell n') \<and> read st (vals c) = read st' (vals (cell n'))
      else key c = [])"
| "view st (Inner c b l r) st' (Inner c' b' l' r') \<longleftrightarrow>
     \<not> inconsistent c \<and> b = None \<and> label c = label c' \<and> known c \<and> key c = [] \<and>
     read st (vals c) = read st' (vals c') \<and> view st l st' l' \<and> view st r st' r'"
| "view st (Inner c b l r) st' (Leaf c' b') \<longleftrightarrow> False"

lemma view_clean: "view st n st' n' \<Longrightarrow> clean n"
  by (induction st n st' n' rule: view.induct) auto

lemma view_label: "view st n st' n' \<Longrightarrow> label (cell n) = label (cell n')"
  by (cases n; cases n') auto

lemma view_vals:
  "view st n st' n' \<Longrightarrow> known (cell n) \<Longrightarrow> read st (vals (cell n)) = read st' (vals (cell n'))"
  by (cases n; cases n') auto

lemma view_leaf: "view st n st' n' \<Longrightarrow> known (cell n) \<Longrightarrow> node_leaf n = node_leaf n'"
  by (cases n; cases n') auto

lemma view_known: "view st n st' n' \<Longrightarrow> \<not> node_leaf n \<Longrightarrow> known (cell n)"
  by (cases n; cases n') auto

lemma view_cong:
  assumes "\<And>r. r \<in> set (refs n) \<Longrightarrow> read st2 r = read st r"
  shows "view st n st' n' \<Longrightarrow> view st2 n st' n'"
  using assms by (induction st n st' n' rule: view.induct) auto

lemma view_tree_ok:
  "view st n st' n' \<Longrightarrow> tree_ok sha fs st' pre n' \<Longrightarrow> clean n' \<Longrightarrow> all_known n' \<Longrightarrow> tree_ok sha fs st pre n"
proof (induction st n st' n' arbitrary: pre rule: view.induct)
  case (1 st c b st' n')
  show ?case
  proof (cases "known c")
    case True
    with 1 obtain c' b' where n': "n' = Leaf c' b'" by (cases n') auto
    have "known c'" using 1(4) n' by simp
    with 1 True n' show ?thesis by (auto simp: generateHash_def)
  next
    case False
    with 1 show ?thesis by simp
  qed
next
  case (2 st c b l r st' c' b' l' r')
  have kn: "known (cell l')" "known (cell r')" using 2(6) all_known_cell by auto
  have sub: "tree_ok sha fs st (pre @ [False]) l" "tree_ok sha fs st (pre @ [True]) r"
    using 2 by auto
  have "generateHash sha st (Inner c b l r) = generateHash sha st' (Inner c' b' l' r')"
    using 2(3) view_label [of st l st' l'] view_label [of st r st' r'] by (simp add: generateHash_def)
  then show ?case
    using 2(3-5) sub kn view_vals [of st l st' l'] view_vals [of st r st' r']
      view_clean [of st l st' l'] view_clean [of st r st' r'] by simp
qed simp

lemma view_lookup:
  assumes "view st n st' n'" "all_known n'" "lookup sha st d k n = Some a"
  shows "lookup sha st' d k n' = Some a"
  using assms
proof (induction st n st' n' arbitrary: d rule: view.induct)
  case (1 st c b st' n')
  then show ?case by (cases n') (auto split: if_splits)
next
  case (2 st c b l r st' c' b' l' r')
  then show ?case by (auto split: if_splits)
qed simp

text \<open>A full tree is a view of itself, and what is collected is a view too.\<close>

lemma view_refl:
  "clean n \<Longrightarrow> all_known n \<Longrightarrow> tree_ok sha fs st pre n \<Longrightarrow> view st n st n"
  by (induction n arbitrary: pre rule: tree_induct) auto

definition view_of :: "(bytes \<Rightarrow> bytes) \<Rightarrow> collection \<Rightarrow> collection \<Rightarrow> bool" where
  "view_of sha c db \<longleftrightarrow>
     full sha db \<and> view (arrays c) (root c) (arrays db) (root db) \<and>
     separated (arrays c) (root c) \<and> coll_fields c = coll_fields db \<and> scope_ok (coll_scope c) \<and>
     \<not> ongoing c"

lemma view_of_ok:
  assumes "view_of sha c db"
  shows "coll_ok sha c" "tree_label c = tree_label db"
proof -
  have db: "tree_ok sha (coll_fields db) (arrays db) [] (root db)" "clean (root db)" "all_known (root db)"
    "\<not> node_leaf (root db)" "fields_ok (coll_fields db)"
    using assms all_known_cell by (auto simp: view_of_def full_def coll_ok_def good_def)
  then show "coll_ok sha c"
    using assms view_tree_ok [of "arrays c" "root c" "arrays db" "root db" sha "coll_fields db" "[]"]
      view_clean [of "arrays c" "root c"] view_leaf [of "arrays c" "root c"]
    by (auto simp: view_of_def coll_ok_def good_def)
  show "tree_label c = tree_label db"
    using assms view_label by (auto simp: view_of_def tree_label_def)
qed

lemma view_of_lookup:
  assumes "hash_ok sha" "view_of sha c db" "k \<noteq> []" "lookup sha (arrays c) 0 k (root c) = Some a"
  shows "a = kv db k"
  using view_lookup [of "arrays c" "root c" "arrays db" "root db" sha 0 k a] assms
    full_lookup [OF assms(1) _ assms(3), of db]
  by (auto simp: view_of_def full_def)

section \<open>Taking a dump into the tree\<close>

lemma dump_to_view:
  assumes sec: "secure_on sha A" and v: "view st n st' n'"
    and n': "hashed st' n' \<subseteq> A" "tree_ok sha fs st' pre n'" "clean n'" "all_known n'"
    and d: "dump_consistent sha d" "encode_toHash (dump_toHash d) \<in> A" "d_label d = label (cell n)"
    and sep: "separated st n" and unk: "\<not> known (cell n)" and res: "dump_to d st n = (st2, n2)"
  shows "view st2 n2 st' n' \<and> known (cell n2) \<and> separated st2 n2 \<and> frame {} st st2 \<and>
    set (refs n2) \<subseteq> {length st..<length st2}"
proof -
  obtain c b where n: "n = Leaf c b" using view_known [OF v] unk by (cases n) auto
  have eq: "dump_toHash d = preimage st' n'"
    using consistent_dump_matches [OF sec n'(1-3) all_known_cell [OF n'(4)] d(1,2)] d(3) view_label [OF v]
    by simp
  show ?thesis
  proof (cases n')
    case (Leaf c' b')
    with eq have "dump_leaf d" by (auto simp: dump_toHash_def split: if_splits)
    with eq Leaf n v unk res d(3) show ?thesis
      by (auto simp: dump_to_def alloc_def dump_toHash_def separated_def)
  next
    case (Inner c' b' l' r')
    with eq have "\<not> dump_leaf d" by (auto simp: dump_toHash_def)
    with eq Inner n v unk res d(3) show ?thesis
      by (auto simp: dump_to_def alloc_def dump_toHash_def separated_def unknown_node_def new_node_def)
  qed
qed

lemma view_frame:
  assumes "frame {} st st2" "view st n st' n'" "separated st n"
  shows "view st2 n st' n'" "separated st2 n"
  using assms frame_length [OF assms(1)]
  by (auto simp: separated_def intro!: view_cong [of n st2 st] frame_read)

lemma take_dump:
  assumes sec: "secure_on sha A" and v: "view st n st' n'" "separated st n"
    and n': "hashed st' n' \<subseteq> A" "tree_ok sha fs st' pre n'" "clean n'" "all_known n'"
    and d: "dump_consistent sha d" "encode_toHash (dump_toHash d) \<in> A" "d_label d = label (cell n)"
  obtains st2 n2 where "(if \<not> known (cell n) then dump_to d st n else (st, n)) = (st2, n2)"
    "view st2 n2 st' n'" "known (cell n2)" "separated st2 n2" "frame {} st st2"
    "set (refs n2) \<subseteq> set (refs n) \<union> {length st..<length st2}"
proof (cases "known (cell n)")
  case True
  with that [of st n] v show ?thesis by simp
next
  case False
  obtain st2 n2 where res: "dump_to d st n = (st2, n2)" by fastforce
  from dump_to_view [OF sec v(1) n' d v(2) False res] False res that [of st2 n2] show ?thesis by auto
qed

section \<open>Verify\<close>

text \<open>Every node on the path of a key is known, and so is its sibling: the key can be read and written.\<close>

fun ready :: "bool list \<Rightarrow> nat \<Rightarrow> node \<Rightarrow> bool" where
  "ready path d (Leaf c b) \<longleftrightarrow> True"
| "ready path d (Inner c b l r) \<longleftrightarrow>
     known (cell l) \<and> known (cell r) \<and> ready path (d + 1) (if path ! d then r else l)"

lemma verify_at_view:
  assumes hash: "hash_ok sha" and sec: "secure_on sha A"
  shows "view st n st' n' \<Longrightarrow> known (cell n) \<Longrightarrow> tree_ok sha fs st' pre n' \<Longrightarrow> clean n' \<Longrightarrow> all_known n' \<Longrightarrow>
    hashed st' n' \<subseteq> A \<Longrightarrow> separated st n \<Longrightarrow> length pre \<le> 8 * sha_size \<Longrightarrow>
    d_label cursor = label (cell n) \<Longrightarrow> dump_consistent sha cursor \<Longrightarrow> encode_toHash (dump_toHash cursor) \<in> A \<Longrightarrow>
    (\<And>s. s \<in> set steps \<Longrightarrow> encode_toHash (dump_toHash (step_left s)) \<in> A \<and>
        encode_toHash (dump_toHash (step_right s)) \<in> A) \<Longrightarrow>
    consistent_steps sha (sha k) (length pre) cursor steps = Some True \<Longrightarrow>
    \<exists>st2 n2. verify_at (sha k) (length pre) steps st n = Some (st2, n2) \<and> view st2 n2 st' n' \<and>
      known (cell n2) \<and> separated st2 n2 \<and> frame {} st st2 \<and>
      set (refs n2) \<subseteq> set (refs n) \<union> {length st..<length st2} \<and>
      lookup sha st2 (length pre) k n2 \<noteq> None \<and> ready (path_of sha k) (length pre) n2"
proof (induction steps arbitrary: cursor n n' st pre)
  case Nil
  have "dump_toHash cursor = preimage st' n'"
    using consistent_dump_matches [OF sec Nil.prems(6,3,4) all_known_cell [OF Nil.prems(5)] Nil.prems(10,11)]
      Nil.prems(9) view_label [OF Nil.prems(1)] by simp
  moreover have "dump_leaf cursor" using Nil.prems(13) by simp
  ultimately have "node_leaf n'" by (cases n') (auto simp: dump_toHash_def)
  then have "node_leaf n" using view_leaf [OF Nil.prems(1,2)] by simp
  then have "lookup sha st (length pre) k n \<noteq> None" "ready (path_of sha k) (length pre) n"
    using Nil.prems(2) by (cases n; auto)+
  then show ?case using Nil.prems(1,2,7) by simp
next
  case (Cons s steps)
  have pre: "dump_toHash cursor = preimage st' n'"
    using consistent_dump_matches [OF sec Cons.prems(6,3,4) all_known_cell [OF Cons.prems(5)] Cons.prems(10,11)]
      Cons.prems(9) view_label [OF Cons.prems(1)] by simp
  have lab: "d_left cursor = d_label (step_left s)" "d_right cursor = d_label (step_right s)"
    and con: "dump_consistent sha (step_left s)" "dump_consistent sha (step_right s)"
    using Cons.prems(13) by (auto split: if_splits)
  have A: "encode_toHash (dump_toHash (step_left s)) \<in> A" "encode_toHash (dump_toHash (step_right s)) \<in> A"
    using Cons.prems(12) by auto
  have nl: "\<not> dump_leaf cursor"
    using consistent_nonzero [OF sec con(1) A(1)] lab by (simp add: dump_leaf_def)
  with pre obtain c' b' l' r' where n': "n' = Inner c' b' l' r'" by (cases n') (auto simp: dump_toHash_def)
  with Cons.prems(1,2) obtain c b l r where n: "n = Inner c b l r" by (cases n) auto
  have kids: "d_left cursor = label (cell l')" "d_right cursor = label (cell r')"
    using pre n' nl by (auto simp: dump_toHash_def)
  have V: "view st l st' l'" "view st r st' r'" using Cons.prems(1) n n' by auto
  have T: "tree_ok sha fs st' (pre @ [False]) l'" "tree_ok sha fs st' (pre @ [True]) r'" "clean l'" "clean r'"
    "all_known l'" "all_known r'" "hashed st' l' \<subseteq> A" "hashed st' r' \<subseteq> A" "length pre < 8 * sha_size"
    using Cons.prems(3-6) n' by auto
  have S: "separated st l" "separated st r" "set (refs l) \<inter> set (refs r) = {}"
    "vals c < length st" "vals c \<notin> set (refs l)" "vals c \<notin> set (refs r)"
    using Cons.prems(1,7) n n' by (auto simp: separated_Inner)
  have labels: "d_label (step_left s) = label (cell l)" "d_label (step_right s) = label (cell r)"
    using kids lab view_label [OF V(1)] view_label [OF V(2)] by simp_all
  obtain st1 l1 where l1: "(if \<not> known (cell l) then dump_to (step_left s) st l else (st, l)) = (st1, l1)"
    "view st1 l1 st' l'" "known (cell l1)" "separated st1 l1" "frame {} st st1"
    "set (refs l1) \<subseteq> set (refs l) \<union> {length st..<length st1}"
    using take_dump [OF sec V(1) S(1) T(7,1,3,5) con(1) A(1) labels(1)] .
  note r0 = view_frame [OF l1(5) V(2) S(2)]
  obtain st2 r1 where r1: "(if \<not> known (cell r) then dump_to (step_right s) st1 r else (st1, r)) = (st2, r1)"
    "view st2 r1 st' r'" "known (cell r1)" "separated st2 r1" "frame {} st1 st2"
    "set (refs r1) \<subseteq> set (refs r) \<union> {length st1..<length st2}"
    using take_dump [OF sec r0 T(8,2,4,6) con(2) A(2) labels(2)] .
  note l2 = view_frame [OF r1(5) l1(2,4)]
  have len: "length st \<le> length st1" "length st1 \<le> length st2"
    using l1(5) r1(5) by (auto simp: frame_def)
  define step where "step = path_of sha k ! length pre"
  define ch where "ch = (if step then r1 else l1)"
  define ch' where "ch' = (if step then r' else l')"
  have bit: "bit_at (sha k) (length pre) = Some step"
    unfolding step_def using T(9) by (rule bit_at_path [OF hash])
  have cl: "d_label (step_left s) = label (cell l1)" "d_label (step_right s) = label (cell r1)"
    using labels view_label [OF l1(2)] view_label [OF r1(2)] view_label [OF V(1)] view_label [OF V(2)] by simp_all
  have "\<exists>st3 n3. verify_at (sha k) (length (pre @ [step])) steps st2 ch = Some (st3, n3) \<and> view st3 n3 st' ch' \<and>
      known (cell n3) \<and> separated st3 n3 \<and> frame {} st2 st3 \<and>
      set (refs n3) \<subseteq> set (refs ch) \<union> {length st2..<length st3} \<and>
      lookup sha st3 (length (pre @ [step])) k n3 \<noteq> None \<and> ready (path_of sha k) (length (pre @ [step])) n3"
  proof (rule Cons.IH)
    show "view st2 ch st' ch'" "known (cell ch)" "separated st2 ch"
      using l2 r1 l1(3) by (simp_all add: ch_def ch'_def)
    show "tree_ok sha fs st' (pre @ [step]) ch'" "clean ch'" "all_known ch'" "hashed st' ch' \<subseteq> A"
      using T by (auto simp: ch'_def split: if_splits)
    show "d_label (step_side step s) = label (cell ch)" "dump_consistent sha (step_side step s)"
      "encode_toHash (dump_toHash (step_side step s)) \<in> A"
      using cl con A by (auto simp: step_side_def ch_def)
    show "consistent_steps sha (sha k) (length (pre @ [step])) (step_side step s) steps = Some True"
      using Cons.prems(13) bit lab con by (auto simp: step_side_def simp del: bit_at_Some split: if_splits)
  qed (use Cons.prems(12) T(9) in auto)
  then obtain st3 n3 where n3: "verify_at (sha k) (Suc (length pre)) steps st2 ch = Some (st3, n3)"
    "view st3 n3 st' ch'" "known (cell n3)" "separated st3 n3" "frame {} st2 st3"
    "set (refs n3) \<subseteq> set (refs ch) \<union> {length st2..<length st3}"
    "lookup sha st3 (Suc (length pre)) k n3 \<noteq> None" "ready (path_of sha k) (Suc (length pre)) n3" by auto
  define sib where "sib = (if step then l1 else r1)"
  define sib' where "sib' = (if step then l' else r')"
  have "view st2 sib st' sib'" "separated st2 sib"
    using l2 r1 by (auto simp: sib_def sib'_def)
  note sib = view_frame [OF n3(5) this]
  have fr: "frame {} st st3" using frame_trans [OF frame_trans [OF l1(5) r1(5)] n3(5)] by simp
  have len3: "length st2 \<le> length st3" using n3(5) by (simp add: frame_def)
  define L where "L = (if step then l1 else n3)"
  define R where "R = (if step then n3 else r1)"
  have ver: "verify_at (sha k) (length pre) (s # steps) st n = Some (st3, Inner c b L R)"
    using n l1(1) r1(1) bit n3(1)
    by (cases step) (auto simp: ch_def L_def R_def simp del: bit_at_Some)
  have kr: "set (refs L) \<subseteq> set (refs l) \<union> {length st..<length st3}"
    "set (refs R) \<subseteq> set (refs r) \<union> {length st..<length st3}"
    using l1(6) r1(6) n3(6) len len3 by (cases step; force simp: L_def R_def ch_def)+
  have bl: "\<forall>q \<in> set (refs l) \<union> set (refs r). q < length st" using S(1,2) by (auto simp: separated_def)
  have disj12: "set (refs l1) \<inter> set (refs r1) = {}"
  proof -
    have False if "q \<in> set (refs l1)" "q \<in> set (refs r1)" for q
    proof -
      have "q \<in> set (refs l) \<or> length st \<le> q \<and> q < length st1"
        "q \<in> set (refs r) \<or> length st1 \<le> q \<and> q < length st2"
        using that l1(6) r1(6) by auto
      moreover have "q \<notin> set (refs l) \<or> q \<notin> set (refs r)" using S(3) by blast
      moreover have "q \<in> set (refs l) \<Longrightarrow> q < length st" "q \<in> set (refs r) \<Longrightarrow> q < length st"
        using bl by auto
      ultimately show False using len by linarith
    qed
    then show ?thesis by blast
  qed
  have "set (refs L) \<inter> set (refs R) = {}"
  proof -
    have "\<forall>q \<in> set (refs sib). q < length st2"
      using l2(2) r1(4) by (cases step) (simp_all add: sib_def separated_def)
    moreover have "set (refs ch) \<inter> set (refs sib) = {}"
      using disj12 by (cases step) (auto simp: sib_def ch_def)
    ultimately have "set (refs n3) \<inter> set (refs sib) = {}"
      using n3(6) by fastforce
    then show ?thesis by (cases step) (auto simp: L_def R_def sib_def)
  qed
  moreover have "vals c \<notin> set (refs L)" "vals c \<notin> set (refs R)" "vals c < length st3"
    using kr S(4-6) len len3 by auto
  moreover have "separated st3 L" "separated st3 R"
    using n3(4) sib(2) by (auto simp: L_def R_def sib_def split: if_splits)
  ultimately have "separated st3 (Inner c b L R)" by (simp add: separated_Inner)
  moreover have "view st3 (Inner c b L R) st' n'"
  proof -
    have "read st3 (vals c) = read st (vals c)" using fr S(4) by (simp add: frame_read)
    then show ?thesis
      using Cons.prems(1) n n' n3(2) sib(1)
      by (cases step) (auto simp: L_def R_def sib_def sib'_def ch'_def)
  qed
  moreover have "lookup sha st3 (length pre) k (Inner c b L R) \<noteq> None"
    using n3(7) by (auto simp: step_def L_def R_def)
  moreover have "ready (path_of sha k) (length pre) (Inner c b L R)"
    using n3(3,8) l1(3) r1(3) by (simp add: step_def L_def R_def)
  moreover have "set (refs (Inner c b L R)) \<subseteq> set (refs n) \<union> {length st..<length st3}"
    using kr n by auto
  ultimately show ?case using ver fr Cons.prems(2) n by simp
qed

text \<open>Against an honest root, checking a proof does not panic, however long it is.\<close>

lemma consistent_steps_total:
  assumes hash: "hash_ok sha" and sec: "secure_on sha A"
  shows "tree_ok sha fs st' pre n' \<Longrightarrow> clean n' \<Longrightarrow> all_known n' \<Longrightarrow> hashed st' n' \<subseteq> A \<Longrightarrow>
    d_label cursor = label (cell n') \<Longrightarrow> dump_consistent sha cursor \<Longrightarrow> encode_toHash (dump_toHash cursor) \<in> A \<Longrightarrow>
    (\<And>s. s \<in> set steps \<Longrightarrow> encode_toHash (dump_toHash (step_left s)) \<in> A \<and>
        encode_toHash (dump_toHash (step_right s)) \<in> A) \<Longrightarrow>
    consistent_steps sha (sha k) (length pre) cursor steps \<noteq> None"
proof (induction steps arbitrary: cursor n' pre)
  case (Cons s steps)
  show ?case
  proof (cases "d_left cursor = d_label (step_left s) \<and> d_right cursor = d_label (step_right s) \<and>
      dump_consistent sha (step_left s) \<and> dump_consistent sha (step_right s)")
    case True
    have A: "encode_toHash (dump_toHash (step_left s)) \<in> A" "encode_toHash (dump_toHash (step_right s)) \<in> A"
      using Cons.prems(8) by auto
    have pre: "dump_toHash cursor = preimage st' n'"
      using consistent_dump_matches [OF sec Cons.prems(4,1,2) all_known_cell [OF Cons.prems(3)] Cons.prems(6,7,5)] .
    have nl: "\<not> dump_leaf cursor"
      using consistent_nonzero [OF sec _ A(1)] True by (auto simp: dump_leaf_def)
    with pre obtain c b l r where n': "n' = Inner c b l r" by (cases n') (auto simp: dump_toHash_def)
    have kids: "d_left cursor = label (cell l)" "d_right cursor = label (cell r)"
      using pre n' nl by (auto simp: dump_toHash_def)
    define step where "step = path_of sha k ! length pre"
    define ch where "ch = (if step then r else l)"
    have bit: "bit_at (sha k) (length pre) = Some step"
      unfolding step_def using Cons.prems(1) n' by (intro bit_at_path [OF hash]) simp
    have "consistent_steps sha (sha k) (length (pre @ [step])) (step_side step s) steps \<noteq> None"
    proof (rule Cons.IH)
      show "tree_ok sha fs st' (pre @ [step]) ch" "clean ch" "all_known ch" "hashed st' ch \<subseteq> A"
        using Cons.prems(1-4) n' by (auto simp: ch_def split: if_splits)
      show "d_label (step_side step s) = label (cell ch)" "dump_consistent sha (step_side step s)"
        "encode_toHash (dump_toHash (step_side step s)) \<in> A"
        using kids True A by (auto simp: step_side_def ch_def)
    qed (use Cons.prems(8) in auto)
    with True bit show ?thesis by (auto simp: step_side_def simp del: bit_at_Some)
  qed auto
qed simp

lemma Verify_view:
  assumes hash: "hash_ok sha" and v: "view_of sha c db" and k: "p_key p \<noteq> []"
    and sec: "secure_on sha (hashed (arrays db) (root db) \<union> proof_preimages p)"
  obtains ok c' where "Verify sha c p = Some (ok, c')" "view_of sha c' db"
    "ok \<longleftrightarrow> d_label (p_root p) = tree_label c \<and> Consistent sha p = Some True" "\<not> ok \<Longrightarrow> c' = c"
    "ok \<Longrightarrow> lookup sha (arrays c') 0 (p_key p) (root c') = Some (kv db (p_key p))"
    "ok \<Longrightarrow> known (cell (root c')) \<and> ready (path_of sha (p_key p)) 0 (root c')"
proof -
  let ?A = "hashed (arrays db) (root db) \<union> proof_preimages p"
  have cl: "clean (root c)" "view (arrays c) (root c) (arrays db) (root db)" "separated (arrays c) (root c)"
    using v view_clean by (auto simp: view_of_def)
  have nin: "\<not> inconsistent (cell (root c))" using cl(1) by (cases "root c") auto
  have db: "tree_ok sha (coll_fields db) (arrays db) [] (root db)" "clean (root db)" "all_known (root db)"
    "hashed (arrays db) (root db) \<subseteq> ?A"
    using v by (auto simp: view_of_def full_def coll_ok_def good_def)
  have A: "encode_toHash (dump_toHash (p_root p)) \<in> ?A"
    "s \<in> set (p_steps p) \<Longrightarrow> encode_toHash (dump_toHash (step_left s)) \<in> ?A \<and>
      encode_toHash (dump_toHash (step_right s)) \<in> ?A" for s
    by (auto simp: proof_preimages_def)
  show ?thesis
  proof (cases "d_label (p_root p) = tree_label c")
    case False
    with that [of False c] v nin show ?thesis by (simp add: Verify_def tree_label_def)
  next
    case lab: True
    then have labs: "d_label (p_root p) = label (cell (root c))" "d_label (p_root p) = label (cell (root db))"
      using view_label [OF cl(2)] by (simp_all add: tree_label_def)
    show ?thesis
    proof (cases "dump_consistent sha (p_root p)")
      case False
      with that [of False c] v nin lab show ?thesis
        by (auto simp: Verify_def tree_label_def Consistent_def)
    next
      case con: True
      have "consistent_steps sha (sha (p_key p)) (length ([] :: bool list)) (p_root p) (p_steps p) \<noteq> None"
        using consistent_steps_total [OF hash sec db labs(2) con A] by blast
      then have "Consistent sha p \<noteq> None" using con by (auto simp: Consistent_def)
      then obtain ok where ok: "Consistent sha p = Some ok" by blast
      show ?thesis
      proof (cases ok)
        case False
        with that [of False c] v nin lab ok show ?thesis by (simp add: Verify_def tree_label_def)
      next
        case True
        then have steps: "consistent_steps sha (sha (p_key p)) (length ([] :: bool list)) (p_root p) (p_steps p) = Some True"
          using ok con by (simp add: Consistent_def split: if_splits)
        obtain st1 n1 where n1: "(if \<not> known (cell (root c)) then dump_to (p_root p) (arrays c) (root c)
            else (arrays c, root c)) = (st1, n1)" "view st1 n1 (arrays db) (root db)" "known (cell n1)"
          "separated st1 n1"
          using take_dump [OF sec cl(2,3) db(4,1-3) con A(1) labs(1)] by metis
        obtain st2 n2 where n2: "verify_at (sha (p_key p)) 0 (p_steps p) st1 n1 = Some (st2, n2)"
          "view st2 n2 (arrays db) (root db)" "separated st2 n2"
          "lookup sha st2 0 (p_key p) n2 \<noteq> None" "known (cell n2)" "ready (path_of sha (p_key p)) 0 n2"
          using verify_at_view [OF hash sec n1(2,3) db(1-4) n1(4) _ _ con A steps]
            view_label [OF n1(2)] labs(2) by auto
        define c' where "c' = c\<lparr>root := n2, arrays := st2\<rparr>"
        have ver: "Verify sha c p = Some (True, c')"
          using ok True n1(1) n2(1) labs(1) nin by (simp add: Verify_def c'_def)
        have v': "view_of sha c' db" using v n2 by (simp add: view_of_def c'_def)
        obtain a where "lookup sha (arrays c') 0 (p_key p) (root c') = Some a"
          using n2(4) by (auto simp: c'_def)
        with view_of_lookup [OF hash v' k this] ver v' lab ok True n2(5,6) that [of True c']
        show ?thesis by (simp add: c'_def)
      qed
    qed
  qed
qed

section \<open>Forgetting\<close>

lemma collect_cut_view: "view st n st' n' \<Longrightarrow> view st (collect_cut n) st' n'"
  by (cases n; cases n') (auto simp: collect_cut_def node_prune_def)

lemma collect_node_view:
  "view st n st' n' \<Longrightarrow> collect_node sc n path d = Some n2 \<Longrightarrow> view st n2 st' n'"
proof (induction st n st' n' arbitrary: path d n2 rule: view.induct)
  case (1 st c b st' n')
  then show ?case using collect_cut_view [of st "Leaf c b" st' n'] by (auto simp: go_simps split: if_splits)
next
  case (2 st c b l r st' c' b' l' r')
  then show ?case
    using collect_cut_view [of st "Inner c b l r" st' "Inner c' b' l' r'"]
    by (fastforce simp: go_simps split: if_splits)
qed simp

lemma Collect_view:
  assumes hash: "hash_ok sha" and v: "view_of sha c db"
  obtains c' where "Collect c = Some c'" "view_of sha c' db" "tree_label c' = tree_label c"
    "\<And>k. in_scope (coll_scope c) sha k \<Longrightarrow> kv c' k = kv c k"
proof -
  have ok: "coll_ok sha c" "clean (root c)" using view_of_ok [OF v] v by (auto simp: view_of_def coll_ok_def)
  obtain c' where c': "Collect c = Some c'" "collects sha c c'" using Collect_total [OF hash ok] by blast
  have "view (arrays c) (root c') (arrays db) (root db) \<and> arrays c' = arrays c"
  proof (cases "root c")
    case (Leaf rc b)
    then have "\<not> known rc" using ok by (auto simp: coll_ok_def)
    then show ?thesis using c'(1) Leaf v by (simp add: Collect_def view_of_def)
  next
    case (Inner rc b l r)
    then obtain rc2 b2 l2 r2 where db: "root db = Inner rc2 b2 l2 r2"
      using v by (cases "root db") (auto simp: view_of_def)
    have k: "known rc" using v Inner db by (auto simp: view_of_def)
    have "c' = c\<lparr>root := collect_cut (root c)\<rparr> \<or>
      (\<exists>l' r' p2 p3. collect_node (coll_scope c) l p2 0 = Some l' \<and>
        collect_node (coll_scope c) r p3 0 = Some r' \<and> c' = c\<lparr>root := Inner rc b l' r'\<rparr>)"
      using c'(1) Inner k by (auto simp: Collect_def go_simps split: if_splits)
    then show ?thesis
      using v Inner db collect_cut_view [of "arrays c" "root c" "arrays db" "root db"]
      by (auto simp: view_of_def dest: collect_node_view)
  qed
  moreover have "separated (arrays c') (root c')" using c'(2) by (auto simp: collects_def coll_ok_def good_def)
  ultimately have "view_of sha c' db"
    using c'(2) v by (auto simp: view_of_def collects_def same_config_def)
  with that c' show ?thesis by (auto simp: collects_def)
qed

end
