(* ===== verification/PartViews.thy ===== *)
theory PartViews
  imports Views Histories
begin

text \<open>
  A tree with forgotten parts, in a transaction and outside. In a transaction the nodes above a written
  leaf are marked \<open>inconsistent\<close>: their labels and values are stale, in the part and in the full tree
  alike, until \<open>End\<close> has fixed them. \<open>part\<close> is the relation that all steps of a transaction keep; outside
  a transaction it is \<open>view\<close>. \<open>End\<close> leads from \<open>part\<close> back to \<open>view\<close>.
\<close>

fun part :: "store \<Rightarrow> node \<Rightarrow> store \<Rightarrow> node \<Rightarrow> bool" where
  "part st (Leaf c b) st' n' \<longleftrightarrow>
     label c = label (cell n') \<and> inconsistent c = inconsistent (cell n') \<and>
     (if known c
      then node_leaf n' \<and> key c = key (cell n') \<and> read st (vals c) = read st' (vals (cell n'))
      else key c = [] \<and> \<not> inconsistent c \<and> b = None)"
| "part st (Inner c b l r) st' (Inner c' b' l' r') \<longleftrightarrow>
     label c = label c' \<and> inconsistent c = inconsistent c' \<and> known c \<and> key c = [] \<and>
     (\<not> inconsistent c \<longrightarrow> read st (vals c) = read st' (vals c')) \<and> part st l st' l' \<and> part st r st' r'"
| "part st (Inner c b l r) st' (Leaf c' b') \<longleftrightarrow> False"

lemma part_label: "part st n st' n' \<Longrightarrow> label (cell n) = label (cell n')"
  by (cases n; cases n') auto

lemma part_inconsistent: "part st n st' n' \<Longrightarrow> inconsistent (cell n) = inconsistent (cell n')"
  by (cases n; cases n') auto

lemma part_vals:
  "part st n st' n' \<Longrightarrow> known (cell n) \<Longrightarrow> \<not> inconsistent (cell n) \<Longrightarrow>
     read st (vals (cell n)) = read st' (vals (cell n'))"
  by (cases n; cases n') auto

lemma part_leaf: "part st n st' n' \<Longrightarrow> known (cell n) \<Longrightarrow> node_leaf n = node_leaf n'"
  by (cases n; cases n') auto

lemma part_known: "part st n st' n' \<Longrightarrow> \<not> node_leaf n \<Longrightarrow> known (cell n)"
  by (cases n; cases n') auto

lemma part_leaves:
  assumes "part st cu st' cu'" "known (cell cu)" "node_leaf cu"
  obtains c b c' b' where "cu = Leaf c b" "cu' = Leaf c' b'" "key c = key c'" "label c = label c'" "known c"
    "inconsistent c = inconsistent c'" "read st (vals c) = read st' (vals c')"
  using assms by (cases cu; cases cu') auto

text \<open>Outside a transaction nothing is marked, and the relation is the one of \<open>Views\<close>.\<close>

lemma view_part: "view st n st' n' \<Longrightarrow> clean n' \<Longrightarrow> part st n st' n'"
proof (induction st n st' n' rule: view.induct)
  case (1 st c b st' n')
  then show ?case by (cases n') auto
qed auto

lemma part_view: "part st n st' n' \<Longrightarrow> clean n \<Longrightarrow> view st n st' n'"
  by (induction st n st' n' rule: part.induct) auto

lemma part_iff_view: "clean n \<Longrightarrow> clean n' \<Longrightarrow> part st n st' n' = view st n st' n'"
  using view_part part_view by blast

lemma part_cong:
  assumes "\<And>r. r \<in> set (refs n) \<Longrightarrow> read st2 r = read st r"
    and "\<And>r. r \<in> set (refs n') \<Longrightarrow> read st2' r = read st' r"
  shows "part st n st' n' \<Longrightarrow> all_known n' \<Longrightarrow> part st2 n st2' n'"
  using assms
proof (induction st n st' n' rule: part.induct)
  case (1 st c b st' n')
  then show ?case by (cases n') auto
qed auto

lemma part_both:
  assumes "part st n st' n'" "all_known n'"
    and "good sha fs st p n" "frame W st st2" "W \<inter> set (refs n) = {}"
    and "good sha fs st' p' n'" "frame W' st' st2'" "W' \<inter> set (refs n') = {}"
  shows "part st2 n st2' n'"
proof -
  have "read st2 r = read st r" if "r \<in> set (refs n)" for r
    using assms(4,5) good_refs_bound [OF assms(3) that] that by (intro frame_read [OF assms(4)]) auto
  moreover have "read st2' r = read st' r" if "r \<in> set (refs n')" for r
    using assms(7,8) good_refs_bound [OF assms(6) that] that by (intro frame_read [OF assms(7)]) auto
  ultimately show ?thesis using part_cong [OF _ _ assms(1,2)] by blast
qed

lemma part_lookup:
  assumes "part st n st' n'" "all_known n'" "lookup sha st d k n = Some a"
  shows "lookup sha st' d k n' = Some a"
  using assms
proof (induction st n st' n' arbitrary: d rule: part.induct)
  case (1 st c b st' n')
  then show ?case by (cases n') (auto split: if_splits)
next
  case (2 st c b l r st' c' b' l' r')
  then show ?case by (auto split: if_splits)
qed simp

section \<open>Both walks in step\<close>

text \<open>The results of two walks from a node and the node it is part of: the first asks for a proof, both
  give the same error, or both succeed and the results are in the same relation.\<close>

definition in_step where
  "in_step sha fs tx p rdy R N st R' N' st' res res' \<longleftrightarrow>
     res = Some (Inl ProofNeeded) \<and> \<not> rdy \<or>
     (\<exists>e. res = Some (Inl e) \<and> res' = Some (Inl e)) \<or>
     (\<exists>st1 n m st1' n' m'. res = Some (Inr (st1, n)) \<and> res' = Some (Inr (st1', n')) \<and>
        post sha fs tx p R N st st1 n m \<and> post sha fs tx p R' N' st' st1' n' m' \<and>
        all_known n' \<and> part st1 n st1' n')"

lemma in_step_trans:
  assumes "in_step sha fs tx p rdy R N st1 R' N' st1' res res'" "rdy1 \<Longrightarrow> rdy"
    and "frame {} st st1" "R \<subseteq> R1 \<union> {length st..<length st1}"
    and "frame {} st' st1'" "R' \<subseteq> R1' \<union> {length st'..<length st1'}"
  shows "in_step sha fs tx p rdy1 R1 N st R1' N' st' res res'"
proof -
  have "post sha fs tx p R1 N st st2 n m" if "post sha fs tx p R N st1 st2 n m" for st2 n m
    by (rule post_trans [OF that assms(3,4)])
  moreover have "post sha fs tx p R1' N' st' st2 n m" if "post sha fs tx p R' N' st1' st2 n m" for st2 n m
    by (rule post_trans [OF that assms(5,6)])
  ultimately show ?thesis using assms(1,2) unfolding in_step_def by (elim disjE) blast+
qed

text \<open>The two children of a cursor and of the node it is part of.\<close>

definition two_kids where
  "two_kids sha fs tx pre st c b l r st' c' b' l' r' \<longleftrightarrow>
     kids_ok sha fs tx st pre c b l r \<and> kids_ok sha fs tx st' pre c' b' l' r' \<and>
     all_known l' \<and> all_known r' \<and> part st l st' l' \<and> part st r st' r' \<and> label c = label c' \<and>
     inconsistent c = inconsistent c'"

lemma two_kids_child:
  fixes step :: bool
  assumes "two_kids sha fs tx pre st c b l r st' c' b' l' r'" "known (cell l)" "known (cell r)"
  defines "cu \<equiv> if step then r else l" and "cu' \<equiv> if step then r' else l'"
  shows "good sha fs st (pre @ [step]) cu" "known (cell cu)" "\<not> tx \<Longrightarrow> clean cu"
    "good sha fs st' (pre @ [step]) cu'" "known (cell cu')" "\<not> tx \<Longrightarrow> clean cu'" "all_known cu'" "part st cu st' cu'"
  using assms(1-3) by (auto simp: cu_def cu'_def two_kids_def kids_ok_def all_known_cell)

lemma two_kids_Inner:
  assumes "good sha fs st p (Inner c b l r)" "\<not> tx \<Longrightarrow> clean (Inner c b l r)"
    and "good sha fs st' p (Inner c' b' l' r')" "\<not> tx \<Longrightarrow> clean (Inner c' b' l' r')" "all_known (Inner c' b' l' r')"
    and "part st (Inner c b l r) st' (Inner c' b' l' r')"
  shows "two_kids sha fs tx p st c b l r st' c' b' l' r'"
  using assms kids_okI [of sha fs st p c b l r tx] kids_okI [of sha fs st' p c' b' l' r' tx]
  by (simp add: two_kids_def)

lemma two_kids_frame:
  assumes "two_kids sha fs tx pre st c b l r st' c' b' l' r'" "frame {} st st1" "frame {} st' st1'"
  shows "two_kids sha fs tx pre st1 c b l r st1' c' b' l' r'"
proof -
  have k: "kids_ok sha fs tx st pre c b l r" "kids_ok sha fs tx st' pre c' b' l' r'"
    "all_known l'" "all_known r'" "part st l st' l'" "part st r st' r'" "label c = label c'"
    "inconsistent c = inconsistent c'"
    using assms(1) by (auto simp: two_kids_def)
  have "part st1 l st1' l'" "part st1 r st1' r'"
    using part_both [OF k(5,3) _ assms(2) _ _ assms(3), of sha fs "pre @ [False]" "pre @ [False]"]
      part_both [OF k(6,4) _ assms(2) _ _ assms(3), of sha fs "pre @ [True]" "pre @ [True]"] k(1,2)
    by (auto simp: kids_ok_def)
  then show ?thesis
    using k kids_ok_frame(1) [OF assms(2) k(1)] kids_ok_frame(1) [OF assms(3) k(2)] by (simp add: two_kids_def)
qed

text \<open>The children after a walk in one of them.\<close>

lemma two_kids_rebuilt:
  assumes tk: "two_kids sha fs tx pre st c b l r st' c' b' l' r'" and kn: "known (cell l)" "known (cell r)"
    and p: "post sha fs tx (pre @ [step]) (set (refs (if step then r else l))) N st st1 ch m"
      "post sha fs tx (pre @ [step]) (set (refs (if step then r' else l'))) N' st' st1' ch' m'"
    and N: "N \<inter> (set (refs l) \<union> set (refs r)) = {}" "N' \<inter> (set (refs l') \<union> set (refs r')) = {}"
    and v: "part st1 ch st1' ch'" "all_known ch'"
  shows "two_kids sha fs tx pre st1 c b (kid_left step l ch) (kid_right step r ch)
      st1' c' b' (kid_left step l' ch') (kid_right step r' ch')"
    "known (cell (kid_left step l ch))" "known (cell (kid_right step r ch))"
proof -
  have kids: "kids_ok sha fs tx st pre c b l r" "kids_ok sha fs tx st' pre c' b' l' r'"
    "all_known l'" "all_known r'" "part st l st' l'" "part st r st' r'" "label c = label c'"
    "inconsistent c = inconsistent c'"
    using tk by (auto simp: two_kids_def)
  have kn': "known (cell l')" "known (cell r')" using kids(3,4) all_known_cell by auto
  note reb = rebuilt_kids [OF kids(1) kn p(1) N(1)] and reb' = rebuilt_kids [OF kids(2) kn' p(2) N(2)]
  define sib where "sib = (if step then l else r)"
  define sib' where "sib' = (if step then l' else r')"
  have "part st1 sib st1' sib'"
    by (rule part_both [where W = "set (refs (if step then r else l))" and W' = "set (refs (if step then r' else l'))"
          and p = "pre @ [\<not> step]" and p' = "pre @ [\<not> step]" and sha = sha and fs = fs and st = st and st' = st'])
      (use kids p in \<open>auto simp: sib_def sib'_def kids_ok_def post_def\<close>)
  then show "two_kids sha fs tx pre st1 c b (kid_left step l ch) (kid_right step r ch)
      st1' c' b' (kid_left step l' ch') (kid_right step r' ch')"
    using reb(1) reb'(1) kids v by (auto simp: two_kids_def kid_left_def kid_right_def sib_def sib'_def)
  show "known (cell (kid_left step l ch))" "known (cell (kid_right step r ch))" using reb by auto
qed

text \<open>From the child to the cursor: \<open>up\<close> and \<open>up'\<close> are what the climbing loop does with the two cursors.\<close>

lemma in_step_up:
  assumes step: "in_step sha fs tx (pre @ [step]) rdy (set (refs (if step then r else l))) N st
      (set (refs (if step then r' else l'))) N' st' res res'" and rdy: "rdyp \<Longrightarrow> rdy"
    and up: "\<And>st1 ch m st1' ch' m'.
      post sha fs tx (pre @ [step]) (set (refs (if step then r else l))) N st st1 ch m \<Longrightarrow>
      post sha fs tx (pre @ [step]) (set (refs (if step then r' else l'))) N' st' st1' ch' m' \<Longrightarrow>
      part st1 ch st1' ch' \<Longrightarrow> all_known ch' \<Longrightarrow>
      \<exists>st2 n m2 st2' n' m2'. up st1 (rebuild c b l r step ch) = Some (st2, n) \<and>
        up' st1' (rebuild c' b' l' r' step ch') = Some (st2', n') \<and>
        post sha fs tx pre (set (refs l) \<union> set (refs r)) N st st2 n m2 \<and>
        post sha fs tx pre (set (refs l') \<union> set (refs r')) N' st' st2' n' m2' \<and>
        all_known n' \<and> part st2 n st2' n'"
  shows "in_step sha fs tx pre rdyp (set (refs l) \<union> set (refs r)) N st (set (refs l') \<union> set (refs r')) N' st'
    (Option.bind res (\<lambda>res. case res of Inl e \<Rightarrow> Some (Inl e)
       | Inr (st1, ch) \<Rightarrow> do { s \<leftarrow> up st1 (rebuild c b l r step ch); Some (Inr s) }))
    (Option.bind res' (\<lambda>res. case res of Inl e \<Rightarrow> Some (Inl e)
       | Inr (st1, ch) \<Rightarrow> do { s \<leftarrow> up' st1 (rebuild c' b' l' r' step ch); Some (Inr s) }))"
proof -
  from step consider "res = Some (Inl ProofNeeded)" "\<not> rdy"
    | e where "res = Some (Inl e)" "res' = Some (Inl e)"
    | st1 ch m st1' ch' m' where "res = Some (Inr (st1, ch))" "res' = Some (Inr (st1', ch'))"
        "post sha fs tx (pre @ [step]) (set (refs (if step then r else l))) N st st1 ch m"
        "post sha fs tx (pre @ [step]) (set (refs (if step then r' else l'))) N' st' st1' ch' m'"
        "all_known ch'" "part st1 ch st1' ch'"
    unfolding in_step_def by blast
  then show ?thesis
  proof cases
    case 1
    with rdy show ?thesis by (auto simp: in_step_def)
  next
    case 2
    then show ?thesis by (auto simp: in_step_def)
  next
    case 3
    obtain st2 n m2 st2' n' m2' where
      "up st1 (rebuild c b l r step ch) = Some (st2, n)" "up' st1' (rebuild c' b' l' r' step ch') = Some (st2', n')"
      "post sha fs tx pre (set (refs l) \<union> set (refs r)) N st st2 n m2"
      "post sha fs tx pre (set (refs l') \<union> set (refs r')) N' st' st2' n' m2'"
      "all_known n'" "part st2 n st2' n'"
      using up [OF 3(3,4,6,5)] by blast
    with 3(1,2) show ?thesis unfolding in_step_def by auto
  qed
qed

text \<open>Outside a transaction the ancestors are recomputed, inside they are marked.\<close>

lemma update_part:
  assumes kids: "kids_ok sha fs False st pre c b L R" "kids_ok sha fs False st' pre c' b' L' R'"
    and kn: "known (cell L)" "known (cell R)" "all_known L'" "all_known R'"
    and v: "part st L st' L'" "part st R st' R'" "label c = label c'"
    and cl: "climb sha fs False st (Inner c b L R) = Some (st2, n)"
      "climb sha fs False st' (Inner c' b' L' R') = Some (st2', n')"
  shows "part st2 n st2' n' \<and> all_known n'"
proof -
  have k: "known (cell L')" "known (cell R')" "known c" "known c'" "key c = []" "\<not> inconsistent c" "b = None"
    "clean L" "clean R" "\<not> inconsistent c'"
    using kids kn all_known_cell by (auto simp: kids_ok_def)
  have vals: "read st (vals (cell L)) = read st' (vals (cell L'))" "read st (vals (cell R)) = read st' (vals (cell R'))"
    using part_vals v(1,2) kn(1,2) clean_imp k(8,9) by blast+
  have labs: "label (cell L) = label (cell L')" "label (cell R) = label (cell R')"
    using part_label v(1,2) by blast+
  obtain e vs where pv: "parent_values fs (read st (vals (cell L))) (read st (vals (cell R))) = Some (e, vs)"
    using cl(1) kn(1,2) k by (auto simp: climb_def update_def bind_eq_Some_conv)
  have g: "good sha fs st (pre @ [False]) L" "good sha fs st (pre @ [True]) R"
    "good sha fs st' (pre @ [False]) L'" "good sha fs st' (pre @ [True]) R'"
    using kids by (auto simp: kids_ok_def)
  have views: "part (st @ [vs]) L (st' @ [vs]) L'" "part (st @ [vs]) R (st' @ [vs]) R'"
    by (rule part_both [OF v(1) kn(3) g(1) _ _ g(3), of "{}" _ "{}"] part_both [OF v(2) kn(4) g(2) _ _ g(4), of "{}" _ "{}"]; simp)+
  define d where "d = c\<lparr>vals := length st\<rparr>"
  define d' where "d' = c'\<lparr>vals := length st'\<rparr>"
  have h: "generateHash sha (st @ [vs]) (Inner d b L R) = generateHash sha (st' @ [vs]) (Inner d' b' L' R')"
    by (simp add: generateHash_def d_def d'_def labs)
  define lab where "lab = (if e = None then generateHash sha (st @ [vs]) (Inner d b L R) else label c)"
  have "st2 = st @ [vs]" "n = Inner (d\<lparr>label := lab\<rparr>) b L R"
    using cl(1) kn(1,2) k pv
    by (cases e; simp add: climb_def update_def alloc_def d_def lab_def Let_def)+
  moreover have "st2' = st' @ [vs]" "n' = Inner (d'\<lparr>label := lab\<rparr>) b' L' R'"
    using cl(2) k pv [unfolded vals] h [symmetric] v(3)
    by (cases e; simp add: climb_def update_def alloc_def d'_def lab_def Let_def)+
  ultimately show ?thesis
    using views k kn(3,4) by (simp add: d_def d'_def)
qed

lemma climb_part:
  assumes tk: "two_kids sha fs tx pre st c b L R st' c' b' L' R'" and kn: "known (cell L)" "known (cell R)"
    and cl: "climb sha fs tx st (Inner c b L R) = Some (st2, n)"
      "climb sha fs tx st' (Inner c' b' L' R') = Some (st2', n')"
  shows "part st2 n st2' n' \<and> all_known n'"
proof (cases tx)
  case True
  with cl tk show ?thesis by (auto simp: climb_def mark_inconsistent_def two_kids_def kids_ok_def)
next
  case False
  have "kids_ok sha fs False st pre c b L R" "kids_ok sha fs False st' pre c' b' L' R'" "all_known L'" "all_known R'"
    "part st L st' L'" "part st R st' R'" "label c = label c'"
    using tk False by (auto simp: two_kids_def)
  from update_part [OF this(1,2) kn this(3-7)] cl False show ?thesis by simp
qed

lemma climb_in_step:
  assumes env: "hash_ok sha" "fields_ok fs"
    and tk: "two_kids sha fs tx pre st c b l r st' c' b' l' r'" and kn: "known (cell l)" "known (cell r)"
    and N: "N \<inter> (set (refs l) \<union> set (refs r)) = {}" "N' \<inter> (set (refs l') \<union> set (refs r')) = {}"
    and p: "post sha fs tx (pre @ [step]) (set (refs (if step then r else l))) N st st1 ch m"
      "post sha fs tx (pre @ [step]) (set (refs (if step then r' else l'))) N' st' st1' ch' m'"
    and v: "part st1 ch st1' ch'" "all_known ch'"
  shows "\<exists>st2 n m2 st2' n' m2'. climb sha fs tx st1 (rebuild c b l r step ch) = Some (st2, n) \<and>
    climb sha fs tx st1' (rebuild c' b' l' r' step ch') = Some (st2', n') \<and>
    post sha fs tx pre (set (refs l) \<union> set (refs r)) N st st2 n m2 \<and>
    post sha fs tx pre (set (refs l') \<union> set (refs r')) N' st' st2' n' m2' \<and>
    all_known n' \<and> part st2 n st2' n'"
proof -
  have kids: "kids_ok sha fs tx st pre c b l r" "kids_ok sha fs tx st' pre c' b' l' r'"
    "all_known l'" "all_known r'"
    using tk by (auto simp: two_kids_def)
  have kn': "known (cell l')" "known (cell r')" using kids(3,4) all_known_cell by auto
  obtain st2 c2 where 1: "climb sha fs tx st1 (rebuild c b l r step ch) = Some (st2, rebuild c2 b l r step ch)"
    "post sha fs tx pre (set (refs l) \<union> set (refs r)) N st st2 (rebuild c2 b l r step ch)
       (\<lambda>k. if path_of sha k ! length pre = step then m k else (contents st l ++ contents st r) k)"
    using climb_post [OF env kids(1) kn p(1) N(1)] by blast
  obtain st2' c2' where 2: "climb sha fs tx st1' (rebuild c' b' l' r' step ch') = Some (st2', rebuild c2' b' l' r' step ch')"
    "post sha fs tx pre (set (refs l') \<union> set (refs r')) N' st' st2' (rebuild c2' b' l' r' step ch')
       (\<lambda>k. if path_of sha k ! length pre = step then m' k else (contents st' l' ++ contents st' r') k)"
    using climb_post [OF env kids(2) kn' p(2) N(2)] by blast
  note reb = two_kids_rebuilt [OF tk kn p N v]
  have "part st2 (rebuild c2 b l r step ch) st2' (rebuild c2' b' l' r' step ch') \<and> all_known (rebuild c2' b' l' r' step ch')"
    by (rule climb_part [OF reb 1(1) [unfolded rebuild_kids] 2(1) [unfolded rebuild_kids], folded rebuild_kids])
  with 1 2 show ?thesis by blast
qed

lemma collapsible_part:
  "part st L st' L' \<Longrightarrow> part st R st' R' \<Longrightarrow> known (cell L) \<Longrightarrow> known (cell R) \<Longrightarrow>
     collapsible L R = collapsible L' R' \<and> node_placeholder L = node_placeholder L'"
proof -
  assume a: "part st L st' L'" "part st R st' R'" "known (cell L)" "known (cell R)"
  have key: "node_leaf n \<Longrightarrow> part st n st' n' \<Longrightarrow> known (cell n) \<Longrightarrow> key (cell n) = key (cell n')" for n n'
    by (cases n; cases n') auto
  have k: "node_leaf L \<Longrightarrow> key (cell L) = key (cell L')" "node_leaf R \<Longrightarrow> key (cell R) = key (cell R')"
    using key a by blast+
  have "node_leaf L = node_leaf L'" "node_leaf R = node_leaf R'" using part_leaf a by blast+
  with k show ?thesis by (auto simp: collapsible_def node_placeholder_def)
qed

text \<open>What the collapse makes of the cursor: the remaining leaf moves up, backed up or not.\<close>

lemma collapse_eq:
  assumes "collapse tx st (Inner c b L R) = (st2, n)"
  shows "frame {} st st2 \<and> (\<exists>b2. n = Leaf (let other = cell (if node_placeholder L then R else L) in
    c\<lparr>label := label other, key := key other, vals := vals other\<rparr>) b2)"
  using assms
  by (auto simp: collapse_def backup_if_def node_backup_def node_prune_def alloc_def Let_def
      split: if_split_asm option.split_asm)

lemma climb_remove_in_step:
  assumes env: "hash_ok sha" "fields_ok fs"
    and tk: "two_kids sha fs tx pre st c b l r st' c' b' l' r'" and kn: "known (cell l)" "known (cell r)"
    and p: "post sha fs tx (pre @ [step]) (set (refs (if step then r else l))) {} st st1 ch m"
      "post sha fs tx (pre @ [step]) (set (refs (if step then r' else l'))) {} st' st1' ch' m'"
    and v: "part st1 ch st1' ch'" "all_known ch'"
  shows "\<exists>st2 n m2 st2' n' m2'. climb_remove sha fs tx is_root st1 (rebuild c b l r step ch) = Some (st2, n) \<and>
    climb_remove sha fs tx is_root st1' (rebuild c' b' l' r' step ch') = Some (st2', n') \<and>
    post sha fs tx pre (set (refs l) \<union> set (refs r)) {} st st2 n m2 \<and>
    post sha fs tx pre (set (refs l') \<union> set (refs r')) {} st' st2' n' m2' \<and>
    all_known n' \<and> part st2 n st2' n'"
proof -
  let ?L = "kid_left step l ch" and ?R = "kid_right step r ch"
  let ?L' = "kid_left step l' ch'" and ?R' = "kid_right step r' ch'"
  have kids: "kids_ok sha fs tx st pre c b l r" "kids_ok sha fs tx st' pre c' b' l' r'"
    "all_known l'" "all_known r'"
    using tk by (auto simp: two_kids_def)
  have kn': "known (cell l')" "known (cell r')" using kids(3,4) all_known_cell by auto
  note reb = two_kids_rebuilt [OF tk kn p _ _ v, simplified]
  have t: "kids_ok sha fs tx st1 pre c b ?L ?R" "kids_ok sha fs tx st1' pre c' b' ?L' ?R'"
    "all_known ?L'" "all_known ?R'" "part st1 ?L st1' ?L'" "part st1 ?R st1' ?R'" "inconsistent c = inconsistent c'"
    using reb(1) by (auto simp: two_kids_def)
  note col = collapsible_part [OF t(5,6) reb(2,3)]
  show ?thesis
  proof (cases "\<not> is_root \<and> collapsible ?L ?R")
    case False
    with climb_in_step [OF env tk kn _ _ p v] col show ?thesis
      unfolding climb_remove_def rebuild_kids by auto
  next
    case True
    obtain st2 n where 1: "climb_remove sha fs tx is_root st1 (rebuild c b l r step ch) = Some (st2, n)"
      "\<exists>m2. post sha fs tx pre (set (refs l) \<union> set (refs r)) {} st st2 n m2"
      using climb_remove_post [OF env kids(1) kn p(1), of is_root] by blast
    obtain st2' n' where 2: "climb_remove sha fs tx is_root st1' (rebuild c' b' l' r' step ch') = Some (st2', n')"
      "\<exists>m2. post sha fs tx pre (set (refs l') \<union> set (refs r')) {} st' st2' n' m2"
      using climb_remove_post [OF env kids(2) kn' p(2), of is_root] by blast
    define o1 where "o1 = (if node_placeholder ?L then ?R else ?L)"
    define o2 where "o2 = (if node_placeholder ?L' then ?R' else ?L')"
    have o: "part st1 o1 st1' o2" "known (cell o1)" "node_leaf o1" "known (cell o2)" "node_leaf o2"
      using t(3-6) reb(2,3) col True all_known_cell
      by (auto simp: o1_def o2_def collapsible_def node_placeholder_def dest: part_leaf)
    have "separated st1 o1" "separated st1' o2"
      using t(1,2) by (auto simp: o1_def o2_def kids_ok_def good_def)
    with o have o_bound: "vals (cell o1) < length st1" "vals (cell o2) < length st1'"
      by (cases o1; cases o2; simp add: separated_def)+
    have n: "frame {} st1 st2" "\<exists>b2. n = Leaf (c\<lparr>label := label (cell o1), key := key (cell o1), vals := vals (cell o1)\<rparr>) b2"
      using collapse_eq [of tx st1 c b ?L ?R st2 n] 1(1) True by (auto simp: climb_remove_def rebuild_kids o1_def Let_def)
    have n': "frame {} st1' st2'" "\<exists>b2. n' = Leaf (c'\<lparr>label := label (cell o2), key := key (cell o2), vals := vals (cell o2)\<rparr>) b2"
      using collapse_eq [of tx st1' c' b' ?L' ?R' st2' n'] 2(1) True col by (auto simp: climb_remove_def rebuild_kids o2_def Let_def)
    have "part st2 n st2' n' \<and> all_known n'"
      using o o_bound kids(1,2) t(7) n n' frame_empty_read by (cases o1; cases o2) (auto simp: kids_ok_def)
    with 1 2 show ?thesis by blast
  qed
qed

section \<open>The end of a transaction\<close>

lemma confirm_part:
  "part st n st' n' \<Longrightarrow> tree_ok sha fs st pre n \<Longrightarrow> tree_ok sha fs st' pre n' \<Longrightarrow>
     part st (confirm_node n) st' (confirm_node n')"
proof (induction st n st' n' arbitrary: pre rule: part.induct)
  case (1 st c b st' n')
  then show ?case by auto
next
  case (2 st c b l r st' c' b' l' r')
  then show ?case by (cases "inconsistent c") auto
qed simp

text \<open>Fixing a marked node is one step up from its fixed children.\<close>

lemma fix_node_climb:
  assumes "inconsistent c" "known c" "fix_node sha fs st l = Some (st1, l')" "fix_node sha fs st1 r = Some (st2, r')"
    and "known (cell l')" "known (cell r')"
  shows "fix_node sha fs st (Inner c b l r) = climb sha fs False st2 (Inner (c\<lparr>inconsistent := False\<rparr>) b l' r')"
  using assms update_inconsistent [where x = False]
  by (cases "update sha fs st2 (Inner c b l' r')") (auto simp: climb_def)

lemma fixed_kids:
  assumes fs: "fields_ok fs" and g: "good sha fs st pre (Inner c b l r)" "no_backup (Inner c b l r)" "inconsistent c"
  obtains st1 l' st2 r' where "fix_node sha fs st l = Some (st1, l')" "fix_node sha fs st1 r = Some (st2, r')"
    "good sha fs st (pre @ [False]) l" "good sha fs st1 (pre @ [False]) l'" "clean l'" "frame {} st st1"
    "good sha fs st (pre @ [True]) r" "good sha fs st1 (pre @ [True]) r" "clean r'" "frame {} st1 st2"
    "kids_ok sha fs False st2 pre (c\<lparr>inconsistent := False\<rparr>) b l' r'" "known (cell l')" "known (cell r')"
    "all_known l' = all_known l" "all_known r' = all_known r"
    "fix_node sha fs st (Inner c b l r) = climb sha fs False st2 (Inner (c\<lparr>inconsistent := False\<rparr>) b l' r')"
proof -
  have i: "good sha fs st (pre @ [False]) l" "good sha fs st (pre @ [True]) r"
    "no_backup l" "no_backup r" "b = None" "known (cell l)" "known (cell r)"
    "known c" "key c = []" "length pre < 8 * sha_size" "set (refs l) \<inter> set (refs r) = {}"
    using g by (auto simp: good_def separated_Inner)
  obtain st1 l' where l': "fix_node sha fs st l = Some (st1, l')"
    "good sha fs st1 (pre @ [False]) l'" "clean l'" "frame {} st st1"
    "set (refs l') \<subseteq> set (refs l) \<union> {length st..<length st1}" "known (cell l')" "all_known l' = all_known l"
    using fix_node_good [OF fs i(1,3)] i(6) by auto
  note r1 = good_frame(1) [OF l'(4) i(2)]
  obtain st2 r' where r': "fix_node sha fs st1 r = Some (st2, r')"
    "good sha fs st2 (pre @ [True]) r'" "clean r'" "frame {} st1 st2"
    "set (refs r') \<subseteq> set (refs r) \<union> {length st1..<length st2}" "known (cell r')" "all_known r' = all_known r"
    using fix_node_good [OF fs r1 i(4)] i(7) by auto
  note l2 = good_frame(1) [OF r'(4) l'(2)]
  have "set (refs l') \<inter> set (refs r') = {}"
    using l'(5) r'(5) i(11) good_refs_bound [OF l'(2)] good_refs_bound [OF i(2)] by fastforce
  then have "kids_ok sha fs False st2 pre (c\<lparr>inconsistent := False\<rparr>) b l' r'"
    using l2 r' l' i by (simp add: kids_ok_def)
  from that [OF l'(1) r'(1) i(1) l'(2-4) i(2) r1 r'(3,4) this l'(6) r'(6) l'(7) r'(7)
      fix_node_climb [OF g(3) i(8) l'(1) r'(1) l'(6) r'(6)]] r1
  show ?thesis by simp
qed

lemma fix_node_part:
  assumes fs: "fields_ok fs"
  shows "part st n st' n' \<Longrightarrow> good sha fs st pre n \<Longrightarrow> no_backup n \<Longrightarrow>
    good sha fs st' pre n' \<Longrightarrow> no_backup n' \<Longrightarrow> all_known n' \<Longrightarrow>
    fix_node sha fs st n = Some (st1, n1) \<Longrightarrow> fix_node sha fs st' n' = Some (st1', n1') \<Longrightarrow> view st1 n1 st1' n1'"
proof (induction n arbitrary: n' st st' pre st1 n1 st1' n1' rule: tree_induct)
  case (Leaf c b)
  show ?case
  proof (cases "inconsistent c")
    case False
    with Leaf.prems have "n1 = Leaf c b" "st1 = st" "n1' = n'" "st1' = st'"
      by (cases n'; auto)+
    with Leaf.prems False show ?thesis by auto
  next
    case True
    with Leaf.prems(1) obtain c' b' where n': "n' = Leaf c' b'" "known c" "inconsistent c'"
      by (cases n') (auto split: if_splits)
    with True Leaf.prems show ?thesis by (auto simp: update_def generateHash_def)
  qed
next
  case (Inner c b l r)
  obtain c' b' l' r' where n': "n' = Inner c' b' l' r'"
    using Inner.prems(1) by (cases n') auto
  have p: "part st l st' l'" "part st r st' r'" "inconsistent c = inconsistent c'" "label c = label c'"
    "no_backup l" "no_backup r" "no_backup l'" "no_backup r'" "all_known l'" "all_known r'"
    using Inner.prems(1,3,5,6) n' by auto
  show ?case
  proof (cases "inconsistent c")
    case False
    with Inner.prems p n' have "n1 = Inner c b l r" "st1 = st" "n1' = n'" "st1' = st'" "clean (Inner c b l r)"
      by (auto simp: good_def)
    with Inner.prems(1) part_view show ?thesis by blast
  next
    case True
    obtain s1 L s2 R where f: "fix_node sha fs st l = Some (s1, L)" "fix_node sha fs s1 r = Some (s2, R)"
      "good sha fs st (pre @ [False]) l" "good sha fs s1 (pre @ [False]) L" "clean L" "frame {} st s1"
      "good sha fs st (pre @ [True]) r" "good sha fs s1 (pre @ [True]) r" "clean R" "frame {} s1 s2"
      "kids_ok sha fs False s2 pre (c\<lparr>inconsistent := False\<rparr>) b L R" "known (cell L)" "known (cell R)"
      "fix_node sha fs st (Inner c b l r) = climb sha fs False s2 (Inner (c\<lparr>inconsistent := False\<rparr>) b L R)"
      using fixed_kids [OF fs Inner.prems(2,3) True] by metis
    obtain s1' L' s2' R' where f': "fix_node sha fs st' l' = Some (s1', L')" "fix_node sha fs s1' r' = Some (s2', R')"
      "good sha fs st' (pre @ [False]) l'" "good sha fs s1' (pre @ [False]) L'" "clean L'" "frame {} st' s1'"
      "good sha fs st' (pre @ [True]) r'" "good sha fs s1' (pre @ [True]) r'" "clean R'" "frame {} s1' s2'"
      "kids_ok sha fs False s2' pre (c'\<lparr>inconsistent := False\<rparr>) b' L' R'"
      "all_known L' = all_known l'" "all_known R' = all_known r'"
      "fix_node sha fs st' n' = climb sha fs False s2' (Inner (c'\<lparr>inconsistent := False\<rparr>) b' L' R')"
      using fixed_kids [OF fs Inner.prems(4,5) [unfolded n']] True p(3) n' by metis
    have "view s1 L s1' L'" by (rule Inner.IH(1) [OF p(1) f(3) p(5) f'(3) p(7,9) f(1) f'(1)])
    from part_both [OF view_part [OF this f'(5)] _ f(4,10) _ f'(4,10)] have pl: "part s2 L s2' L'"
      using f'(12) p(9) by simp
    have "part s1 r s1' r'" using part_both [OF p(2,10) f(7,6) _ f'(7,6)] by simp
    from Inner.IH(2) [OF this f(8) p(6) f'(8) p(8,10) f(2) f'(2)] have pr: "part s2 R s2' R'"
      using view_part f'(9) by blast
    have "part st1 n1 st1' n1' \<and> all_known n1'"
      by (rule update_part [OF f(11) f'(11) f(12,13) _ _ pl pr])
        (use f'(12-14) p(4,9,10) Inner.prems(7,8) f(14) in simp_all)
    moreover have "clean n1" using fix_node_good [OF fs Inner.prems(2,3)] Inner.prems(7) by auto
    ultimately show ?thesis using part_view by blast
  qed
qed

end
