(* ===== verification/LightWrites.thy ===== *)
theory LightWrites
  imports PartViews
begin

text \<open>
  Writes on a collection that keeps only part of a full one, in a transaction and outside. A write either
  asks for a proof and changes nothing, or gives the answer the same write gives on the full collection,
  and the result is part of the result there. So outside a transaction both have the same Merkle root
  again. A write on a key whose proof has just been verified never asks for one.
\<close>

text \<open>A leaf after \<open>backup_if\<close>: only its backup may differ, and the store has grown.\<close>

lemma backup_Leaf:
  obtains st0 b0 where "backup_if tx st (Leaf c b) = (st0, Leaf c b0)" "frame {} st st0"
proof -
  obtain st0 n where bk: "backup_if tx st (Leaf c b) = (st0, n)" by fastforce
  obtain b0 where "n = Leaf c b0" using backup_if_Leaf [OF bk] by metis
  with bk backup_if_facts(3) [OF bk] that show ?thesis by simp
qed

section \<open>Set\<close>

lemma overwrite_leaf_in_step:
  assumes env: "fields_ok fs" and gs: "encodable fs gs" and k: "k \<noteq> []"
    and cu: "good sha fs st p cu" "known (cell cu)" "\<not> tx \<Longrightarrow> clean cu"
    and cu': "good sha fs st' p cu'" "known (cell cu')" "\<not> tx \<Longrightarrow> clean cu'" "all_known cu'"
    and v: "part st cu st' cu'" and leaf: "node_leaf cu" "key (cell cu) = k"
  shows "in_step sha fs tx p rdy (set (refs cu)) {} st (set (refs cu')) {} st'
    (do { s \<leftarrow> overwrite_leaf sha fs tx gs st cu; Some (Inr s) })
    (do { s \<leftarrow> overwrite_leaf sha fs tx gs st' cu'; Some (Inr s) })"
proof -
  obtain c b c' b' where l: "cu = Leaf c b" "cu' = Leaf c' b'" "key c = key c'" "label c = label c'" "known c"
    "inconsistent c = inconsistent c'" "read st (vals c) = read st' (vals c')"
    using part_leaves [OF v cu(2) leaf(1)] .
  have leaf': "node_leaf cu'" "key (cell cu') = k" using leaf l by auto
  have len: "length gs = length fs" using gs by (simp add: encodable_def list_all2_lengthD)
  have vlen: "length (read st (vals c)) = length fs"
    using known_values_ok [of sha fs st p cu] cu l by (auto simp: good_def values_ok_def dest: list_all2_lengthD)
  obtain ws where ws: "merged fs gs (read st (vals c)) = Some ws"
    using merged_total [OF gs vlen] by blast
  have w: "merged fs gs (read st (vals (cell cu))) = Some ws" "merged fs gs (read st' (vals (cell cu'))) = Some ws"
    using ws l by auto
  obtain st1 n where 1: "overwrite_leaf sha fs tx gs st cu = Some (st1, n)"
    "post sha fs tx p (set (refs cu)) {} st st1 n [k \<mapsto> ws]"
    by (rule overwrite_leaf_post [where tx = tx, OF env cu leaf k len w(1)])
  obtain st1' n' where 2: "overwrite_leaf sha fs tx gs st' cu' = Some (st1', n')"
    "post sha fs tx p (set (refs cu')) {} st' st1' n' [k \<mapsto> ws]"
    by (rule overwrite_leaf_post [where tx = tx, OF env cu'(1-3) leaf' k len w(2)])
  have bound: "vals c < length st" "vals c' < length st'"
    using cu cu'(1,2) l by (auto simp: good_def separated_def)
  have sv: "set_values fs gs (read st (vals c)) = Some ws" using set_values_merged [OF vlen len] ws by simp
  obtain st0 b0 where b0: "backup_if tx st (Leaf c b) = (st0, Leaf c b0)" "frame {} st st0" using backup_Leaf .
  obtain st0' b0' where b0': "backup_if tx st' (Leaf c' b') = (st0', Leaf c' b0')" "frame {} st' st0'" using backup_Leaf .
  have rd: "read st0 (vals c) = read st (vals c)" "read st0' (vals c') = read st' (vals c')"
    "vals c < length st0" "vals c' < length st0'"
    using frame_empty_read [OF b0(2) bound(1)] frame_empty_read [OF b0'(2) bound(2)]
      frame_length [OF b0(2)] frame_length [OF b0'(2)] bound by auto
  have "st1 = st0[vals c := ws]" "n = Leaf (c\<lparr>label := generateHash sha (st0[vals c := ws]) (Leaf c b0)\<rparr>) b0"
    using 1(1) l sv rd by (auto simp: overwrite_leaf_def b0(1) update_def Let_def)
  moreover have "st1' = st0'[vals c' := ws]"
    "n' = Leaf (c'\<lparr>label := generateHash sha (st0'[vals c' := ws]) (Leaf c' b0')\<rparr>) b0'"
    using 2(1) l sv rd cu'(2) by (auto simp: overwrite_leaf_def b0'(1) update_def Let_def)
  ultimately have "part st1 n st1' n' \<and> all_known n'"
    using l rd cu'(2) by (simp add: generateHash_def)
  with 1 2 show ?thesis unfolding in_step_def by auto
qed

lemma set_at_in_step:
  assumes env: "hash_ok sha" "fields_ok fs" and gs: "encodable fs gs" and k: "k \<noteq> []"
  shows "two_kids sha fs tx pre st c b l r st' c' b' l' r' \<Longrightarrow>
    in_step sha fs tx pre (ready (path_of sha k) (length pre) (Inner c b l r))
      (set (refs l) \<union> set (refs r)) {} st (set (refs l') \<union> set (refs r')) {} st'
      (set_at sha fs tx (sha k) k gs (length pre) st (Inner c b l r))
      (set_at sha fs tx (sha k) k gs (length pre) st' (Inner c' b' l' r'))"
proof (induction "8 * sha_size - length pre" arbitrary: pre c b l r c' b' l' r' rule: less_induct)
  case less
  note tk = less.prems
  have len: "length pre < 8 * sha_size" using tk by (simp add: two_kids_def kids_ok_def)
  define step where "step = path_of sha k ! length pre"
  define cu where "cu = (if step then r else l)"
  define cu' where "cu' = (if step then r' else l')"
  have bit: "bit_at (sha k) (length pre) = Some step"
    using bit_at_path [OF env(1) len] by (simp add: step_def)
  show ?case
  proof (cases "known (cell l) \<and> known (cell r)")
    case False
    then show ?thesis by (auto simp: set_at.simps(2) in_step_def)
  next
    case True
    then have kn: "known (cell l)" "known (cell r)" "known (cell l')" "known (cell r')"
      using tk all_known_cell by (auto simp: two_kids_def)
    note ch = two_kids_child [OF tk kn(1,2), where step = step, folded cu_def cu'_def]
    have lf: "node_leaf cu = node_leaf cu'" using part_leaf ch by blast
    define res where "res = (\<lambda>st cu. if node_leaf cu
                then (if \<not> bytes_equal (key (cell cu)) k then Some (Inl KeyNotFound)
                      else do { s \<leftarrow> overwrite_leaf sha fs tx gs st cu; Some (Inr s) })
                else set_at sha fs tx (sha k) k gs (length pre + 1) st cu)"
    have walk: "set_at sha fs tx (sha k) k gs (length pre) st (Inner c b l r) =
        Option.bind (res st cu) (\<lambda>res. case res of Inl e \<Rightarrow> Some (Inl e)
          | Inr (st1, ch) \<Rightarrow> do { s \<leftarrow> climb sha fs tx st1 (rebuild c b l r step ch); Some (Inr s) })"
      if "known (cell l)" "known (cell r)" "cu = (if step then r else l)" for st c b l r cu
      unfolding set_at_Inner bit res_def Let_def that(3) using that(1,2) by simp
    have "in_step sha fs tx (pre @ [step]) (ready (path_of sha k) (length pre + 1) cu)
        (set (refs cu)) {} st (set (refs cu')) {} st' (res st cu) (res st' cu')"
    proof (cases "node_leaf cu")
      case True
      have keys: "key (cell cu) = key (cell cu')"
        using part_leaves [OF ch(8,2) True] by (metis node.sel(1))
      show ?thesis
      proof (cases "key (cell cu) = k")
        case False
        with True lf keys show ?thesis by (simp add: in_step_def res_def)
      next
        case eq: True
        with overwrite_leaf_in_step [OF env(2) gs k ch(1-8) True eq] True lf keys show ?thesis by (simp add: res_def)
      qed
    next
      case False
      then obtain c2 b2 l2 r2 c2' b2' l2' r2' where cs: "cu = Inner c2 b2 l2 r2" "cu' = Inner c2' b2' l2' r2'"
        using lf by (cases cu; cases cu') auto
      have "in_step sha fs tx (pre @ [step]) (ready (path_of sha k) (length (pre @ [step])) (Inner c2 b2 l2 r2))
          (set (refs l2) \<union> set (refs r2)) {} st (set (refs l2') \<union> set (refs r2')) {} st'
          (set_at sha fs tx (sha k) k gs (length (pre @ [step])) st (Inner c2 b2 l2 r2))
          (set_at sha fs tx (sha k) k gs (length (pre @ [step])) st' (Inner c2' b2' l2' r2'))"
        by (rule less.hyps) (use len two_kids_Inner ch cs in auto)
      from in_step_trans [OF this _ frame_refl _ frame_refl, of _ "set (refs cu)" "set (refs cu')"] cs
      show ?thesis by (auto simp: res_def)
    qed
    from in_step_up [OF this [unfolded cu_def cu'_def], folded cu_def cu'_def,
        where rdyp = "ready (path_of sha k) (length pre) (Inner c b l r)" and c = c and b = b and c' = c' and b' = b'
          and up = "climb sha fs tx" and up' = "climb sha fs tx",
        OF _ climb_in_step [OF env tk kn(1,2) Int_empty_left Int_empty_left]]
    show ?thesis
      unfolding walk [OF kn(1,2) cu_def] walk [OF kn(3,4) cu'_def] by (simp add: cu_def cu'_def step_def)
  qed
qed

section \<open>Remove\<close>

lemma clear_leaf_in_step:
  assumes env: "fields_ok fs"
    and cu: "good sha fs st p cu" "known (cell cu)" "\<not> tx \<Longrightarrow> clean cu"
    and cu': "good sha fs st' p cu'" "known (cell cu')" "\<not> tx \<Longrightarrow> clean cu'" "all_known cu'"
    and v: "part st cu st' cu'" and leaf: "node_leaf cu"
  shows "in_step sha fs tx p rdy (set (refs cu)) {} st (set (refs cu')) {} st'
    (clear_leaf sha fs tx st cu) (clear_leaf sha fs tx st' cu')"
proof -
  obtain c b c' b' where l: "cu = Leaf c b" "cu' = Leaf c' b'" "known c" "inconsistent c = inconsistent c'"
    using part_leaves [OF v cu(2) leaf] by metis
  have leaf': "node_leaf cu'" using l by simp
  obtain st1 n where 1: "clear_leaf sha fs tx st cu = Some (Inr (st1, n))"
    "post sha fs tx p (set (refs cu)) {} st st1 n Map.empty"
    by (rule clear_leaf_post [where tx = tx, OF env cu leaf])
  obtain st1' n' where 2: "clear_leaf sha fs tx st' cu' = Some (Inr (st1', n'))"
    "post sha fs tx p (set (refs cu')) {} st' st1' n' Map.empty"
    by (rule clear_leaf_post [where tx = tx, OF env cu'(1-3) leaf'])
  obtain st0 b0 where b0: "backup_if tx st (Leaf c b) = (st0, Leaf c b0)" using backup_Leaf by metis
  obtain st0' b0' where b0': "backup_if tx st' (Leaf c' b') = (st0', Leaf c' b0')" using backup_Leaf by metis
  have "part st1 n st1' n' \<and> all_known n'"
    using 1(1) 2(1) l by (auto simp: clear_leaf_def b0 b0' setPlaceholder_eq)
  with 1 2 show ?thesis unfolding in_step_def by auto
qed

lemma remove_at_in_step:
  assumes env: "hash_ok sha" "fields_ok fs"
  shows "two_kids sha fs tx pre st c b l r st' c' b' l' r' \<Longrightarrow>
    in_step sha fs tx pre (ready (path_of sha k) (length pre) (Inner c b l r))
      (set (refs l) \<union> set (refs r)) {} st (set (refs l') \<union> set (refs r')) {} st'
      (remove_at sha fs tx (sha k) k is_root (length pre) st (Inner c b l r))
      (remove_at sha fs tx (sha k) k is_root (length pre) st' (Inner c' b' l' r'))"
proof (induction "8 * sha_size - length pre" arbitrary: pre c b l r c' b' l' r' is_root rule: less_induct)
  case less
  note tk = less.prems
  have len: "length pre < 8 * sha_size" using tk by (simp add: two_kids_def kids_ok_def)
  define step where "step = path_of sha k ! length pre"
  define cu where "cu = (if step then r else l)"
  define cu' where "cu' = (if step then r' else l')"
  have bit: "bit_at (sha k) (length pre) = Some step"
    using bit_at_path [OF env(1) len] by (simp add: step_def)
  show ?case
  proof (cases "known (cell l) \<and> known (cell r)")
    case False
    then show ?thesis by (auto simp: remove_at.simps(2) in_step_def)
  next
    case True
    then have kn: "known (cell l)" "known (cell r)" "known (cell l')" "known (cell r')"
      using tk all_known_cell by (auto simp: two_kids_def)
    note ch = two_kids_child [OF tk kn(1,2), where step = step, folded cu_def cu'_def]
    have lf: "node_leaf cu = node_leaf cu'" using part_leaf ch by blast
    define res where "res = (\<lambda>st cu. if node_leaf cu
                then (if \<not> bytes_equal (key (cell cu)) k then Some (Inl KeyNotFound)
                      else clear_leaf sha fs tx st cu)
                else remove_at sha fs tx (sha k) k False (length pre + 1) st cu)"
    have walk: "remove_at sha fs tx (sha k) k is_root (length pre) st (Inner c b l r) =
        Option.bind (res st cu) (\<lambda>res. case res of Inl e \<Rightarrow> Some (Inl e)
          | Inr (st1, ch) \<Rightarrow>
              do { s \<leftarrow> climb_remove sha fs tx is_root st1 (rebuild c b l r step ch); Some (Inr s) })"
      if "known (cell l)" "known (cell r)" "cu = (if step then r else l)" for st c b l r cu
      unfolding remove_at_Inner bit res_def Let_def that(3) using that(1,2) by simp
    have "in_step sha fs tx (pre @ [step]) (ready (path_of sha k) (length pre + 1) cu)
        (set (refs cu)) {} st (set (refs cu')) {} st' (res st cu) (res st' cu')"
    proof (cases "node_leaf cu")
      case True
      have keys: "key (cell cu) = key (cell cu')"
        using part_leaves [OF ch(8,2) True] by (metis node.sel(1))
      show ?thesis
      proof (cases "key (cell cu) = k")
        case False
        with True lf keys show ?thesis by (simp add: in_step_def res_def)
      next
        case eq: True
        with clear_leaf_in_step [OF env(2) ch(1-8) True] True lf keys show ?thesis by (simp add: res_def)
      qed
    next
      case False
      then obtain c2 b2 l2 r2 c2' b2' l2' r2' where cs: "cu = Inner c2 b2 l2 r2" "cu' = Inner c2' b2' l2' r2'"
        using lf by (cases cu; cases cu') auto
      have "in_step sha fs tx (pre @ [step]) (ready (path_of sha k) (length (pre @ [step])) (Inner c2 b2 l2 r2))
          (set (refs l2) \<union> set (refs r2)) {} st (set (refs l2') \<union> set (refs r2')) {} st'
          (remove_at sha fs tx (sha k) k False (length (pre @ [step])) st (Inner c2 b2 l2 r2))
          (remove_at sha fs tx (sha k) k False (length (pre @ [step])) st' (Inner c2' b2' l2' r2'))"
        by (rule less.hyps) (use len two_kids_Inner ch cs in auto)
      from in_step_trans [OF this _ frame_refl _ frame_refl, of _ "set (refs cu)" "set (refs cu')"] cs
      show ?thesis by (auto simp: res_def)
    qed
    from in_step_up [OF this [unfolded cu_def cu'_def], folded cu_def cu'_def,
        where rdyp = "ready (path_of sha k) (length pre) (Inner c b l r)" and c = c and b = b and c' = c' and b' = b'
          and up = "climb_remove sha fs tx is_root" and up' = "climb_remove sha fs tx is_root",
        OF _ climb_remove_in_step [OF env tk kn(1,2)]]
    show ?thesis
      unfolding walk [OF kn(1,2) cu_def] walk [OF kn(3,4) cu'_def] by (simp add: cu_def cu'_def step_def)
  qed
qed

section \<open>Add\<close>

lemma put_leaf_in_step:
  assumes cu: "good sha fs st p cu" "known (cell cu)" "\<not> tx \<Longrightarrow> clean cu"
    and cu': "good sha fs st' p cu'" "known (cell cu')" "\<not> tx \<Longrightarrow> clean cu'" "all_known cu'"
    and v: "part st cu st' cu'" and ph: "node_placeholder cu"
    and rv: "rv < length st" "rv \<notin> set (refs cu)" "rv' < length st'" "rv' \<notin> set (refs cu')"
      "read st rv = read st' rv'" "values_ok fs (read st rv)"
    and k: "on_path sha p k" "k \<noteq> []"
  shows "in_step sha fs tx p rdy (set (refs cu)) {rv} st (set (refs cu')) {rv'} st'
    (do { s \<leftarrow> put_leaf sha fs tx k rv st cu; Some (Inr s) })
    (do { s \<leftarrow> put_leaf sha fs tx k rv' st' cu'; Some (Inr s) })"
proof -
  have leaf: "node_leaf cu" using ph by (simp add: node_placeholder_def)
  obtain c b c' b' where l: "cu = Leaf c b" "cu' = Leaf c' b'" "key c = key c'" "known c" "inconsistent c = inconsistent c'"
    using part_leaves [OF v cu(2) leaf] by metis
  have ph': "node_placeholder cu'" using ph l by (simp add: node_placeholder_def)
  obtain st1 n where 1: "put_leaf sha fs tx k rv st cu = Some (st1, n)"
    "post sha fs tx p (set (refs cu)) {rv} st st1 n [k \<mapsto> read st rv]"
    by (rule put_leaf_post [where tx = tx, OF cu ph rv(1,2,6) k])
  have rv': "values_ok fs (read st' rv')" using rv(5,6) by simp
  obtain st1' n' where 2: "put_leaf sha fs tx k rv' st' cu' = Some (st1', n')"
    "post sha fs tx p (set (refs cu')) {rv'} st' st1' n' [k \<mapsto> read st' rv']"
    by (rule put_leaf_post [where tx = tx, OF cu'(1-3) ph' rv(3,4) rv' k])
  obtain st0 b0 where b0: "backup_if tx st (Leaf c b) = (st0, Leaf c b0)" "frame {} st st0" using backup_Leaf .
  obtain st0' b0' where b0': "backup_if tx st' (Leaf c' b') = (st0', Leaf c' b0')" "frame {} st' st0'" using backup_Leaf .
  have "read st0 rv = read st0' rv'"
    using frame_empty_read [OF b0(2) rv(1)] frame_empty_read [OF b0'(2) rv(3)] rv(5) by simp
  then have "part st1 n st1' n' \<and> all_known n'"
    using 1(1) 2(1) l cu'(2) by (auto simp: put_leaf_def b0(1) b0'(1) update_def generateHash_def)
  with 1 2 show ?thesis unfolding in_step_def by auto
qed

lemma split_leaf_two_kids:
  assumes env: "hash_ok sha" "fields_ok fs"
    and cu: "good sha fs st p (Leaf c b)" "known c" "\<not> tx \<Longrightarrow> clean (Leaf c b)"
    and cu': "good sha fs st' p (Leaf c' b')" "known c'" "\<not> tx \<Longrightarrow> clean (Leaf c' b')"
    and v: "part st (Leaf c b) st' (Leaf c' b')" and key: "key c \<noteq> []" and len: "length p < 8 * sha_size"
  obtains st1 c1 b1 l1 r1 st1' c1' b1' l1' r1' where
    "split_leaf sha fs tx (length p) st (Leaf c b) = Some (Inr (st1, Inner c1 b1 l1 r1))"
    "split_leaf sha fs tx (length p) st' (Leaf c' b') = Some (Inr (st1', Inner c1' b1' l1' r1'))"
    "two_kids sha fs tx p st1 c1 b1 l1 r1 st1' c1' b1' l1' r1'"
    "frame {} st st1" "frame {} st' st1'"
    "set (refs l1) \<union> set (refs r1) \<subseteq> set (refs (Leaf c b)) \<union> {length st..<length st1}"
    "set (refs l1') \<union> set (refs r1') \<subseteq> set (refs (Leaf c' b')) \<union> {length st'..<length st1'}"
    "contents st1' l1' ++ contents st1' r1' = contents st' (Leaf c' b')"
    "ready (path_of sha k) (length p) (Inner c1 b1 l1 r1)"
proof -
  have k': "key c' \<noteq> []" "key c' = key c" "label c' = label c" "read st (vals c) = read st' (vals c')"
    "inconsistent c' = inconsistent c"
    using v key cu(2) by auto
  have bd: "vals c < length st" "vals c' < length st'" using cu cu' by (auto simp: good_def separated_def)
  obtain st1 c1 b1 l1 r1 where 1: "split_leaf sha fs tx (length p) st (Leaf c b) = Some (Inr (st1, Inner c1 b1 l1 r1))"
    "kids_ok sha fs tx st1 p c1 b1 l1 r1" "frame {} st st1"
    "set (refs l1) \<union> set (refs r1) \<subseteq> set (refs (Leaf c b)) \<union> {length st..<length st1}"
    "known (cell l1)" "known (cell r1)" "node_leaf l1" "node_leaf r1"
    by (rule split_leaf_ok [where tx = tx, OF env cu key len])
  obtain st1' c1' b1' l1' r1' where 2:
    "split_leaf sha fs tx (length p) st' (Leaf c' b') = Some (Inr (st1', Inner c1' b1' l1' r1'))"
    "kids_ok sha fs tx st1' p c1' b1' l1' r1'" "frame {} st' st1'"
    "set (refs l1') \<union> set (refs r1') \<subseteq> set (refs (Leaf c' b')) \<union> {length st'..<length st1'}"
    "contents st1' l1' ++ contents st1' r1' = contents st' (Leaf c' b')"
    "known (cell l1')" "known (cell r1')" "node_leaf l1'" "node_leaf r1'"
    by (rule split_leaf_ok [where tx = tx, OF env cu' k'(1) len])
  have leaf: "node_leaf n \<Longrightarrow> known (cell n) \<Longrightarrow> all_known n" for n by (cases n) auto
  have ak: "all_known l1'" "all_known r1'" using leaf 2(6-9) by blast+
  have rdy: "ready (path_of sha k) (length p) (Inner c1 b1 l1 r1)"
    using 1(5-8) by (cases l1; cases r1) auto
  obtain st0 b0 where b0: "backup_if tx st (Leaf c b) = (st0, Leaf c b0)" "frame {} st st0" using backup_Leaf .
  obtain st0' b0' where b0': "backup_if tx st' (Leaf c' b') = (st0', Leaf c' b0')" "frame {} st' st0'" using backup_Leaf .
  have rd: "read st0 (vals c) = read st' (vals c')" "read st0' (vals c') = read st' (vals c')"
    "vals c < length st0" "vals c' < length st0'"
    using frame_empty_read [OF b0(2) bd(1)] frame_empty_read [OF b0'(2) bd(2)] k'(4)
      frame_length [OF b0(2)] frame_length [OF b0'(2)] bd by auto
  have "label c1 = label c1' \<and> inconsistent c1 = inconsistent c1' \<and> part st1 l1 st1' l1' \<and> part st1 r1 st1' r1'"
    using 1(1) 2(1) k' rd bit_at_path [OF env(1) len, of "key c"]
    by (auto simp: split_leaf_def b0(1) b0'(1) setPlaceholder_eq node_branch_def new_node_def split: if_splits)
  with 1(2) 2(2) ak have "two_kids sha fs tx p st1 c1 b1 l1 r1 st1' c1' b1' l1' r1'"
    by (simp add: two_kids_def)
  from that [OF 1(1) 2(1) this 1(3) 2(3) 1(4) 2(4,5) rdy] show ?thesis .
qed

lemma add_at_in_step:
  assumes env: "hash_ok sha" "fields_ok fs" and k: "k \<noteq> []"
  shows "two_kids sha fs tx pre st c b l r st' c' b' l' r' \<Longrightarrow>
    rv < length st \<Longrightarrow> rv \<notin> set (refs l) \<union> set (refs r) \<Longrightarrow>
    rv' < length st' \<Longrightarrow> rv' \<notin> set (refs l') \<union> set (refs r') \<Longrightarrow>
    read st rv = read st' rv' \<Longrightarrow> values_ok fs (read st rv) \<Longrightarrow> on_path sha pre k \<Longrightarrow>
    (\<And>k'. (contents st' l' ++ contents st' r') k' \<noteq> None \<Longrightarrow> sha k' = sha k \<Longrightarrow> k' = k) \<Longrightarrow>
    in_step sha fs tx pre (ready (path_of sha k) (length pre) (Inner c b l r))
      (set (refs l) \<union> set (refs r)) {rv} st (set (refs l') \<union> set (refs r')) {rv'} st'
      (add_at sha fs tx (sha k) k rv (length pre) st (Inner c b l r))
      (add_at sha fs tx (sha k) k rv' (length pre) st' (Inner c' b' l' r'))"
proof (induction "8 * sha_size - length pre" arbitrary: pre st st' c b l r c' b' l' r' rule: less_induct)
  case less
  note tk = less.prems(1) and rv = less.prems(2-7)
  have len: "length pre < 8 * sha_size" using tk by (simp add: two_kids_def kids_ok_def)
  define step where "step = path_of sha k ! length pre"
  define cu where "cu = (if step then r else l)"
  define cu' where "cu' = (if step then r' else l')"
  define p where "p = pre @ [step]"
  have bit: "bit_at (sha k) (length pre) = Some step"
    using bit_at_path [OF env(1) len] by (simp add: step_def)
  show ?case
  proof (cases "known (cell l) \<and> known (cell r)")
    case False
    then show ?thesis by (auto simp: add_at.simps(2) in_step_def)
  next
    case True
    then have kn: "known (cell l)" "known (cell r)" "known (cell l')" "known (cell r')"
      using tk all_known_cell by (auto simp: two_kids_def)
    note ch = two_kids_child [OF tk kn(1,2), where step = step, folded cu_def cu'_def p_def]
    have lf: "node_leaf cu = node_leaf cu'" using part_leaf ch by blast
    have onp: "on_path sha p k"
      using less.prems(8) env(1) len by (simp add: p_def on_path_snoc step_def)
    have rvc: "rv \<notin> set (refs cu)" "rv' \<notin> set (refs cu')" using rv by (auto simp: cu_def cu'_def)
    have kids': "kids_ok sha fs tx st' pre c' b' l' r'" using tk by (simp add: two_kids_def)
    have nocoll: "contents st' cu' k' \<noteq> None \<Longrightarrow> sha k' = sha k \<Longrightarrow> k' = k" for k'
      using less.prems(9) [of k'] kids_contents_at [OF env(1) kids', of k']
      by (auto simp: cu'_def step_def path_of_def split: if_splits)
    define res where "res = (\<lambda>rv st cu. if node_placeholder cu
                then do { s \<leftarrow> put_leaf sha fs tx k rv st cu; Some (Inr s) }
                else if node_leaf cu
                then (if bytes_equal k (key (cell cu)) then Some (Inl KeyCollision)
                      else (case split_leaf sha fs tx (length pre + 1) st cu of
                          None \<Rightarrow> None
                        | Some (Inl e) \<Rightarrow> Some (Inl e)
                        | Some (Inr (st1, cursor1)) \<Rightarrow>
                            add_at sha fs tx (sha k) k rv (length pre + 1) st1 cursor1))
                else add_at sha fs tx (sha k) k rv (length pre + 1) st cu)"
    have walk: "add_at sha fs tx (sha k) k rv (length pre) st (Inner c b l r) =
        Option.bind (res rv st cu) (\<lambda>res. case res of Inl e \<Rightarrow> Some (Inl e)
          | Inr (st1, ch) \<Rightarrow> do { s \<leftarrow> climb sha fs tx st1 (rebuild c b l r step ch); Some (Inr s) })"
      if "known (cell l)" "known (cell r)" "cu = (if step then r else l)" for st c b l r cu rv
      unfolding add_at.simps(2) bit res_def Let_def that(3) using that(1,2) by simp
    have "in_step sha fs tx p (ready (path_of sha k) (length p) cu)
        (set (refs cu)) {rv} st (set (refs cu')) {rv'} st' (res rv st cu) (res rv' st' cu')"
    proof (cases "node_leaf cu")
      case leaf: True
      obtain c2 b2 c2' b2' where l2: "cu = Leaf c2 b2" "cu' = Leaf c2' b2'" "key c2 = key c2'" "known c2"
        using part_leaves [OF ch(8,2) leaf] by metis
      show ?thesis
      proof (cases "node_placeholder cu")
        case True
        moreover from this have "node_placeholder cu'" using l2 by (simp add: node_placeholder_def)
        ultimately show ?thesis
          using put_leaf_in_step [OF ch(1-8) True rv(1) rvc(1) rv(3) rvc(2) rv(5,6) onp k] by (simp add: res_def)
      next
        case ph: False
        then have ph': "\<not> node_placeholder cu'" and key: "key c2 \<noteq> []" using l2 by (auto simp: node_placeholder_def)
        show ?thesis
        proof (cases "k = key c2")
          case True
          with leaf lf l2 ph ph' show ?thesis by (simp add: res_def in_step_def)
        next
          case False
          have "on_path sha p (key c2)" using ch(1) l2 key by (simp add: good_def)
          moreover have "contents st' cu' (key c2) \<noteq> None" using l2 key ch(5) by simp
          ultimately have plen: "length p < 8 * sha_size"
            using on_path_full [OF env(1) onp] nocoll [of "key c2"] False by (metis not_less)
          have kc: "known c2'" using ch(5) l2 by simp
          obtain st1 c1 b1 l1 r1 st1' c1' b1' l1' r1' where sp:
            "split_leaf sha fs tx (length p) st cu = Some (Inr (st1, Inner c1 b1 l1 r1))"
            "split_leaf sha fs tx (length p) st' cu' = Some (Inr (st1', Inner c1' b1' l1' r1'))"
            "two_kids sha fs tx p st1 c1 b1 l1 r1 st1' c1' b1' l1' r1'"
            "frame {} st st1" "frame {} st' st1'"
            "set (refs l1) \<union> set (refs r1) \<subseteq> set (refs cu) \<union> {length st..<length st1}"
            "set (refs l1') \<union> set (refs r1') \<subseteq> set (refs cu') \<union> {length st'..<length st1'}"
            "contents st1' l1' ++ contents st1' r1' = contents st' cu'"
            "ready (path_of sha k) (length p) (Inner c1 b1 l1 r1)"
            by (rule split_leaf_two_kids [OF env ch(1) [unfolded l2(1)] l2(4) ch(3) [unfolded l2(1)] ch(4) [unfolded l2(2)]
                kc ch(6) [unfolded l2(2)] ch(8) [unfolded l2(1,2)] key plen, where k = k, folded l2(1,2)])
          have rd: "read st1 rv = read st rv" "rv < length st1" "read st1' rv' = read st' rv'" "rv' < length st1'"
            using sp(4,5) rv by (auto simp: frame_def)
          have fresh: "rv \<notin> set (refs l1) \<union> set (refs r1)" "rv' \<notin> set (refs l1') \<union> set (refs r1')"
            using sp(6,7) rvc rv(1,3) by auto
          have "in_step sha fs tx p (ready (path_of sha k) (length p) (Inner c1 b1 l1 r1))
              (set (refs l1) \<union> set (refs r1)) {rv} st1 (set (refs l1') \<union> set (refs r1')) {rv'} st1'
              (add_at sha fs tx (sha k) k rv (length p) st1 (Inner c1 b1 l1 r1))
              (add_at sha fs tx (sha k) k rv' (length p) st1' (Inner c1' b1' l1' r1'))"
            using sp(3,8) rd fresh rv onp nocoll len by (intro less.hyps) (auto simp: p_def)
          from in_step_trans [OF this sp(9) sp(4,6,5,7)] sp(1,2) leaf lf l2 ph ph' False
          show ?thesis by (simp add: res_def p_def)
        qed
      qed
    next
      case False
      then obtain c2 b2 l2 r2 c2' b2' l2' r2' where cs: "cu = Inner c2 b2 l2 r2" "cu' = Inner c2' b2' l2' r2'"
        using lf by (cases cu; cases cu') auto
      have "in_step sha fs tx p (ready (path_of sha k) (length p) (Inner c2 b2 l2 r2))
          (set (refs l2) \<union> set (refs r2)) {rv} st (set (refs l2') \<union> set (refs r2')) {rv'} st'
          (add_at sha fs tx (sha k) k rv (length p) st (Inner c2 b2 l2 r2))
          (add_at sha fs tx (sha k) k rv' (length p) st' (Inner c2' b2' l2' r2'))"
        using len two_kids_Inner ch cs rv rvc onp nocoll by (intro less.hyps) (auto simp: p_def)
      from in_step_trans [OF this _ frame_refl _ frame_refl, of _ "set (refs cu)" "set (refs cu')"] cs
      show ?thesis by (auto simp: res_def p_def node_placeholder_def)
    qed
    from in_step_up [OF this [unfolded cu_def cu'_def p_def], folded cu_def cu'_def,
        where rdyp = "ready (path_of sha k) (length pre) (Inner c b l r)" and c = c and b = b and c' = c' and b' = b'
          and up = "climb sha fs tx" and up' = "climb sha fs tx",
        OF _ climb_in_step [OF env tk kn(1,2)]] rv(2,4)
    show ?thesis
      unfolding walk [OF kn(1,2) cu_def] walk [OF kn(3,4) cu'_def] by (simp add: cu_def cu'_def step_def)
  qed
qed

section \<open>Collections\<close>

definition prepared_for :: "(bytes \<Rightarrow> bytes) \<Rightarrow> collection \<Rightarrow> bytes \<Rightarrow> bool" where
  "prepared_for sha c k \<longleftrightarrow> known (cell (root c)) \<and> ready (path_of sha k) 0 (root c)"

fun written_key :: "write_op \<Rightarrow> bytes" where
  "written_key (WAdd k vs) = k"
| "written_key (WSet k vs) = k"
| "written_key (WSetField k i v) = k"
| "written_key (WRemove k) = k"

text \<open>A collection that keeps part of a full one, both in a transaction or both outside.\<close>

definition part_of :: "(bytes \<Rightarrow> bytes) \<Rightarrow> collection \<Rightarrow> collection \<Rightarrow> bool" where
  "part_of sha c db \<longleftrightarrow>
     coll_ok sha c \<and> whole sha db \<and> ongoing c = ongoing db \<and> coll_fields c = coll_fields db \<and>
     part (arrays c) (root c) (arrays db) (root db)"

lemma view_of_part: "view_of sha c db \<longleftrightarrow> part_of sha c db \<and> \<not> ongoing c"
proof
  assume v: "view_of sha c db"
  then have "clean (root db)" by (auto simp: view_of_def full_def coll_ok_def)
  with v view_of_ok(1) [OF v] show "part_of sha c db \<and> \<not> ongoing c"
    by (auto simp: view_of_def part_of_def full_whole intro: view_part)
next
  assume "part_of sha c db \<and> \<not> ongoing c"
  then show "view_of sha c db"
    by (auto simp: view_of_def part_of_def full_whole coll_ok_def good_def intro: part_view)
qed

text \<open>What a write does to a part of a full collection.\<close>

definition follows where
  "follows sha c db rdy res res' \<longleftrightarrow>
     res = Some (Some ProofNeeded, c) \<and> \<not> rdy \<or>
     (\<exists>e c' db'. res = Some (e, c') \<and> res' = Some (e, db') \<and> part_of sha c' db' \<and> ongoing c' = ongoing c)"

lemma part_of_two_kids:
  assumes v: "part_of sha c db" and k: "known (cell (root c))"
  obtains rc b l r rc' b' l' r' where "root c = Inner rc b l r" "root db = Inner rc' b' l' r'"
    "two_kids sha (coll_fields c) (ongoing c) [] (arrays c) rc b l r (arrays db) rc' b' l' r'"
proof -
  have ok: "coll_ok sha c" "coll_ok sha db" "all_known (root db)" "coll_fields c = coll_fields db"
    "ongoing c = ongoing db" "part (arrays c) (root c) (arrays db) (root db)"
    using v by (auto simp: part_of_def whole_def)
  obtain rc b l r where 1: "root c = Inner rc b l r" using coll_ok_root [OF ok(1) k] by metis
  obtain rc' b' l' r' where 2: "root db = Inner rc' b' l' r'"
    using coll_ok_root [OF ok(2) all_known_cell [OF ok(3)]] by metis
  have "two_kids sha (coll_fields c) (ongoing c) [] (arrays c) rc b l r (arrays db) rc' b' l' r'"
    using ok 1 2 by (intro two_kids_Inner) (auto simp: coll_ok_def)
  with 1 2 that show ?thesis by blast
qed

text \<open>Outside a transaction both collect at the end of a write, the full collection to no effect.\<close>

lemma finish_part:
  assumes hash: "hash_ok sha" and c: "part_of sha (c\<lparr>arrays := st1, root := n\<rparr>) (db\<lparr>arrays := st1', root := n'\<rparr>)"
    and whole: "whole sha db"
  shows "finish db (st1', n') = Some (None, db\<lparr>arrays := st1', root := n'\<rparr>)"
    "\<exists>c'. finish c (st1, n) = Some (None, c') \<and> part_of sha c' (db\<lparr>arrays := st1', root := n'\<rparr>) \<and> ongoing c' = ongoing c"
proof -
  let ?c = "c\<lparr>arrays := st1, root := n\<rparr>" and ?db = "db\<lparr>arrays := st1', root := n'\<rparr>"
  have tx: "ongoing c = ongoing db" "coll_ok sha ?db" using c by (auto simp: part_of_def whole_def)
  have "Collect ?db = Some ?db" using collect_full [OF tx(2)] whole by (simp add: whole_def)
  then show "finish db (st1', n') = Some (None, ?db)" by (simp add: finish_def Let_def)
  show "\<exists>c'. finish c (st1, n) = Some (None, c') \<and> part_of sha c' ?db \<and> ongoing c' = ongoing c"
  proof (cases "ongoing c")
    case True
    with c show ?thesis by (simp add: finish_def)
  next
    case False
    then have "view_of sha ?c ?db" using c by (simp add: view_of_part)
    from Collect_view [OF hash this] obtain c' where "Collect ?c = Some c'" "view_of sha c' ?db" by metis
    with False show ?thesis by (auto simp: finish_def view_of_part)
  qed
qed

lemma follows_walk:
  assumes hash: "hash_ok sha" and v: "part_of sha c db"
    and db': "res' = Some (e0, db0)" "whole sha db0"
    and walk: "in_step sha (coll_fields c) (ongoing c) [] rdy R N st R' N' st' w w'"
    and res: "res = Option.bind w (\<lambda>res. case res of Inl e \<Rightarrow> Some (Some e, c) | Inr s \<Rightarrow> finish c s)"
      "res' = Option.bind w' (\<lambda>res. case res of Inl e \<Rightarrow> Some (Some e, db) | Inr s \<Rightarrow> finish db s)"
  shows "follows sha c db rdy res res'"
proof -
  from walk consider "w = Some (Inl ProofNeeded)" "\<not> rdy" | e where "w = Some (Inl e)" "w' = Some (Inl e)"
    | st1 n m st1' n' where "w = Some (Inr (st1, n))" "w' = Some (Inr (st1', n'))"
        "post sha (coll_fields c) (ongoing c) [] R N st st1 n m" "part st1 n st1' n'"
    unfolding in_step_def by blast
  then show ?thesis
  proof cases
    case 3
    let ?c = "c\<lparr>arrays := st1, root := n\<rparr>" and ?db = "db\<lparr>arrays := st1', root := n'\<rparr>"
    have whole: "whole sha db" "ongoing c = ongoing db" "coll_ok sha c" "coll_fields c = coll_fields db"
      using v by (auto simp: part_of_def)
    have "finish db (st1', n') = Some (e0, db0)" using res(2) 3(2) db'(1) by simp
    then have db0: "db0 = ?db"
      using whole Collect_sub [of ?db db0] by (auto simp: finish_def bind_eq_Some_conv whole_def split: if_split_asm)
    then have "\<not> node_leaf n'" using db'(2) whole_known [OF db'(2)] by (auto simp: whole_def coll_ok_def)
    then have "part_of sha ?c ?db"
      using 3(3,4) whole db'(2) part_leaf [OF 3(4)] by (auto simp: part_of_def db0 coll_ok_def post_def)
    from finish_part [OF hash this whole(1)] 3(1,2) res show ?thesis by (auto simp: follows_def)
  qed (use res v in \<open>auto simp: follows_def\<close>)
qed

lemma write_follows:
  assumes db: "kept sha K db" and v: "part_of sha c db" and w: "write_ok K (coll_fields db) w"
  shows "follows sha c db (prepared_for sha c (written_key w)) (run_write sha c w) (run_write sha db w)"
proof -
  have tx: "ongoing db = ongoing c" "coll_fields c = coll_fields db" "coll_ok sha c" using v by (auto simp: part_of_def)
  have env: "hash_ok sha" "fields_ok (coll_fields c)"
    using db tx(3) by (auto simp: kept_def coll_ok_def)
  obtain e0 db0 where db0: "run_write sha db w = Some (e0, db0)" "whole sha db0"
    using run_write_spec [OF db w] by (auto simp: kept_def)
  have kdb: "known (cell (root db))" using v whole_known by (auto simp: part_of_def)
  show ?thesis
  proof (cases "known (cell (root c))")
    case False
    then have "run_write sha c w = Some (Some ProofNeeded, c)"
      using w db tx(2)
      by (cases w) (auto simp: Add_def Set_def SetField_def Remove_def alloc_def kept_def encodable_def
          dest: list_all2_lengthD)
    with False show ?thesis by (simp add: follows_def prepared_for_def)
  next
    case True
    obtain rc b l r rc' b' l' r' where n: "root c = Inner rc b l r" "root db = Inner rc' b' l' r'"
      and tk: "two_kids sha (coll_fields c) (ongoing c) [] (arrays c) rc b l r (arrays db) rc' b' l' r'"
      using part_of_two_kids [OF v True] .
    have kn: "known rc" "known rc'" using True kdb n by simp_all
    have rdy: "prepared_for sha c k \<longleftrightarrow> ready (path_of sha k) (length ([] :: bool list)) (Inner rc b l r)" for k
      using True n(1) by (simp add: prepared_for_def)
    have kids: "kids_ok sha (coll_fields c) (ongoing c) (arrays c) [] rc b l r"
      "kids_ok sha (coll_fields c) (ongoing c) (arrays db) [] rc' b' l' r'"
      using tk by (auto simp: two_kids_def)
    have set: "follows sha c db (prepared_for sha c k) (Set sha c k gs) (Set sha db k gs)"
      if k: "k \<noteq> []" "encodable (coll_fields c) gs" and s: "Set sha db k gs = Some (e0, db0)" for k gs
    proof -
      have len: "length gs = length (coll_fields c)" using k(2) by (simp add: encodable_def list_all2_lengthD)
      show ?thesis
        unfolding rdy
        by (rule follows_walk [OF env(1) v s db0(2) set_at_in_step [OF env k(2,1) tk]])
          (simp_all add: Set_def len tx kn n)
    qed
    show ?thesis
    proof (cases w)
      case (WSet k gs)
      with set [of k gs] w db db0(1) tx(2) show ?thesis by (auto simp: kept_def)
    next
      case (WSetField k i g)
      with set [of k "one_field (coll_fields c) i g"] w db db0(1) tx(2) show ?thesis
        by (auto simp: kept_def SetField_def one_field_def)
    next
      case (WRemove k)
      show ?thesis
        unfolding WRemove run_write.simps written_key.simps rdy
        by (rule follows_walk [OF env(1) v _ db0(2) remove_at_in_step [OF env tk, where is_root = True]])
          (use db0(1) WRemove in \<open>simp_all add: Remove_def tx kn n\<close>)
    next
      case (WAdd k gs)
      have k: "k \<noteq> []" "k \<in> K" "length gs = length (coll_fields c)" using w db tx(2) WAdd by (auto simp: kept_def)
      obtain raw where raw: "encode_all (coll_fields c) gs = Some raw" using w tx(2) WAdd by auto
      have fr: "frame {} (arrays c) (arrays c @ [raw])" "frame {} (arrays db) (arrays db @ [raw])" by simp_all
      have nocoll: "k' = k" if "(contents (arrays db @ [raw]) l' ++ contents (arrays db @ [raw]) r') k' \<noteq> None" "sha k' = sha k"
        for k'
      proof -
        have "kv db k' \<noteq> None" using that(1) kids_ok_frame(2,3) [OF fr(2) kids(2)] n(2) by (simp add: kv_def)
        with db have "k' \<in> K" "inj_on sha K" by (auto simp: kept_def)
        with that(2) k(2) show ?thesis by (auto dest: inj_onD)
      qed
      have walk: "in_step sha (coll_fields c) (ongoing c) [] (ready (path_of sha k) (length ([] :: bool list)) (Inner rc b l r))
          (set (refs l) \<union> set (refs r)) {length (arrays c)} (arrays c @ [raw])
          (set (refs l') \<union> set (refs r')) {length (arrays db)} (arrays db @ [raw])
          (add_at sha (coll_fields c) (ongoing c) (sha k) k (length (arrays c)) (length ([] :: bool list)) (arrays c @ [raw]) (Inner rc b l r))
          (add_at sha (coll_fields c) (ongoing c) (sha k) k (length (arrays db)) (length ([] :: bool list)) (arrays db @ [raw])
            (Inner rc' b' l' r'))"
        by (rule add_at_in_step [OF env k(1) two_kids_frame [OF tk fr]])
          (use kids_refs_bound [OF kids(1)] kids_refs_bound [OF kids(2)] encode_all_ok [OF env(2) raw] nocoll in auto)
      show ?thesis
        unfolding WAdd run_write.simps written_key.simps rdy
        by (rule follows_walk [OF env(1) v _ db0(2) walk])
          (use db0(1) WAdd k raw tx in \<open>simp_all add: Add_def alloc_def kn n\<close>)
    qed
  qed
qed

end
