(* ===== verification/Updates.thy ===== *)
theory Updates
  imports Proofs Manipulators
begin

text \<open>
  Models \<open>update.go\<close>: user-defined updates of a collection. An update declares the records it
  touches by proofs of them; \<open>Prepare\<close> verifies the proofs, \<open>Apply\<close> runs the update's check and its
  changes through a proxy that panics on any other key.

  The methods \<open>Check\<close> and \<open>Apply\<close> of an update are code of the caller: a program that calls the
  methods of the proxy and goes on with what they return. Such a program is a tree: each node is a
  call with its arguments and, for every result, the program that follows.
\<close>

datatype check_prog =
    CheckReturn bool
  | CheckGet bytes "coll_record \<Rightarrow> check_prog"

datatype apply_prog =
    ApplyReturn
  | CallGet bytes "coll_record \<Rightarrow> apply_prog"
  | CallAdd bytes "gval list" "coll_error option \<Rightarrow> apply_prog"
  | CallSet bytes "gval list" "coll_error option \<Rightarrow> apply_prog"
  | CallSetField bytes int gval "coll_error option \<Rightarrow> apply_prog"
  | CallRemove bytes "coll_error option \<Rightarrow> apply_prog"

record user_update =
  Records :: "mproof list"
  Check :: check_prog
  Apply_prog :: apply_prog

text \<open>The proxy: the paths of the declared keys. The collection it points to is the state.\<close>

type_synonym proxy = "bytes set"

record prepared =
  prep_transaction :: "64 word"
  prep_update :: user_update
  prep_proxy :: proxy

definition make_proxy :: "(bytes \<Rightarrow> bytes) \<Rightarrow> bytes list \<Rightarrow> proxy" where
  "make_proxy sha ks = set (map sha ks)"

definition proxy_has :: "(bytes \<Rightarrow> bytes) \<Rightarrow> proxy \<Rightarrow> bytes \<Rightarrow> bool" where
  "proxy_has sha p k \<longleftrightarrow> sha k \<in> p"

text \<open>An error of \<open>Record\<close> is dropped: the record is then the empty one.\<close>

definition proxy_Get :: "(bytes \<Rightarrow> bytes) \<Rightarrow> proxy \<Rightarrow> collection \<Rightarrow> bytes \<Rightarrow> coll_record option" where
  "proxy_Get sha p c k =
     (if \<not> proxy_has sha p k then None
      else do { r \<leftarrow> Get_Record sha c k; Some (case r of Inl e \<Rightarrow> empty_record | Inr rec \<Rightarrow> rec) })"

definition proxy_Add where
  "proxy_Add sha p c k values = (if \<not> proxy_has sha p k then None else Add sha c k values)"

definition proxy_Set where
  "proxy_Set sha p c k values = (if \<not> proxy_has sha p k then None else Set sha c k values)"

definition proxy_SetField where
  "proxy_SetField sha p c k field value =
     (if \<not> proxy_has sha p k then None else SetField sha c k field value)"

definition proxy_Remove where
  "proxy_Remove sha p c k = (if \<not> proxy_has sha p k then None else Remove sha c k)"

primrec run_check :: "(bytes \<Rightarrow> bytes) \<Rightarrow> proxy \<Rightarrow> collection \<Rightarrow> check_prog \<Rightarrow> bool option" where
  "run_check sha p c (CheckReturn b) = Some b"
| "run_check sha p c (CheckGet k f) =
     (case proxy_Get sha p c k of None \<Rightarrow> None | Some r \<Rightarrow> run_check sha p c (f r))"

primrec run_apply :: "(bytes \<Rightarrow> bytes) \<Rightarrow> proxy \<Rightarrow> apply_prog \<Rightarrow> collection \<Rightarrow> collection option" where
  "run_apply sha p ApplyReturn c = Some c"
| "run_apply sha p (CallGet k f) c =
     (case proxy_Get sha p c k of None \<Rightarrow> None | Some r \<Rightarrow> run_apply sha p (f r) c)"
| "run_apply sha p (CallAdd k values f) c =
     (case proxy_Add sha p c k values of None \<Rightarrow> None | Some (e, c') \<Rightarrow> run_apply sha p (f e) c')"
| "run_apply sha p (CallSet k values f) c =
     (case proxy_Set sha p c k values of None \<Rightarrow> None | Some (e, c') \<Rightarrow> run_apply sha p (f e) c')"
| "run_apply sha p (CallSetField k field value f) c =
     (case proxy_SetField sha p c k field value of
        None \<Rightarrow> None | Some (e, c') \<Rightarrow> run_apply sha p (f e) c')"
| "run_apply sha p (CallRemove k f) c =
     (case proxy_Remove sha p c k of None \<Rightarrow> None | Some (e, c') \<Rightarrow> run_apply sha p (f e) c')"

fun verify_all ::
  "(bytes \<Rightarrow> bytes) \<Rightarrow> collection \<Rightarrow> mproof list \<Rightarrow> ((coll_error + bytes list) \<times> collection) option" where
  "verify_all sha c [] = Some (Inr [], c)"
| "verify_all sha c (p # ps) =
     (case Verify sha c p of
        None \<Rightarrow> None
      | Some (ok, c') \<Rightarrow>
          (if \<not> ok then Some (Inl InvalidProof, c')
           else do {
             (res, c'') \<leftarrow> verify_all sha c' ps;
             Some (case res of Inl e \<Rightarrow> Inl e | Inr ks \<Rightarrow> Inr (p_key p # ks), c'')
           }))"

definition Prepare ::
  "(bytes \<Rightarrow> bytes) \<Rightarrow> collection \<Rightarrow> user_update \<Rightarrow> ((coll_error + prepared) \<times> collection) option" where
  "Prepare sha c u =
     (if inconsistent (cell (root c)) then None
      else do {
        (res, c') \<leftarrow> verify_all sha c (Records u);
        Some (case res of
            Inl e \<Rightarrow> Inl e
          | Inr ks \<Rightarrow> Inr \<lparr>prep_transaction = tx_id c', prep_update = u, prep_proxy = make_proxy sha ks\<rparr>,
          c')
      })"

definition applyUpdate ::
  "(bytes \<Rightarrow> bytes) \<Rightarrow> collection \<Rightarrow> prepared \<Rightarrow> (coll_error option \<times> collection) option" where
  "applyUpdate sha c u =
     (if prep_transaction u \<noteq> tx_id c then None
      else do {
        ok \<leftarrow> run_check sha (prep_proxy u) c (Check (prep_update u));
        (if \<not> ok then Some (Some UpdateCheckFailed, c)
         else if ongoing c
         then do { c' \<leftarrow> run_apply sha (prep_proxy u) (Apply_prog (prep_update u)) c; Some (None, c') }
         else do {
           c1 \<leftarrow> Begin c;
           c2 \<leftarrow> run_apply sha (prep_proxy u) (Apply_prog (prep_update u)) c1;
           c3 \<leftarrow> End sha c2;
           Some (None, c3)
         })
      })"

definition applyUserUpdate ::
  "(bytes \<Rightarrow> bytes) \<Rightarrow> collection \<Rightarrow> user_update \<Rightarrow> (coll_error option \<times> collection) option" where
  "applyUserUpdate sha c u =
     do {
       (res, c') \<leftarrow> Prepare sha c u;
       (case res of Inl e \<Rightarrow> Some (Some e, c') | Inr prep \<Rightarrow> applyUpdate sha c' prep)
     }"

text \<open>The argument of \<open>Apply\<close> is any object; other objects make it panic.\<close>

datatype apply_object = PreparedObject prepared | UpdateObject user_update | OtherObject

fun Apply ::
  "(bytes \<Rightarrow> bytes) \<Rightarrow> collection \<Rightarrow> apply_object \<Rightarrow> (coll_error option \<times> collection) option" where
  "Apply sha c (PreparedObject u) = applyUpdate sha c u"
| "Apply sha c (UpdateObject u) = applyUserUpdate sha c u"
| "Apply sha c OtherObject = None"

end
