(* ===== verification/UpdatesCorrect.thy ===== *)
theory UpdatesCorrect
  imports Updates Views Histories
begin

text \<open>
  What an update does. On a full collection \<open>Verify\<close> only judges a proof: it accepts the consistent
  ones with the root, and changes nothing. An update all of whose proofs are accepted, and whose check
  passes, has the effect its program has on a plain map; a program that touches a key it has not
  declared makes \<open>Apply\<close> panic.
\<close>

section \<open>Verifying on a full collection\<close>

definition accepted :: "(bytes \<Rightarrow> bytes) \<Rightarrow> collection \<Rightarrow> mproof \<Rightarrow> bool" where
  "accepted sha c p \<longleftrightarrow> d_label (p_root p) = tree_label c \<and> Consistent sha p = Some True"

lemma verify_at_known:
  "all_known n \<Longrightarrow> verify_at path d steps st n = Some (st', n') \<Longrightarrow> st' = st \<and> n' = n"
proof (induction steps arbitrary: d n n')
  case (Cons s steps)
  obtain c b l r where n: "n = Inner c b l r" using Cons.prems(2) by (cases n) auto
  have k: "all_known l" "all_known r" "known (cell l)" "known (cell r)"
    using Cons.prems(1) all_known_cell by (auto simp: n)
  from Cons.prems(2) k(3,4) consider
      m where "verify_at path (Suc d) steps st r = Some (st', m)" "n' = Inner c b l m"
    | m where "verify_at path (Suc d) steps st l = Some (st', m)" "n' = Inner c b m r"
    by (auto simp: n bind_eq_Some_conv split: if_split_asm)
  then show ?case using Cons.IH k(1,2) n by cases blast+
qed simp

lemma Verify_full:
  assumes "hash_ok sha" "full sha c" "p_key p \<noteq> []"
    and "secure_on sha (hashed (arrays c) (root c) \<union> proof_preimages p)"
  shows "Verify sha c p = Some (accepted sha c p, c)"
proof -
  have ok: "tree_ok sha (coll_fields c) (arrays c) [] (root c)" "clean (root c)" "all_known (root c)"
    using assms(2) by (auto simp: full_def coll_ok_def good_def)
  then have v: "view_of sha c c"
    using assms(2) view_refl [OF ok(2,3,1)] by (auto simp: view_of_def full_def coll_ok_def good_def)
  obtain c' where v: "Verify sha c p = Some (accepted sha c p, c')" "\<not> accepted sha c p \<Longrightarrow> c' = c"
  proof (rule Verify_view [OF assms(1) v assms(3,4)])
    fix ok c'
    assume "Verify sha c p = Some (ok, c')" "\<not> ok \<Longrightarrow> c' = c"
      "ok \<longleftrightarrow> d_label (p_root p) = tree_label c \<and> Consistent sha p = Some True"
    with that [of c'] show ?thesis by (simp add: accepted_def)
  qed
  have "c' = c" if a: "accepted sha c p"
  proof -
    have k: "known (cell (root c))" by (rule all_known_cell [OF ok(3)])
    have "d_label (p_root p) = label (cell (root c))" "Consistent sha p = Some True"
      using a by (auto simp: accepted_def tree_label_def)
    with v(1) k a obtain st n where "verify_at (sha (p_key p)) 0 (p_steps p) (arrays c) (root c) = Some (st, n)"
      "c' = c\<lparr>root := n, arrays := st\<rparr>"
      by (auto simp: Verify_def bind_eq_Some_conv split: if_split_asm)
    with verify_at_known [OF ok(3) this(1)] show ?thesis by simp
  qed
  with v show ?thesis by auto
qed

lemma verify_all_full:
  assumes "hash_ok sha" "full sha c"
  shows "\<forall>p \<in> set ps. p_key p \<noteq> [] \<and> secure_on sha (hashed (arrays c) (root c) \<union> proof_preimages p) \<Longrightarrow>
    verify_all sha c ps =
      Some (if \<forall>p \<in> set ps. accepted sha c p then Inr (map p_key ps) else Inl InvalidProof, c)"
  by (induction ps) (auto simp: Verify_full [OF assms])

section \<open>Programs on a plain map\<close>

text \<open>What the programs of an update do to a map: \<open>None\<close> where they touch a key not in \<open>D\<close>.\<close>

definition map_record :: "field list \<Rightarrow> (bytes \<rightharpoonup> bytes list) \<Rightarrow> bytes \<Rightarrow> coll_record" where
  "map_record fs m k =
     \<lparr>rec_fields = fs, rec_field = 0, rec_query = [], rec_match = (m k \<noteq> None), rec_key = k,
      rec_values = (case m k of None \<Rightarrow> [] | Some vs \<Rightarrow> vs)\<rparr>"

primrec spec_check :: "field list \<Rightarrow> bytes set \<Rightarrow> (bytes \<rightharpoonup> bytes list) \<Rightarrow> check_prog \<Rightarrow> bool option" where
  "spec_check fs D m (CheckReturn b) = Some b"
| "spec_check fs D m (CheckGet k f) = (if k \<in> D then spec_check fs D m (f (map_record fs m k)) else None)"

primrec spec_apply ::
  "field list \<Rightarrow> bytes set \<Rightarrow> apply_prog \<Rightarrow> (bytes \<rightharpoonup> bytes list) \<Rightarrow> (bytes \<rightharpoonup> bytes list) option" where
  "spec_apply fs D ApplyReturn m = Some m"
| "spec_apply fs D (CallGet k f) m = (if k \<in> D then spec_apply fs D (f (map_record fs m k)) m else None)"
| "spec_apply fs D (CallAdd k vs f) m =
     (if k \<in> D then (case spec_write fs m (WAdd k vs) of (e, m') \<Rightarrow> spec_apply fs D (f e) m') else None)"
| "spec_apply fs D (CallSet k vs f) m =
     (if k \<in> D then (case spec_write fs m (WSet k vs) of (e, m') \<Rightarrow> spec_apply fs D (f e) m') else None)"
| "spec_apply fs D (CallSetField k i v f) m =
     (if k \<in> D then (case spec_write fs m (WSetField k i v) of (e, m') \<Rightarrow> spec_apply fs D (f e) m') else None)"
| "spec_apply fs D (CallRemove k f) m =
     (if k \<in> D then (case spec_write fs m (WRemove k) of (e, m') \<Rightarrow> spec_apply fs D (f e) m') else None)"

text \<open>The programs whose keys are in \<open>K\<close> and whose declared writes the fields accept.\<close>

primrec check_ok :: "bytes set \<Rightarrow> check_prog \<Rightarrow> bool" where
  "check_ok K (CheckReturn b) \<longleftrightarrow> True"
| "check_ok K (CheckGet k f) \<longleftrightarrow> k \<in> K \<and> (\<forall>r. check_ok K (f r))"

primrec apply_ok :: "bytes set \<Rightarrow> field list \<Rightarrow> apply_prog \<Rightarrow> bool" where
  "apply_ok K fs ApplyReturn \<longleftrightarrow> True"
| "apply_ok K fs (CallGet k f) \<longleftrightarrow> k \<in> K \<and> (\<forall>r. apply_ok K fs (f r))"
| "apply_ok K fs (CallAdd k vs f) \<longleftrightarrow> write_ok K fs (WAdd k vs) \<and> (\<forall>e. apply_ok K fs (f e))"
| "apply_ok K fs (CallSet k vs f) \<longleftrightarrow> write_ok K fs (WSet k vs) \<and> (\<forall>e. apply_ok K fs (f e))"
| "apply_ok K fs (CallSetField k i v f) \<longleftrightarrow> write_ok K fs (WSetField k i v) \<and> (\<forall>e. apply_ok K fs (f e))"
| "apply_ok K fs (CallRemove k f) \<longleftrightarrow> write_ok K fs (WRemove k) \<and> (\<forall>e. apply_ok K fs (f e))"

lemma proxy_has_declared:
  "inj_on sha K \<Longrightarrow> k \<in> K \<Longrightarrow> set ks \<subseteq> K \<Longrightarrow> proxy_has sha (make_proxy sha ks) k \<longleftrightarrow> k \<in> set ks"
  by (auto simp: proxy_has_def make_proxy_def inj_on_def)

lemma kept_Get:
  assumes "kept sha K c" "k \<in> K"
  shows "Get_Record sha c k = Some (Inr (map_record (coll_fields c) (kv c) k))"
proof -
  have c: "hash_ok sha" "coll_ok sha c" "k \<noteq> []" "all_known (root c)"
    using assms by (auto simp: kept_def whole_def)
  obtain a where a: "lookup sha (arrays c) 0 k (root c) = Some a" using lookup_known [OF c(4)] by blast
  then have "kv c k = a"
    using lookup_contents [OF c(1,3), of "coll_fields c" "arrays c" "[]" "root c" a] c(2)
    by (simp add: coll_ok_def good_def kv_def)
  then show ?thesis using Get_Record_lookup [OF c(1-3)] a by (simp add: record_of_def map_record_def)
qed

section \<open>Running the programs\<close>

lemma run_check_spec:
  "kept sha K c \<Longrightarrow> check_ok K prog \<Longrightarrow> set ks \<subseteq> K \<Longrightarrow>
     run_check sha (make_proxy sha ks) c prog = spec_check (coll_fields c) (set ks) (kv c) prog"
proof (induction prog)
  case (CheckGet k f)
  have k: "k \<in> K" "check_ok K (f r)" for r using CheckGet.prems(2) by auto
  have "proxy_has sha (make_proxy sha ks) k \<longleftrightarrow> k \<in> set ks"
    using proxy_has_declared [OF _ k(1) CheckGet.prems(3)] CheckGet.prems(1) by (auto simp: kept_def)
  with CheckGet.IH [OF _ CheckGet.prems(1) k(2) CheckGet.prems(3)] kept_Get [OF CheckGet.prems(1) k(1)] show ?case
    by (simp add: proxy_Get_def)
qed simp

text \<open>A program behaves on a collection as on the map it stands for.\<close>

definition mirrors where
  "mirrors sha K c res spec \<longleftrightarrow>
     (case spec of
        None \<Rightarrow> res = None
      | Some m \<Rightarrow> \<exists>c'. res = Some c' \<and> kept sha K c' \<and> same_config c c' \<and> ongoing c' = ongoing c \<and> kv c' = m)"

lemma mirrors_write:
  assumes "kept sha K c" "set ks \<subseteq> K" "write_ok K (coll_fields c) w" "k \<in> K"
    and step: "\<And>e c1. kept sha K c1 \<Longrightarrow> coll_fields c1 = coll_fields c \<Longrightarrow>
      mirrors sha K c1 (run e c1) (spec e (kv c1))"
  shows "mirrors sha K c
    (case (if \<not> proxy_has sha (make_proxy sha ks) k then None else run_write sha c w) of
       None \<Rightarrow> None | Some (e, c') \<Rightarrow> run e c')
    (if k \<in> set ks then (case spec_write (coll_fields c) (kv c) w of (e, m) \<Rightarrow> spec e m) else None)"
proof -
  obtain c1 where c1: "run_write sha c w = Some (fst (spec_write (coll_fields c) (kv c) w), c1)" "kept sha K c1"
    "same_config c c1" "ongoing c1 = ongoing c" "kv c1 = snd (spec_write (coll_fields c) (kv c) w)"
    using run_write_spec [OF assms(1,3)] by auto
  let ?e = "fst (spec_write (coll_fields c) (kv c) w)" and ?m = "snd (spec_write (coll_fields c) (kv c) w)"
  have has: "proxy_has sha (make_proxy sha ks) k \<longleftrightarrow> k \<in> set ks"
    using proxy_has_declared [OF _ assms(4,2)] assms(1) by (auto simp: kept_def)
  have "mirrors sha K c1 (run ?e c1) (spec ?e ?m)"
    using step [OF c1(2), of ?e] c1(3,5) by (simp add: same_config_def)
  then have "mirrors sha K c (run ?e c1) (spec ?e ?m)"
    using c1(3,4) by (auto simp: mirrors_def same_config_def split: option.splits)
  then show ?thesis by (simp add: c1(1) has case_prod_beta) (simp add: mirrors_def)
qed

lemma run_apply_spec:
  "kept sha K c \<Longrightarrow> coll_fields c = fs \<Longrightarrow> apply_ok K fs prog \<Longrightarrow> set ks \<subseteq> K \<Longrightarrow>
     mirrors sha K c (run_apply sha (make_proxy sha ks) prog c) (spec_apply fs (set ks) prog (kv c))"
proof (induction prog arbitrary: c)
  case ApplyReturn
  then show ?case by (simp add: mirrors_def same_config_def)
next
  case (CallGet k f)
  let ?r = "map_record fs (kv c) k"
  have k: "k \<in> K" "apply_ok K fs (f ?r)" using CallGet.prems(3) by simp_all
  have "proxy_has sha (make_proxy sha ks) k \<longleftrightarrow> k \<in> set ks"
    using proxy_has_declared [OF _ k(1) CallGet.prems(4)] CallGet.prems(1) by (auto simp: kept_def)
  moreover have "mirrors sha K c (run_apply sha (make_proxy sha ks) (f ?r) c)
      (spec_apply fs (set ks) (f ?r) (kv c))"
    using CallGet.IH [OF rangeI CallGet.prems(1,2) k(2) CallGet.prems(4)] .
  ultimately show ?case
    using kept_Get [OF CallGet.prems(1) k(1)] CallGet.prems(2) by (simp add: proxy_Get_def) (simp add: mirrors_def)
next
  case (CallAdd k vs f)
  show ?case
    unfolding run_apply.simps spec_apply.simps proxy_Add_def CallAdd.prems(2) [symmetric]
    by (rule mirrors_write [of sha K c ks "WAdd k vs" k, unfolded run_write.simps]) (use CallAdd.prems CallAdd.IH [OF rangeI] in simp_all)
next
  case (CallSet k vs f)
  show ?case
    unfolding run_apply.simps spec_apply.simps proxy_Set_def CallSet.prems(2) [symmetric]
    by (rule mirrors_write [of sha K c ks "WSet k vs" k, unfolded run_write.simps]) (use CallSet.prems CallSet.IH [OF rangeI] in simp_all)
next
  case (CallSetField k i v f)
  show ?case
    unfolding run_apply.simps spec_apply.simps proxy_SetField_def CallSetField.prems(2) [symmetric]
    by (rule mirrors_write [of sha K c ks "WSetField k i v" k, unfolded run_write.simps]) (use CallSetField.prems CallSetField.IH [OF rangeI] in simp_all)
next
  case (CallRemove k f)
  show ?case
    unfolding run_apply.simps spec_apply.simps proxy_Remove_def CallRemove.prems(2) [symmetric]
    by (rule mirrors_write [of sha K c ks "WRemove k" k, unfolded run_write.simps]) (use CallRemove.prems CallRemove.IH [OF rangeI] in simp_all)
qed

section \<open>Applying\<close>

definition applied where
  "applied sha K c D u res \<longleftrightarrow>
     (case spec_check (coll_fields c) D (kv c) (Check u) of
        None \<Rightarrow> res = None
      | Some False \<Rightarrow> res = Some (Some UpdateCheckFailed, c)
      | Some True \<Rightarrow>
          (case spec_apply (coll_fields c) D (Apply_prog u) (kv c) of
             None \<Rightarrow> res = None
           | Some m \<Rightarrow> \<exists>c'. res = Some (None, c') \<and> kept sha K c' \<and> ongoing c' = ongoing c \<and>
               same_config c c' \<and> kv c' = m))"

lemma applyUpdate_spec:
  assumes c: "kept sha K c" and prog: "check_ok K (Check u)" "apply_ok K (coll_fields c) (Apply_prog u)"
    and ks: "set ks \<subseteq> K"
  shows "applied sha K c (set ks) u
    (applyUpdate sha c \<lparr>prep_transaction = tx_id c, prep_update = u, prep_proxy = make_proxy sha ks\<rparr>)"
proof -
  let ?p = "make_proxy sha ks"
  have check: "run_check sha ?p c (Check u) = spec_check (coll_fields c) (set ks) (kv c) (Check u)"
    by (rule run_check_spec [OF c prog(1) ks])
  show ?thesis
  proof (cases "ongoing c")
    case True
    with check run_apply_spec [OF c refl prog(2) ks] show ?thesis
      by (auto simp: applied_def applyUpdate_def mirrors_def split: option.splits bool.splits)
  next
    case False
    with c obtain c1 where c1: "Begin c = Some c1" "whole sha c1" "ongoing c1" "same_config c c1" "kv c1 = kv c"
      using Begin_whole [of sha c] unfolding kept_def full_whole by metis
    then have "kept sha K c1" "coll_fields c1 = coll_fields c" using c by (auto simp: kept_def same_config_def)
    with run_apply_spec [of sha K c1 "coll_fields c" "Apply_prog u" ks] prog(2) ks c1(5)
    have m: "mirrors sha K c1 (run_apply sha ?p (Apply_prog u) c1)
        (spec_apply (coll_fields c) (set ks) (Apply_prog u) (kv c))" by simp
    show ?thesis
    proof (cases "spec_apply (coll_fields c) (set ks) (Apply_prog u) (kv c)")
      case None
      with m check c1(1) False show ?thesis
        by (auto simp: applied_def applyUpdate_def mirrors_def split: option.splits bool.splits)
    next
      case (Some m')
      with m obtain c2 where c2: "run_apply sha ?p (Apply_prog u) c1 = Some c2" "kept sha K c2"
        "same_config c1 c2" "ongoing c2" "kv c2 = m'"
        using c1(3) by (auto simp: mirrors_def)
      obtain c3 where "End sha c2 = Some c3" "full sha c3" "same_config c2 c3" "kv c3 = kv c2"
        using End_whole [of sha c2] c2(2,4) unfolding kept_def by metis
      with c1 c2 check False Some c show ?thesis
        by (auto simp: applied_def applyUpdate_def kept_def full_whole same_config_def
            split: option.splits bool.splits)
    qed
  qed
qed

lemma Apply_spec:
  assumes c: "kept sha K c" "\<not> ongoing c"
    and recs: "\<forall>p \<in> set (Records u). p_key p \<in> K \<and>
      secure_on sha (hashed (arrays c) (root c) \<union> proof_preimages p)"
    and prog: "check_ok K (Check u)" "apply_ok K (coll_fields c) (Apply_prog u)"
  shows "if \<forall>p \<in> set (Records u). accepted sha c p
    then applied sha K c (p_key ` set (Records u)) u (Apply sha c (UpdateObject u))
    else Apply sha c (UpdateObject u) = Some (Some InvalidProof, c)"
proof -
  have full: "hash_ok sha" "full sha c" "clean (root c)" "[] \<notin> K"
    using c by (auto simp: kept_def full_whole) (simp add: whole_def coll_ok_def)
  have keys: "set (map p_key (Records u)) \<subseteq> K" using recs by auto
  have "\<not> inconsistent (cell (root c))" using full(3) by (cases "root c") auto
  moreover have "\<forall>p \<in> set (Records u). p_key p \<noteq> [] \<and>
      secure_on sha (hashed (arrays c) (root c) \<union> proof_preimages p)"
    using recs full(4) by auto
  ultimately have "Prepare sha c u = Some
      (if \<forall>p \<in> set (Records u). accepted sha c p
       then Inr \<lparr>prep_transaction = tx_id c, prep_update = u, prep_proxy = make_proxy sha (map p_key (Records u))\<rparr>
       else Inl InvalidProof, c)"
    using verify_all_full [OF full(1,2)] by (simp add: Prepare_def)
  then show ?thesis
    using applyUpdate_spec [OF c(1) prog keys] by (simp add: applyUserUpdate_def)
qed

text \<open>A prepared update is tied to its transaction: after the next \<open>End\<close> it makes \<open>Apply\<close> panic.\<close>

lemma stale_update_panics:
  "prep_transaction u \<noteq> tx_id c \<Longrightarrow> Apply sha c (PreparedObject u) = None"
  by (simp add: applyUpdate_def)

end
