(* ===== verification/LightUpdates.thy ===== *)
theory LightUpdates
  imports LightWrites UpdatesCorrect Walks
begin

text \<open>
  Transactions and updates on a collection that keeps only part of a full one.
\<close>

section \<open>What a walk leaves known\<close>

definition grows :: "nat \<Rightarrow> node \<Rightarrow> node \<Rightarrow> bool" where
  "grows d n n2 \<longleftrightarrow> (known (cell n) \<longrightarrow> known (cell n2)) \<and> (\<forall>q. ready q d n \<longrightarrow> ready q d n2)"

lemma grows_refl [simp]: "grows d n n"
  by (simp add: grows_def)

lemma ready_leaf [simp]: "node_leaf n \<Longrightarrow> ready q d n"
  by (cases n) auto

lemma climbed_kids:
  assumes "climb sha fs tx st (Inner c b L R) = Some (st2, n)"
  obtains c2 where "n = Inner c2 b L R" "known c2 = known c"
proof (cases tx)
  case True
  with assms that show ?thesis by (auto simp: climb_def mark_inconsistent_def)
next
  case False
  with assms obtain e where "update sha fs st (Inner c b L R) = Some (e, st2, n)"
    by (auto simp: climb_def bind_eq_Some_conv)
  from update_shape [OF this] that show ?thesis by auto
qed

lemma climb_grows:
  assumes up: "climb sha fs tx st (rebuild c b l r step ch) = Some (st2, n)"
    and kn: "known (cell l)" "known (cell r)" and ch: "grows (d + 1) (if step then r else l) ch"
  shows "grows d (Inner c b l r) n"
proof -
  obtain c2 where "n = Inner c2 b (kid_left step l ch) (kid_right step r ch)" "known c2 = known c"
    using climbed_kids [OF up [unfolded rebuild_kids]] .
  with kn ch show ?thesis by (auto simp: grows_def kid_left_def kid_right_def)
qed

lemma climb_remove_grows:
  assumes up: "climb_remove sha fs tx is_root st (rebuild c b l r step ch) = Some (st2, n)"
    and kn: "known (cell l)" "known (cell r)" and ch: "grows (d + 1) (if step then r else l) ch"
  shows "grows d (Inner c b l r) n"
proof (cases "\<not> is_root \<and> collapsible (kid_left step l ch) (kid_right step r ch)")
  case True
  with up have "collapse tx st (Inner c b (kid_left step l ch) (kid_right step r ch)) = (st2, n)"
    by (auto simp: climb_remove_def rebuild_kids)
  from collapse_eq [OF this] show ?thesis by (auto simp: grows_def Let_def)
next
  case False
  with up have "climb sha fs tx st (rebuild c b l r step ch) = Some (st2, n)"
    by (auto simp: climb_remove_def rebuild_kids)
  from climb_grows [OF this kn ch] show ?thesis .
qed

lemma leaf_grows: "node_leaf n2 \<Longrightarrow> (known (cell n) \<Longrightarrow> known (cell n2)) \<Longrightarrow> grows d n n2"
  by (simp add: grows_def)

lemma overwrite_leaf_grows:
  assumes "overwrite_leaf sha fs tx gs st n = Some (st2, n2)" "node_leaf n"
  shows "grows d n n2"
proof (cases n)
  case (Leaf c b)
  obtain st0 b0 where "backup_if tx st (Leaf c b) = (st0, Leaf c b0)" using backup_Leaf by metis
  with assms(1) Leaf show ?thesis
    by (auto simp: overwrite_leaf_def update_def grows_def bind_eq_Some_conv Let_def split: if_split_asm)
qed (use assms(2) in simp)

lemma put_leaf_grows:
  assumes "put_leaf sha fs tx k rv st n = Some (st2, n2)" "node_leaf n"
  shows "grows d n n2"
proof (cases n)
  case (Leaf c b)
  obtain st0 b0 where "backup_if tx st (Leaf c b) = (st0, Leaf c b0)" using backup_Leaf by metis
  with assms(1) Leaf show ?thesis
    by (auto simp: put_leaf_def update_def grows_def bind_eq_Some_conv Let_def split: if_split_asm)
qed (use assms(2) in simp)

lemma clear_leaf_grows:
  assumes "clear_leaf sha fs tx st n = Some (Inr (st2, n2))" "node_leaf n"
  shows "grows d n n2"
proof (cases n)
  case (Leaf c b)
  obtain st0 b0 where "backup_if tx st (Leaf c b) = (st0, Leaf c b0)" using backup_Leaf by metis
  with assms(1) Leaf show ?thesis
    by (auto simp: clear_leaf_def setPlaceholder_eq grows_def bind_eq_Some_conv Let_def split: if_split_asm)
qed (use assms(2) in simp)

lemma split_leaf_grows:
  assumes "split_leaf sha fs tx dd st n = Some (Inr (st2, n2))" "node_leaf n"
  shows "grows d n n2"
proof (cases n)
  case (Leaf c b)
  obtain st0 b0 where "backup_if tx st (Leaf c b) = (st0, Leaf c b0)" using backup_Leaf by metis
  with assms(1) Leaf show ?thesis
    by (auto simp: split_leaf_def setPlaceholder_eq new_node_def node_branch_def grows_def bind_eq_Some_conv Let_def split: if_split_asm)
qed (use assms(2) in simp)

lemma grows_trans: "grows d n n1 \<Longrightarrow> grows d n1 n2 \<Longrightarrow> grows d n n2"
  by (auto simp: grows_def)

lemma set_at_grows:
  "set_at sha fs tx path k gs d st n = Some (Inr (st2, n2)) \<Longrightarrow> grows d n n2"
proof (induction n arbitrary: d st st2 n2 rule: tree_induct)
  case (Inner c b l r)
  from Inner.prems show ?case
  proof (rule set_atE)
    fix step st1 ch
    let ?cu = "if step then r else l"
    assume kn: "known (cell l)" "known (cell r)"
      and up: "climb sha fs tx st1 (rebuild c b l r step ch) = Some (st2, n2)"
      and leaf: "node_leaf ?cu \<Longrightarrow> overwrite_leaf sha fs tx gs st ?cu = Some (st1, ch)"
      and inner: "\<not> node_leaf ?cu \<Longrightarrow> set_at sha fs tx path k gs (d + 1) st ?cu = Some (Inr (st1, ch))"
    have "grows (d + 1) ?cu ch"
      using overwrite_leaf_grows [OF leaf] inner Inner.IH by (cases "node_leaf ?cu") (cases step; auto)+
    from climb_grows [OF up kn this] show ?thesis .
  qed
qed simp

lemma remove_at_grows:
  "remove_at sha fs tx path k is_root d st n = Some (Inr (st2, n2)) \<Longrightarrow> grows d n n2"
proof (induction n arbitrary: d st st2 n2 is_root rule: tree_induct)
  case (Inner c b l r)
  from Inner.prems show ?case
  proof (rule remove_atE)
    fix step st1 ch
    let ?cu = "if step then r else l"
    assume kn: "known (cell l)" "known (cell r)"
      and up: "climb_remove sha fs tx is_root st1 (rebuild c b l r step ch) = Some (st2, n2)"
      and leaf: "node_leaf ?cu \<Longrightarrow> clear_leaf sha fs tx st ?cu = Some (Inr (st1, ch))"
      and inner: "\<not> node_leaf ?cu \<Longrightarrow> remove_at sha fs tx path k False (d + 1) st ?cu = Some (Inr (st1, ch))"
    have "grows (d + 1) ?cu ch"
      using clear_leaf_grows [OF leaf] inner Inner.IH by (cases "node_leaf ?cu") (cases step; auto)+
    from climb_remove_grows [OF up kn this] show ?thesis .
  qed
qed simp

lemma add_at_grows:
  "add_at sha fs tx path k rv d st n = Some (Inr (st2, n2)) \<Longrightarrow> grows d n n2"
proof (induction "8 * length path - d" arbitrary: d st n st2 n2 rule: less_induct)
  case less
  show ?case
  proof (cases n)
    case (Leaf c b)
    with less.prems show ?thesis by simp
  next
    case (Inner c b l r)
    from less.prems [unfolded Inner] show ?thesis
    proof (rule add_atE)
      fix step st1 ch
      let ?cu = "if step then r else l"
      assume kn: "known (cell l)" "known (cell r)" "bit_at path d = Some step"
        and up: "climb sha fs tx st1 (rebuild c b l r step ch) = Some (st2, n2)"
        and put: "node_placeholder ?cu \<Longrightarrow> put_leaf sha fs tx k rv st ?cu = Some (st1, ch)"
        and split: "node_leaf ?cu \<Longrightarrow> \<not> node_placeholder ?cu \<Longrightarrow>
          \<exists>s m. split_leaf sha fs tx (d + 1) st ?cu = Some (Inr (s, m)) \<and>
            add_at sha fs tx path k rv (d + 1) s m = Some (Inr (st1, ch))"
        and inner: "\<not> node_leaf ?cu \<Longrightarrow> add_at sha fs tx path k rv (d + 1) st ?cu = Some (Inr (st1, ch))"
      have "8 * length path - (d + 1) < 8 * length path - d" using kn(3) by auto
      note IH = less.hyps [OF this]
      have "grows (d + 1) ?cu ch"
      proof (cases "node_leaf ?cu")
        case False
        from IH [OF inner [OF False]] show ?thesis .
      next
        case leaf: True
        show ?thesis
        proof (cases "node_placeholder ?cu")
          case True
          from put_leaf_grows [OF put [OF True] leaf] show ?thesis .
        next
          case False
          from split [OF leaf this] obtain s m where "split_leaf sha fs tx (d + 1) st ?cu = Some (Inr (s, m))"
            "add_at sha fs tx path k rv (d + 1) s m = Some (Inr (st1, ch))" by blast
          from grows_trans [OF split_leaf_grows [OF this(1) leaf] IH [OF this(2)]] show ?thesis .
        qed
      qed
      from climb_grows [OF up kn(1,2) this] Inner show ?thesis by simp
    qed
  qed
qed

text \<open>A write inside a transaction forgets nothing: a key that could be written and read still can.\<close>

lemma grown:
  assumes "grows 0 (root c) (root c')" "prepared_for sha c k"
  shows "prepared_for sha c' k"
  using assms by (auto simp: prepared_for_def grows_def)

lemma finish_grows:
  assumes "ongoing c" "finish c (st, n) = Some (e, c')" "grows 0 (root c) n"
  shows "grows 0 (root c) (root c')"
  using assms by (auto simp: finish_def Let_def)

lemma write_walk_grows:
  assumes "ongoing c"
    and "Option.bind w (\<lambda>res. case res of Inl e \<Rightarrow> Some (Some e, c) | Inr s \<Rightarrow> finish c s) = Some (e, c')"
    and "\<And>st n. w = Some (Inr (st, n)) \<Longrightarrow> grows 0 (root c) n"
  shows "grows 0 (root c) (root c')"
  using assms(2) by (cases w) (auto split: sum.split_asm intro: finish_grows [OF assms(1)] assms(3))

lemma run_write_grows:
  assumes "ongoing c" "run_write sha c w = Some (e, c')"
  shows "grows 0 (root c) (root c')"
proof -
  have set: "grows 0 (root c) (root c')" if "Set sha c k gs = Some (e, c')" for k gs
    using that write_walk_grows [OF assms(1) _ set_at_grows]
    by (auto simp: Set_def Let_def split: if_split_asm)
  show ?thesis
  proof (cases w)
    case (WAdd k gs)
    then have add: "Add sha c k gs = Some (e, c')" using assms(2) by simp
    show ?thesis
    proof (cases "c' = c")
      case False
      from Add_walk [OF add False] obtain raw where
        "Option.bind (add_at sha (coll_fields c) (ongoing c) (sha k) k (length (arrays c)) 0 (arrays c @ [raw]) (root c))
          (\<lambda>res. case res of Inl e \<Rightarrow> Some (Some e, c) | Inr s \<Rightarrow> finish c s) = Some (e, c')" .
      from write_walk_grows [OF assms(1) this add_at_grows] show ?thesis .
    qed simp
  next
    case (WRemove k)
    with assms(2) write_walk_grows [OF assms(1) _ remove_at_grows] show ?thesis
      by (auto simp: Remove_def Let_def split: if_split_asm)
  next
    case (WSetField k i v)
    with assms(2) set show ?thesis by (auto simp: SetField_def split: if_split_asm)
  qed (use assms(2) set in simp)
qed

section \<open>Checking proofs\<close>

text \<open>\<open>Verify\<close> forgets nothing either.\<close>

lemma verify_at_grows:
  "verify_at path d steps st n = Some (st2, n2) \<Longrightarrow> grows d n n2"
proof (induction steps arbitrary: d st n st2 n2)
  case (Cons s steps)
  obtain c b l r where n: "n = Inner c b l r" using Cons.prems by (cases n) auto
  obtain sa la where la: "(if \<not> known (cell l) then dump_to (step_left s) st l else (st, l)) = (sa, la)" by fastforce
  obtain sb ra where ra: "(if \<not> known (cell r) then dump_to (step_right s) sa r else (sa, r)) = (sb, ra)" by fastforce
  from Cons.prems n la ra consider
      m where "verify_at path (d + 1) steps sb ra = Some (st2, m)" "n2 = Inner c b la m"
    | m where "verify_at path (d + 1) steps sb la = Some (st2, m)" "n2 = Inner c b m ra"
    by (auto simp: bind_eq_Some_conv simp del: bit_at_Some split: if_split_asm)
  then show ?case
    using Cons.IH la ra n by cases (fastforce simp: grows_def split: if_split_asm)+
qed simp

lemma Verify_grows:
  assumes "Verify sha c p = Some (ok, c')" "prepared_for sha c k"
  shows "prepared_for sha c' k"
proof (cases "c' = c")
  case False
  have kn: "known (cell (root c))" using assms(2) by (simp add: prepared_for_def)
  with False assms(1) obtain st n where "verify_at (sha (p_key p)) 0 (p_steps p) (arrays c) (root c) = Some (st, n)"
    "c' = c\<lparr>root := n, arrays := st\<rparr>"
    by (auto simp: Verify_def bind_eq_Some_conv split: if_split_asm)
  with grown [OF _ assms(2), of c'] verify_at_grows show ?thesis by simp
qed (use assms(2) in simp)

lemma verify_all_light:
  assumes "hash_ok sha"
  shows "view_of sha c db \<Longrightarrow>
    \<forall>p \<in> set ps. p_key p \<noteq> [] \<and> secure_on sha (hashed (arrays db) (root db) \<union> proof_preimages p) \<Longrightarrow>
    \<exists>c'. verify_all sha c ps = Some (if \<forall>p \<in> set ps. accepted sha db p then Inr (map p_key ps) else Inl InvalidProof, c') \<and>
      view_of sha c' db \<and> (\<forall>k. prepared_for sha c k \<longrightarrow> prepared_for sha c' k) \<and>
      ((\<forall>p \<in> set ps. accepted sha db p) \<longrightarrow> (\<forall>k \<in> p_key ` set ps. prepared_for sha c' k))"
proof (induction ps arbitrary: c)
  case (Cons p ps)
  have p: "p_key p \<noteq> []" "secure_on sha (hashed (arrays db) (root db) \<union> proof_preimages p)" using Cons.prems(2) by auto
  obtain c1 where c1: "Verify sha c p = Some (accepted sha db p, c1)" "view_of sha c1 db"
    "accepted sha db p \<Longrightarrow> prepared_for sha c1 (p_key p)"
  proof (rule Verify_view [OF assms Cons.prems(1) p])
    fix ok c1
    assume "Verify sha c p = Some (ok, c1)" "view_of sha c1 db"
      "ok \<longleftrightarrow> d_label (p_root p) = tree_label c \<and> Consistent sha p = Some True"
      "ok \<Longrightarrow> known (cell (root c1)) \<and> ready (path_of sha (p_key p)) 0 (root c1)"
    with that [of c1] view_of_ok(2) [OF Cons.prems(1)] show ?thesis by (simp add: accepted_def prepared_for_def)
  qed
  note old = Verify_grows [OF c1(1)]
  show ?case
  proof (cases "accepted sha db p")
    case False
    with c1(1) have "verify_all sha c (p # ps) = Some (Inl InvalidProof, c1)" by simp
    with False c1(2) old show ?thesis by simp
  next
    case True
    from Cons.IH [OF c1(2)] Cons.prems(2) obtain c2 where
      "verify_all sha c1 ps = Some (if \<forall>p \<in> set ps. accepted sha db p then Inr (map p_key ps) else Inl InvalidProof, c2)"
      "view_of sha c2 db" "\<And>k. prepared_for sha c1 k \<Longrightarrow> prepared_for sha c2 k"
      "(\<forall>p \<in> set ps. accepted sha db p) \<Longrightarrow> (\<forall>k \<in> p_key ` set ps. prepared_for sha c2 k)"
      by auto
    moreover from this(1) True c1(1) have "verify_all sha c (p # ps) =
        Some (if \<forall>p \<in> set (p # ps). accepted sha db p then Inr (map p_key (p # ps)) else Inl InvalidProof, c2)"
      by simp
    ultimately show ?thesis using c1(3) [OF True] old by (intro exI [of _ c2]) simp
  qed
qed auto

section \<open>Begin and End\<close>

lemma Begin_part:
  assumes "view_of sha c db"
  shows "Begin c = Some (c\<lparr>ongoing := True\<rparr>)" "Begin db = Some (db\<lparr>ongoing := True\<rparr>)"
    "part_of sha (c\<lparr>ongoing := True\<rparr>) (db\<lparr>ongoing := True\<rparr>)"
  using assms by (auto simp: view_of_part part_of_def Begin_def coll_ok_def whole_def)

lemma Collect_ongoing:
  "Collect (c\<lparr>ongoing := b\<rparr>) = map_option (\<lambda>c. c\<lparr>ongoing := b\<rparr>) (Collect c)"
  by (cases "root c") (simp_all add: Collect_def split: Option.bind_split)

lemma End_part:
  assumes hash: "hash_ok sha" and p: "part_of sha c db" and tx: "ongoing c"
  obtains c' db' where "End sha c = Some c'" "End sha db = Some db'" "view_of sha c' db'" "full sha db'" "kv db' = kv db"
proof -
  have ok: "coll_ok sha c" "coll_ok sha db" "whole sha db" "coll_fields c = coll_fields db" "ongoing db"
    "part (arrays c) (root c) (arrays db) (root db)" "all_known (root db)" "fields_ok (coll_fields c)"
    using p tx by (auto simp: part_of_def whole_def coll_ok_def)
  have g: "good sha (coll_fields c) (arrays c) [] (confirm_node (root c))" "no_backup (confirm_node (root c))"
    "good sha (coll_fields c) (arrays db) [] (confirm_node (root db))" "no_backup (confirm_node (root db))"
    using ok confirm_ok by (auto simp: coll_ok_def good_def separated_def)
  obtain st n where fx: "fix_node sha (coll_fields c) (arrays c) (confirm_node (root c)) = Some (st, n)"
    "good sha (coll_fields c) st [] n"
    using fix_node_good [OF ok(8) g(1,2)] by auto
  obtain st' n' where fx': "fix_node sha (coll_fields c) (arrays db) (confirm_node (root db)) = Some (st', n')"
    using fix_node_good [OF ok(8) g(3,4)] by auto
  have "part (arrays c) (confirm_node (root c)) (arrays db) (confirm_node (root db))"
    using confirm_part [OF ok(6), of sha "coll_fields c" "[]"] ok(1,2,4) by (simp add: coll_ok_def good_def)
  from fix_node_part [OF ok(8) this g _ fx(1) fx'] ok(7) have v: "view st n st' n'" by simp
  obtain db' where db': "End sha db = Some db'" "full sha db'" "same_config db db'" "kv db' = kv db"
    using End_whole [OF hash ok(3,5)] by metis
  have db_eq: "db' = db\<lparr>root := n', arrays := st', tx_id := tx_id db + 1, ongoing := False\<rparr>"
    using db'(1) ok(4,5) fx' ok(3) Collect_sub [of "db\<lparr>root := n', arrays := st'\<rparr>"]
    by (auto simp: End_def Let_def whole_def bind_eq_Some_conv split: if_split_asm)
  let ?db = "db\<lparr>root := n', arrays := st', ongoing := False\<rparr>"
  have v0: "view_of sha (c\<lparr>root := n, arrays := st, ongoing := False\<rparr>) ?db"
    using v fx(2) ok db' db_eq
    by (auto simp: view_of_def full_def good_def coll_ok_def kv_def)
  let ?c = "c\<lparr>root := n, arrays := st, ongoing := False\<rparr>"
  have again: "c\<lparr>root := n, arrays := st\<rparr> = ?c\<lparr>ongoing := True\<rparr>" using tx by simp
  have view: "view_of sha (x\<lparr>tx_id := i, ongoing := False\<rparr>) db'" if "view_of sha (x\<lparr>ongoing := False\<rparr>) ?db" for x i
    using that by (simp add: view_of_def full_def coll_ok_def db_eq)
  show ?thesis
  proof (cases "flag_value (autoCollect c)")
    case False
    then have "End sha c = Some (c\<lparr>root := n, arrays := st, tx_id := tx_id c + 1, ongoing := False\<rparr>)"
      using tx fx(1) by (simp add: End_def Let_def)
    from that [OF this db'(1) _ db'(2,4)] view [of "c\<lparr>root := n, arrays := st\<rparr>"] v0 show ?thesis by simp
  next
    case True
    from Collect_view [OF hash v0] obtain c1 where c1: "Collect ?c = Some c1" "view_of sha c1 ?db" by metis
    then have "Collect (c\<lparr>root := n, arrays := st\<rparr>) = Some (c1\<lparr>ongoing := True\<rparr>)"
      by (subst again) (simp only: Collect_ongoing option.map)
    with True tx fx(1) have "End sha c = Some (c1\<lparr>tx_id := tx_id c1 + 1, ongoing := False\<rparr>)"
      by (simp add: End_def Let_def)
    moreover have "c1\<lparr>ongoing := False\<rparr> = c1" using c1(2) by (simp add: view_of_def)
    ultimately show ?thesis using that [OF _ db'(1) _ db'(2,4)] view [of c1] c1(2) by simp
  qed
qed

section \<open>Programs in lockstep\<close>

text \<open>Two runs that both panic, or both return, related collections.\<close>

definition both where
  "both matched res res' \<longleftrightarrow>
     res = None \<and> res' = None \<or> (\<exists>c' db'. res = Some c' \<and> res' = Some db' \<and> matched c' db')"

text \<open>
  What the programs of an update need of two collections to run on them alike: \<open>Get\<close> tells them the same
  of a declared key and, for the changes, a write of a declared key has the same answer and leaves the
  collections related. \<open>D\<close> is what the proxy lets through, \<open>K\<close> the keys the programs may name.
\<close>

locale reads_alike =
  fixes sha :: "bytes \<Rightarrow> bytes" and D :: proxy and K :: "bytes set"
    and matched :: "collection \<Rightarrow> collection \<Rightarrow> bool"
  assumes get: "matched c db \<Longrightarrow> k \<in> K \<Longrightarrow> proxy_has sha D k \<Longrightarrow>
    \<exists>r. Get_Record sha c k = Some r \<and> Get_Record sha db k = Some r"
begin

lemma proxy_Get_alike:
  "matched c db \<Longrightarrow> k \<in> K \<Longrightarrow> proxy_Get sha D c k = proxy_Get sha D db k"
  using get [of c db k] by (auto simp: proxy_Get_def)

lemma check_alike:
  "matched c db \<Longrightarrow> check_ok K prog \<Longrightarrow> run_check sha D c prog = run_check sha D db prog"
proof (induction prog)
  case (CheckGet k f)
  have "k \<in> K" "check_ok K (f r)" for r using CheckGet.prems(2) by auto
  with CheckGet.IH [OF _ CheckGet.prems(1)] proxy_Get_alike [OF CheckGet.prems(1)] show ?case
    by (cases "proxy_Get sha D db k") auto
qed simp

end

locale lockstep = reads_alike +
  fixes fs :: "field list"
  assumes put: "matched c db \<Longrightarrow> write_ok K fs w \<Longrightarrow> proxy_has sha D (written_key w) \<Longrightarrow>
    \<exists>e c' db'. run_write sha c w = Some (e, c') \<and> run_write sha db w = Some (e, db') \<and> matched c' db'"
begin

lemma write_alike:
  assumes "matched c db" "write_ok K fs w" "\<And>e c' db'. matched c' db' \<Longrightarrow> both matched (run e c') (run e db')"
  shows "both matched
    (case (if \<not> proxy_has sha D (written_key w) then None else run_write sha c w) of
       None \<Rightarrow> None | Some (e, c') \<Rightarrow> run e c')
    (case (if \<not> proxy_has sha D (written_key w) then None else run_write sha db w) of
       None \<Rightarrow> None | Some (e, db') \<Rightarrow> run e db')"
proof (cases "proxy_has sha D (written_key w)")
  case True
  with put [OF assms(1,2)] obtain e c' db' where "run_write sha c w = Some (e, c')"
    "run_write sha db w = Some (e, db')" "matched c' db'" by blast
  with True assms(3) show ?thesis by simp
qed (simp add: both_def)

lemma apply_alike:
  "matched c db \<Longrightarrow> apply_ok K fs prog \<Longrightarrow> both matched (run_apply sha D prog c) (run_apply sha D prog db)"
proof (induction prog arbitrary: c db)
  case ApplyReturn
  then show ?case by (simp add: both_def)
next
  case (CallGet k f)
  have k: "k \<in> K" "apply_ok K fs (f r)" for r using CallGet.prems(2) by auto
  with CallGet.IH [OF rangeI CallGet.prems(1) k(2)] proxy_Get_alike [OF CallGet.prems(1) k(1)] show ?case
    by (cases "proxy_Get sha D db k") (simp_all add: both_def)
next
  case (CallAdd k vs f)
  show ?case
    unfolding run_apply.simps proxy_Add_def
    by (rule write_alike [of c db "WAdd k vs", unfolded written_key.simps run_write.simps])
      (use CallAdd.prems CallAdd.IH [OF rangeI] in simp_all)
next
  case (CallSet k vs f)
  show ?case
    unfolding run_apply.simps proxy_Set_def
    by (rule write_alike [of c db "WSet k vs", unfolded written_key.simps run_write.simps])
      (use CallSet.prems CallSet.IH [OF rangeI] in simp_all)
next
  case (CallSetField k i v f)
  show ?case
    unfolding run_apply.simps proxy_SetField_def
    by (rule write_alike [of c db "WSetField k i v", unfolded written_key.simps run_write.simps])
      (use CallSetField.prems CallSetField.IH [OF rangeI] in simp_all)
next
  case (CallRemove k f)
  show ?case
    unfolding run_apply.simps proxy_Remove_def
    by (rule write_alike [of c db "WRemove k", unfolded written_key.simps run_write.simps])
      (use CallRemove.prems CallRemove.IH [OF rangeI] in simp_all)
qed

end

section \<open>A part of a collection and the full one\<close>

text \<open>The keys \<open>ks\<close> have been proved to the part; for the changes a transaction is open.\<close>

definition light_pair where
  "light_pair sha K fs ks c db \<longleftrightarrow>
     part_of sha c db \<and> kept sha K db \<and> coll_fields db = fs \<and> set ks \<subseteq> K \<and> (\<forall>k \<in> set ks. prepared_for sha c k)"

definition open_pair where
  "open_pair sha K fs ks c db \<longleftrightarrow> light_pair sha K fs ks c db \<and> ongoing c"

lemma declared_prepared:
  "light_pair sha K fs ks c db \<Longrightarrow> k \<in> K \<Longrightarrow> proxy_has sha (make_proxy sha ks) k \<Longrightarrow> prepared_for sha c k"
  using proxy_has_declared [of sha K k ks] by (auto simp: light_pair_def kept_def)

lemma ready_lookup:
  "hash_ok sha \<Longrightarrow> known (cell n) \<Longrightarrow> ready (path_of sha k) d n \<Longrightarrow> lookup sha st d k n \<noteq> None"
  by (induction n arbitrary: d rule: tree_induct) auto

lemma light_Get:
  assumes p: "light_pair sha K fs ks c db" and k: "k \<in> K" "prepared_for sha c k"
  shows "\<exists>r. Get_Record sha c k = Some r \<and> Get_Record sha db k = Some r"
proof -
  have h: "hash_ok sha" "k \<noteq> []" "coll_ok sha c" "coll_ok sha db" "all_known (root db)" "coll_fields c = coll_fields db"
    "part (arrays c) (root c) (arrays db) (root db)"
    using p k(1) by (auto simp: light_pair_def kept_def part_of_def whole_def)
  obtain a where a: "lookup sha (arrays c) 0 k (root c) = Some a"
    using ready_lookup [OF h(1)] k(2) by (fastforce simp: prepared_for_def)
  from part_lookup [OF h(7,5) this] a h(6) show ?thesis
    using Get_Record_lookup [OF h(1,3,2)] Get_Record_lookup [OF h(1,4,2)] by (simp add: record_of_def)
qed

interpretation light: reads_alike sha "make_proxy sha ks" K "light_pair sha K fs ks"
  by unfold_locales (meson light_Get declared_prepared)

lemma written_key_kept: "write_ok K fs w \<Longrightarrow> written_key w \<in> K"
  by (cases w) auto

lemma open_write:
  assumes p: "open_pair sha K fs ks c db" and w: "write_ok K fs w" and has: "proxy_has sha (make_proxy sha ks) (written_key w)"
  shows "\<exists>e c' db'. run_write sha c w = Some (e, c') \<and> run_write sha db w = Some (e, db') \<and>
    open_pair sha K fs ks c' db'"
proof -
  have l: "light_pair sha K fs ks c db" "ongoing c" "kept sha K db" "part_of sha c db" "coll_fields db = fs"
    using p by (auto simp: open_pair_def light_pair_def)
  have "prepared_for sha c (written_key w)" by (rule declared_prepared [OF l(1) written_key_kept [OF w] has])
  with write_follows [OF l(3,4), of w] w l(5) obtain e c' db' where r: "run_write sha c w = Some (e, c')"
    "run_write sha db w = Some (e, db')" "part_of sha c' db'" "ongoing c' = ongoing c"
    by (auto simp: follows_def)
  moreover have "kept sha K db'" "coll_fields db' = fs"
    using run_write_spec [OF l(3), of w] w l(5) r(2) by (auto simp: same_config_def)
  moreover have "prepared_for sha c' k" if "k \<in> set ks" for k
    using grown [OF run_write_grows [OF l(2) r(1)]] that l(1) by (auto simp: light_pair_def)
  ultimately show ?thesis using l(1,2) by (auto simp: open_pair_def light_pair_def)
qed

interpretation light_tx: lockstep sha "make_proxy sha ks" K "open_pair sha K fs ks" fs
proof unfold_locales
  fix c db k
  assume "open_pair sha K fs ks c db" "k \<in> K" "proxy_has sha (make_proxy sha ks) k"
  then show "\<exists>r. Get_Record sha c k = Some r \<and> Get_Record sha db k = Some r"
    using light.get by (auto simp: open_pair_def)
qed (rule open_write)

section \<open>Applying an update\<close>

lemma applyUpdate_light:
  assumes v: "view_of sha c db" and db: "kept sha K db" and ks: "set ks \<subseteq> K" "\<forall>k \<in> set ks. prepared_for sha c k"
    and prog: "check_ok K (Check u)" "apply_ok K (coll_fields db) (Apply_prog u)"
  defines "prep \<equiv> \<lambda>t. \<lparr>prep_transaction = t, prep_update = u, prep_proxy = make_proxy sha ks\<rparr>"
  shows "applyUpdate sha c (prep (tx_id c)) = None \<and> applyUpdate sha db (prep (tx_id db)) = None \<or>
    (\<exists>e c' db'. applyUpdate sha c (prep (tx_id c)) = Some (e, c') \<and>
      applyUpdate sha db (prep (tx_id db)) = Some (e, db') \<and> view_of sha c' db')"
proof -
  let ?D = "make_proxy sha ks"
  have part: "part_of sha c db" "\<not> ongoing c" "\<not> ongoing db" "hash_ok sha" using v db by (auto simp: view_of_part part_of_def kept_def)
  then have pair: "light_pair sha K (coll_fields db) ks c db" using db ks by (simp add: light_pair_def)
  have check: "run_check sha ?D c (Check u) = run_check sha ?D db (Check u)"
    by (rule light.check_alike [OF pair prog(1)])
  note bg = Begin_part [OF v]
  have "kept sha K (db\<lparr>ongoing := True\<rparr>)" using db part(3) bg(3) by (auto simp: kept_def part_of_def kv_def)
  then have "open_pair sha K (coll_fields db) ks (c\<lparr>ongoing := True\<rparr>) (db\<lparr>ongoing := True\<rparr>)"
    using bg(3) ks by (simp add: open_pair_def light_pair_def prepared_for_def)
  from light_tx.apply_alike [OF this prog(2)] have runs: "both (open_pair sha K (coll_fields db) ks)
      (run_apply sha ?D (Apply_prog u) (c\<lparr>ongoing := True\<rparr>)) (run_apply sha ?D (Apply_prog u) (db\<lparr>ongoing := True\<rparr>))" .
  show ?thesis
  proof (cases "run_check sha ?D db (Check u)")
    case None
    with check show ?thesis by (simp add: applyUpdate_def prep_def)
  next
    case (Some ok)
    show ?thesis
    proof (cases ok)
      case False
      with Some check v show ?thesis by (simp add: applyUpdate_def prep_def)
    next
      case True
      from runs consider "run_apply sha ?D (Apply_prog u) (c\<lparr>ongoing := True\<rparr>) = None"
          "run_apply sha ?D (Apply_prog u) (db\<lparr>ongoing := True\<rparr>) = None"
        | c1 db1 where "run_apply sha ?D (Apply_prog u) (c\<lparr>ongoing := True\<rparr>) = Some c1"
            "run_apply sha ?D (Apply_prog u) (db\<lparr>ongoing := True\<rparr>) = Some db1"
            "open_pair sha K (coll_fields db) ks c1 db1"
        by (auto simp: both_def)
      then show ?thesis
      proof cases
        case 1
        with Some True check bg part show ?thesis by (simp add: applyUpdate_def prep_def)
      next
        case 2
        then have "part_of sha c1 db1" "ongoing c1" by (simp_all add: open_pair_def light_pair_def)
        from End_part [OF part(4) this] obtain c2 db2 where "End sha c1 = Some c2" "End sha db1 = Some db2"
          "view_of sha c2 db2" by metis
        with 2 Some True check bg part show ?thesis by (simp add: applyUpdate_def prep_def)
      qed
    qed
  qed
qed

lemma Apply_light:
  assumes v: "view_of sha c db" and db: "kept sha K db"
    and recs: "\<forall>p \<in> set (Records u). p_key p \<in> K \<and>
      secure_on sha (hashed (arrays db) (root db) \<union> proof_preimages p)"
    and prog: "check_ok K (Check u)" "apply_ok K (coll_fields db) (Apply_prog u)"
  shows "Apply sha c (UpdateObject u) = None \<and> Apply sha db (UpdateObject u) = None \<or>
    (\<exists>e c' db'. Apply sha c (UpdateObject u) = Some (e, c') \<and> Apply sha db (UpdateObject u) = Some (e, db') \<and>
       view_of sha c' db')"
proof -
  have h: "hash_ok sha" "full sha db" "[] \<notin> K" "clean (root c)" "clean (root db)" "\<not> ongoing db"
    using v db view_of_ok(1) [OF v] by (auto simp: kept_def view_of_def full_def coll_ok_def)
  have ps: "\<forall>p \<in> set (Records u). p_key p \<noteq> [] \<and> secure_on sha (hashed (arrays db) (root db) \<union> proof_preimages p)"
    using recs h(3) by auto
  obtain c1 where c1: "verify_all sha c (Records u) =
      Some (if \<forall>p \<in> set (Records u). accepted sha db p then Inr (map p_key (Records u)) else Inl InvalidProof, c1)"
    "view_of sha c1 db"
    "(\<forall>p \<in> set (Records u). accepted sha db p) \<Longrightarrow> (\<forall>k \<in> p_key ` set (Records u). prepared_for sha c1 k)"
    using verify_all_light [OF h(1) v ps] by auto
  note db1 = verify_all_full [OF h(1,2) ps]
  have nin: "\<not> inconsistent (cell (root c))" "\<not> inconsistent (cell (root db))" using clean_imp h(4,5) by auto
  show ?thesis
  proof (cases "\<forall>p \<in> set (Records u). accepted sha db p")
    case False
    with c1 db1 nin have "Apply sha c (UpdateObject u) = Some (Some InvalidProof, c1)"
      "Apply sha db (UpdateObject u) = Some (Some InvalidProof, db)"
      by (auto simp: applyUserUpdate_def Prepare_def)
    with c1(2) show ?thesis by blast
  next
    case True
    have "set (map p_key (Records u)) \<subseteq> K" "\<forall>k \<in> set (map p_key (Records u)). prepared_for sha c1 k"
      using recs c1(3) [OF True] by auto
    from applyUpdate_light [OF c1(2) db this prog] True c1(1) db1 nin show ?thesis
      by (simp add: applyUserUpdate_def Prepare_def)
  qed
qed

end
