(* ===== verification/ProofProps.thy ===== *)
theory ProofProps
  imports Examples ServiceProofCorrect LightUpdates
begin

text \<open>The properties of proofs, of the nodes that check them, and of the proofs of the service.\<close>

section \<open>The inputs of the witnesses\<close>

definition demo_proof :: mproof where
  "demo_proof = (case Get_Proof demo_sha demo_db1 [1] of Some (Inr p) \<Rightarrow> p)"

definition demo_preimage_list :: "bytes list" where
  "demo_preimage_list = map (encode_toHash \<circ> dump_toHash)
     (p_root demo_proof # map step_left (p_steps demo_proof) @ map step_right (p_steps demo_proof))"

lemma demo_proof: "Get_Proof demo_sha demo_db1 [1] = Some (Inr demo_proof)" "p_key demo_proof = [1]"
  "Consistent demo_sha demo_proof = Some True" "d_label (p_root demo_proof) = tree_label demo_db1"
  by (rule Get_Proof_complete [OF demo_hash demo_db1(1) _ demo_secure, of "[1]"]; simp add: demo_proof_def)+

lemma demo_proof_secure:
  "secure_on demo_sha (hashed (arrays demo_db1) (root demo_db1) \<union> proof_preimages demo_proof)"
proof -
  have "proof_preimages demo_proof = set demo_preimage_list"
    by (auto simp: proof_preimages_def demo_preimage_list_def)
  moreover have "set demo_preimage_list \<subseteq> set demo_preimages" by code_simp
  ultimately show ?thesis using demo_secure by (simp add: demo_hashed Un_absorb2)
qed

text \<open>A node that knows only the Merkle root.\<close>

definition demo_light :: collection where
  "demo_light = \<lparr>root = unknown_node (tree_label demo_db1), coll_fields = demo_fields,
     coll_scope = scope_None empty_scope, autoCollect = \<lparr>flag_value = True\<rparr>, ongoing = False, tx_id = 0,
     arrays = empty_store\<rparr>"

lemma demo_light: "view_of demo_sha demo_light demo_db1"
  using demo_db1(1)
  by (simp add: view_of_def demo_light_def demo_db1(3) unknown_node_def new_node_def tree_label_def
      separated_def scope_ok_def scope_None_def empty_scope_def)

text \<open>A skipchain of two blocks.\<close>

definition demo_genesis :: "byte skipblock" where
  "demo_genesis = \<lparr>sb_Index = 0, sb_Hash = [1], sb_GenesisID = [], sb_Roster = Some 7, sb_MaximumHeight = 10,
     sb_BaseHeight = 10, sb_VerifierIDs = [], sb_Data = [],
     sb_ForwardLink = [\<lparr>fl_From = [1], fl_To = [2], fl_NewRoster = Some 8, fl_Signature = [7]\<rparr>]\<rparr>"

definition demo_latest :: "byte skipblock" where
  "demo_latest = demo_genesis\<lparr>sb_Index := 1, sb_Hash := [2], sb_GenesisID := [1], sb_Roster := Some 8,
     sb_ForwardLink := []\<rparr>"

definition demo_chain :: "bytes \<Rightarrow> byte skipblock option" where
  "demo_chain blockID =
     (if blockID = [1] then Some demo_genesis else if blockID = [2] then Some demo_latest else None)"

definition demo_link :: "byte forward_link \<Rightarrow> byte \<Rightarrow> bool" where
  "demo_link l r \<longleftrightarrow> fl_Signature l = [r]"

definition demo_header :: "bytes \<Rightarrow> service_error + data_header option" where
  "demo_header buf =
     Inr (Some \<lparr>CollectionRoot = buf, ClientTransactionHash = [], StateChangesHash = [], Timestamp = 0\<rparr>)"

lemma demo_chain_ok: "skipchain_ok demo_chain demo_link 1"
  by (auto simp: skipchain_ok_def demo_chain_def demo_genesis_def demo_latest_def demo_link_def
      next_roster_def split: if_splits)

section \<open>Proofs of the collection\<close>

text \<open>C4: On a full collection whose hashed nodes do not collide, a proof can be made for every nonempty
  key; it is consistent, has the Merkle root of the collection, and says of the key exactly what the
  collection stores: whether it is there (\<open>Match\<close>), and its values.\<close>

theorem honest_proof_complete:
  assumes "hash_ok sha" "full sha c" "k \<noteq> []" "secure_on sha (hashed (arrays c) (root c))"
  shows "\<exists>p. Get_Proof sha c k = Some (Inr p) \<and> Consistent sha p = Some True \<and>
    d_label (p_root p) = tree_label c \<and> Match sha p = Some (kv c k \<noteq> None) \<and>
    RawValues sha p = Some (case kv c k of None \<Rightarrow> Inl NoMatch | Some vs \<Rightarrow> Inr vs)"
  by (rule Get_Proof_complete [OF assms]) blast

theorem honest_proof_complete_witness:
  "(\<exists>p. Get_Proof demo_sha demo_db1 [1] = Some (Inr p) \<and> Consistent demo_sha p = Some True \<and>
      RawValues demo_sha p = Some (Inr [put_uint64 5, [7]])) \<and>
   (\<exists>p. Get_Proof demo_sha demo_db1 [2] = Some (Inr p) \<and> Consistent demo_sha p = Some True \<and>
      Match demo_sha p = Some False)"
  using honest_proof_complete [OF demo_hash demo_db1(1) _ demo_secure, of "[1]"]
    honest_proof_complete [OF demo_hash demo_db1(1) _ demo_secure, of "[2]"]
  by (auto simp: demo_db1(2))

text \<open>C5: Whoever made it, a consistent proof with the Merkle root of a full collection tells the truth
  about its key: \<open>Match\<close> says whether the key is in the collection, and the values are those stored.
  The only assumption is that the hash function does not collide on the nodes of the collection and of
  the proof, and never gives the zero digest there.\<close>

theorem proof_soundness:
  assumes "hash_ok sha" "full sha c" "p_key p \<noteq> []"
    and "secure_on sha (hashed (arrays c) (root c) \<union> proof_preimages p)"
    and "Consistent sha p = Some True" "d_label (p_root p) = tree_label c"
  shows "Match sha p = Some (kv c (p_key p) \<noteq> None) \<and>
    RawValues sha p = Some (case kv c (p_key p) of None \<Rightarrow> Inl NoMatch | Some vs \<Rightarrow> Inr vs)"
  by (rule proof_sound [OF assms])

theorem proof_soundness_witness:
  "Match demo_sha demo_proof = Some True \<and> RawValues demo_sha demo_proof = Some (Inr [put_uint64 5, [7]])"
  using proof_soundness [OF demo_hash demo_db1(1) _ demo_proof_secure demo_proof(3,4)]
  by (simp add: demo_proof(2) demo_db1(2))

text \<open>C8: A node that keeps only part of a full collection (at the least its Merkle root) absorbs proofs
  with \<open>Verify\<close>. It accepts exactly the consistent proofs with its root; a refused proof changes
  nothing; after any proof, honest or not, what it knows is still part of the full collection, and
  after an accepted one \<open>Get\<close> answers for the key what the full collection stores.\<close>

theorem verifier_refines:
  assumes "hash_ok sha" "view_of sha c db" "p_key p \<noteq> []"
    and "secure_on sha (hashed (arrays db) (root db) \<union> proof_preimages p)"
  shows "\<exists>ok c'. Verify sha c p = Some (ok, c') \<and> view_of sha c' db \<and>
    (ok \<longleftrightarrow> d_label (p_root p) = tree_label c \<and> Consistent sha p = Some True) \<and> (\<not> ok \<longrightarrow> c' = c) \<and>
    (ok \<longrightarrow> Get_Record sha c' (p_key p) = Some (Inr (record_of c' (p_key p) (kv db (p_key p)))))"
proof -
  obtain ok c' where r: "Verify sha c p = Some (ok, c')" "view_of sha c' db"
    "ok \<longleftrightarrow> d_label (p_root p) = tree_label c \<and> Consistent sha p = Some True" "\<not> ok \<Longrightarrow> c' = c"
    "ok \<Longrightarrow> lookup sha (arrays c') 0 (p_key p) (root c') = Some (kv db (p_key p))"
    using Verify_view [OF assms] by metis
  with Get_Record_lookup [OF assms(1) view_of_ok(1) [OF r(2)] assms(3)] show ?thesis by auto
qed

theorem verifier_refines_witness:
  "\<exists>c'. Verify demo_sha demo_light demo_proof = Some (True, c') \<and> view_of demo_sha c' demo_db1 \<and>
     Get_Record demo_sha c' [1] = Some (Inr (record_of c' [1] (Some [put_uint64 5, [7]])))"
  using verifier_refines [OF demo_hash demo_light _ demo_proof_secure] view_of_ok(2) [OF demo_light]
  by (auto simp: demo_proof demo_db1(2))

text \<open>C9: Writes on a node that keeps only part of a full collection. A write (\<open>Add\<close>, \<open>Set\<close>, \<open>SetField\<close> or
  \<open>Remove\<close>) either asks for a proof and changes nothing, or gives the answer it gives on the full
  collection, and the node keeps part of the result there. After a proof of the key that is consistent and
  has the current root, it never asks for one. So a node that knows nothing but the Merkle root, and is
  given a proof with every write, has the root of the full collection after each.\<close>

theorem light_node_follows:
  assumes "kept sha K db" "view_of sha c db" "write_ok K (coll_fields db) w"
    and "p_key p = written_key w" "secure_on sha (hashed (arrays db) (root db) \<union> proof_preimages p)"
    and "Consistent sha p = Some True" "d_label (p_root p) = tree_label c"
  shows "(run_write sha c w = Some (Some ProofNeeded, c) \<or>
      (\<exists>answer c' db'. run_write sha c w = Some (answer, c') \<and> run_write sha db w = Some (answer, db') \<and>
         view_of sha c' db')) \<and>
    (\<exists>c1 answer c' db'. Verify sha c p = Some (True, c1) \<and> run_write sha c1 w = Some (answer, c') \<and>
       run_write sha db w = Some (answer, db') \<and> view_of sha c' db' \<and> tree_label c' = tree_label db')"
proof
  have follows: "follows sha x db (prepared_for sha x (written_key w)) (run_write sha x w) (run_write sha db w)"
    if "view_of sha x db" for x
    by (rule write_follows [OF assms(1) _ assms(3)]) (use that in \<open>simp add: view_of_part\<close>)
  have closed: "view_of sha c' db'" if "part_of sha c' db'" "ongoing c' = ongoing x" "view_of sha x db" for c' db' x
    using that by (simp add: view_of_part)
  show "run_write sha c w = Some (Some ProofNeeded, c) \<or>
      (\<exists>answer c' db'. run_write sha c w = Some (answer, c') \<and> run_write sha db w = Some (answer, db') \<and>
         view_of sha c' db')"
    using follows [OF assms(2)] closed [OF _ _ assms(2)] unfolding follows_def by blast
  have hash: "hash_ok sha" and k: "p_key p \<noteq> []"
    using assms(1,3,4) by (auto simp: kept_def) (cases w; auto)
  obtain c1 where c1: "Verify sha c p = Some (True, c1)" "view_of sha c1 db" "prepared_for sha c1 (written_key w)"
    using Verify_view [OF hash assms(2) k assms(5)] assms(4,6,7) by (metis prepared_for_def)
  then obtain answer c' db' where "run_write sha c1 w = Some (answer, c')" "run_write sha db w = Some (answer, db')"
    "view_of sha c' db'"
    using follows [OF c1(2)] closed [OF _ _ c1(2)] unfolding follows_def by blast
  with c1 view_of_ok(2) [OF this(3)]
  show "\<exists>c1 answer c' db'. Verify sha c p = Some (True, c1) \<and> run_write sha c1 w = Some (answer, c') \<and>
       run_write sha db w = Some (answer, db') \<and> view_of sha c' db' \<and> tree_label c' = tree_label db'" by blast
qed

theorem light_node_follows_witness:
  "\<exists>c1 c' db'. Verify demo_sha demo_light demo_proof = Some (True, c1) \<and>
     Set demo_sha c1 [1] [GUint64 9, GSame] = Some (None, c') \<and>
     Set demo_sha demo_db1 [1] [GUint64 9, GSame] = Some (None, db') \<and> tree_label c' = tree_label db'"
proof -
  let ?w = "WSet [1] [GUint64 9, GSame]"
  have ok: "write_ok {[1], [2], [3]} (coll_fields demo_db1) ?w" using demo_encodable by (simp add: demo_db1(3))
  obtain db1 where "run_write demo_sha demo_db1 ?w = Some (None, db1)"
    using run_write_spec [OF demo_kept1 ok] by (auto simp: spec_set_def demo_db1(2))
  with light_node_follows [OF demo_kept1 demo_light ok _ demo_proof_secure demo_proof(3)] demo_proof(2,4)
    view_of_ok(2) [OF demo_light] show ?thesis by auto
qed

section \<open>Updates\<close>

text \<open>C11: A user-defined update, given to \<open>Apply\<close> on a full collection outside a transaction. If one of its
  proofs is not a consistent proof with the root of the collection, it is refused and nothing changes.
  Otherwise its check sees what the collection stores under the keys of the proofs; if the check says
  no, the update is refused and nothing changes; if it says yes, the update's calls have on the
  collection the effect they have on a plain map, with the same answers, and the transaction is closed.
  A check or a program that touches any other key makes \<open>Apply\<close> panic.\<close>

theorem update_refines_map:
  assumes "kept sha K c" "\<not> ongoing c"
    and "\<forall>p \<in> set (Records u). p_key p \<in> K \<and>
      secure_on sha (hashed (arrays c) (root c) \<union> proof_preimages p)"
    and "check_ok K (Check u)" "apply_ok K (coll_fields c) (Apply_prog u)"
  shows "let D = p_key ` set (Records u); res = Apply sha c (UpdateObject u) in
    if \<exists>p \<in> set (Records u). d_label (p_root p) \<noteq> tree_label c \<or> Consistent sha p \<noteq> Some True
    then res = Some (Some InvalidProof, c)
    else
      (case spec_check (coll_fields c) D (kv c) (Check u) of
         None \<Rightarrow> res = None
       | Some False \<Rightarrow> res = Some (Some UpdateCheckFailed, c)
       | Some True \<Rightarrow>
           (case spec_apply (coll_fields c) D (Apply_prog u) (kv c) of
              None \<Rightarrow> res = None
            | Some m \<Rightarrow> \<exists>c'. res = Some (None, c') \<and> full sha c' \<and> kv c' = m))"
proof (cases "\<forall>p \<in> set (Records u). accepted sha c p")
  case True
  with Apply_spec [OF assms]
  have "applied sha K c (p_key ` set (Records u)) u (Apply sha c (UpdateObject u))" by simp
  with True assms(2) show ?thesis
    by (auto simp: Let_def accepted_def applied_def kept_def full_whole split: option.splits bool.splits)
next
  case False
  with Apply_spec [OF assms] have "Apply sha c (UpdateObject u) = Some (Some InvalidProof, c)"
    by (simp del: Apply.simps)
  with False show ?thesis by (auto simp: Let_def accepted_def simp del: Apply.simps)
qed

definition demo_update :: user_update where
  "demo_update = \<lparr>Records = [demo_proof], Check = CheckGet [1] (\<lambda>r. CheckReturn (rec_match r)),
     Apply_prog = CallSet [1] [GUint64 9, GSame] (\<lambda>e. ApplyReturn)\<rparr>"

text \<open>An update that also removes a key it has not declared.\<close>

definition demo_greedy :: user_update where
  "demo_greedy = demo_update\<lparr>Apply_prog := CallRemove [2] (\<lambda>e. ApplyReturn)\<rparr>"

lemma demo_programs:
  "check_ok {[1], [2], [3]} (Check demo_update)" "check_ok {[1], [2], [3]} (Check demo_greedy)"
  "apply_ok {[1], [2], [3]} (coll_fields demo_db1) (Apply_prog demo_update)"
  "apply_ok {[1], [2], [3]} (coll_fields demo_db1) (Apply_prog demo_greedy)"
  using demo_encodable by (simp_all add: demo_update_def demo_greedy_def demo_db1(3))

lemma demo_merged: "merged demo_fields [GUint64 9, GSame] [put_uint64 5, [7]] = Some [put_uint64 9, [7]]"
  by (simp add: demo_fields_def Stake64_def Stake64_Encode_def)

theorem update_refines_map_witness:
  "(\<exists>c'. Apply demo_sha demo_db1 (UpdateObject demo_update) = Some (None, c') \<and>
     full demo_sha c' \<and> kv c' = [[1] \<mapsto> [put_uint64 9, [7]]]) \<and>
   Apply demo_sha demo_db1 (UpdateObject demo_greedy) = None"
proof -
  have tx: "\<not> ongoing demo_db1" using demo_db1(1) by (simp add: full_def)
  have recs: "Records demo_update = [demo_proof]" "Records demo_greedy = [demo_proof]"
    by (simp_all add: demo_update_def demo_greedy_def)
  note u = update_refines_map [OF demo_kept1 tx]
  show ?thesis
    using u [of demo_update] u [of demo_greedy] demo_proof demo_proof_secure demo_programs
    unfolding recs
    by (simp add: Let_def demo_db1(2,3) demo_update_def demo_greedy_def map_record_def spec_set_def demo_merged
        del: Apply.simps)
qed

text \<open>C12: An update on a node that keeps only part of a full collection (at the least its Merkle root). The
  proofs of the update are all it needs: \<open>Apply\<close> panics there if and only if it panics on the full
  collection; otherwise it gives the same answer, be it a refused proof, a refused check or success, and
  the node keeps part of what the full collection has become, with its Merkle root. The update's check and
  its calls see the same records and the same answers in both, the calls being made in a transaction in
  which the labels and values above the written leaves are stale until \<open>End\<close> has fixed them.\<close>

theorem light_update_follows:
  assumes "kept sha K db" "view_of sha c db"
    and "\<forall>p \<in> set (Records u). p_key p \<in> K \<and>
      secure_on sha (hashed (arrays db) (root db) \<union> proof_preimages p)"
    and "check_ok K (Check u)" "apply_ok K (coll_fields db) (Apply_prog u)"
  shows "Apply sha c (UpdateObject u) = None \<and> Apply sha db (UpdateObject u) = None \<or>
    (\<exists>answer c' db'. Apply sha c (UpdateObject u) = Some (answer, c') \<and>
       Apply sha db (UpdateObject u) = Some (answer, db') \<and>
       view_of sha c' db' \<and> tree_label c' = tree_label db')"
  using Apply_light [OF assms(2,1,3-5)] view_of_ok(2) by blast

theorem light_update_follows_witness:
  "(\<exists>c' db'. Apply demo_sha demo_light (UpdateObject demo_update) = Some (None, c') \<and>
     Apply demo_sha demo_db1 (UpdateObject demo_update) = Some (None, db') \<and>
     tree_label c' = tree_label db' \<and> kv db' = [[1] \<mapsto> [put_uint64 9, [7]]]) \<and>
   Apply demo_sha demo_light (UpdateObject demo_greedy) = None"
proof -
  have tx: "\<not> ongoing demo_db1" using demo_db1(1) by (simp add: full_def)
  note light = light_update_follows [OF demo_kept1 demo_light]
  note on_db = Apply_spec [OF demo_kept1 tx]
  have recs: "\<forall>p \<in> set (Records demo_update). p_key p \<in> {[1], [2], [3]} \<and>
      secure_on demo_sha (hashed (arrays demo_db1) (root demo_db1) \<union> proof_preimages p)"
    "\<forall>p \<in> set (Records demo_greedy). p_key p \<in> {[1], [2], [3]} \<and>
      secure_on demo_sha (hashed (arrays demo_db1) (root demo_db1) \<union> proof_preimages p)"
    using demo_proof(2) demo_proof_secure by (simp_all add: demo_update_def demo_greedy_def)
  have acc: "accepted demo_sha demo_db1 demo_proof" using demo_proof(3,4) by (simp add: accepted_def)
  obtain db' where "Apply demo_sha demo_db1 (UpdateObject demo_update) = Some (None, db')"
    "kv db' = [[1] \<mapsto> [put_uint64 9, [7]]]"
    using on_db [OF recs(1) demo_programs(1,3)] acc demo_proof(2)
    by (auto simp: applied_def demo_db1(2,3) demo_update_def map_record_def spec_set_def demo_merged simp del: Apply.simps)
  moreover have "Apply demo_sha demo_db1 (UpdateObject demo_greedy) = None"
    using on_db [OF recs(2) demo_programs(2,4)] acc demo_proof(2)
    by (simp add: applied_def demo_db1(2,3) demo_update_def demo_greedy_def map_record_def del: Apply.simps)
  ultimately show ?thesis
    using light [OF recs(1) demo_programs(1,3)] light [OF recs(2) demo_programs(2,4)] by (auto simp del: Apply.simps)
qed

section \<open>Proofs of the service\<close>

text \<open>C14: Over a well-formed skipchain whose headers have the root the service writes (the empty one),
  \<open>NewProof\<close> ends and succeeds for every nonempty key, the proof passes \<open>Verify\<close> against the ID of the
  skipchain, and \<open>KeyValue\<close> gives what the collection stores.\<close>

theorem service_proof_verifies:
  assumes "hash_ok sha" "full sha (cdb_coll c)" "k \<noteq> []"
    and "secure_on sha (hashed (arrays (cdb_coll c)) (root (cdb_coll c)))"
    and "skipchain_ok getByID verify_link N" "getByID scID = Some sb"
    and "\<And>b blockID. getByID blockID = Some b \<Longrightarrow> \<exists>h. unmarshal (sb_Data b) = Inr (Some h) \<and> CollectionRoot h = []"
  shows "\<exists>p. NewProof sha c getByID scID k = Some (Inr p) \<and>
    service_Verify sha unmarshal verify_link p scID = Some None \<and>
    KeyValue sha p = Some (case kv (cdb_coll c) k of None \<Rightarrow> Inl NoMatch | Some vs \<Rightarrow> Inr (k, vs))"
  by (rule NewProof_verifies [where unmarshal = unmarshal and getByID = getByID]) (fact assms)+

theorem service_proof_verifies_witness:
  "\<exists>p. NewProof demo_sha \<lparr>cdb_bucket = [], cdb_coll = demo_db1\<rparr> demo_chain [1] [1] = Some (Inr p) \<and>
     service_Verify demo_sha demo_header demo_link p [1] = Some None \<and>
     KeyValue demo_sha p = Some (Inr ([1], [put_uint64 5, [7]]))"
proof -
  let ?c = "\<lparr>cdb_bucket = [], cdb_coll = demo_db1\<rparr>"
  have "\<exists>p. NewProof demo_sha ?c demo_chain [1] [1] = Some (Inr p) \<and>
      service_Verify demo_sha demo_header demo_link p [1] = Some None \<and>
      KeyValue demo_sha p =
        Some (case kv (cdb_coll ?c) [1] of None \<Rightarrow> Inl NoMatch | Some vs \<Rightarrow> Inr ([1], vs))"
  proof (rule service_proof_verifies [where unmarshal = demo_header and getByID = demo_chain,
        OF demo_hash _ _ _ demo_chain_ok])
    show "\<exists>h. demo_header (sb_Data b) = Inr (Some h) \<and> CollectionRoot h = []"
      if "demo_chain blockID = Some b" for b blockID
      using that
      by (auto simp: demo_chain_def demo_genesis_def demo_latest_def demo_header_def split: if_splits)
  qed (simp_all add: demo_db1(1) demo_secure demo_chain_def)
  then show ?thesis by (simp add: demo_db1(2))
qed

text \<open>C15: What \<open>Verify\<close> of the service accepts, exactly: a consistent proof whose root node has the key
  the header calls the collection root, and a list of links of which each after the first starts where
  the one before ends and is signed by the roster then in force, the first of them starting at the ID of
  the skipchain under the roster of the first link. Neither the first link nor the last one is compared
  with anything else: the latest block need not be the one the links lead to.\<close>

theorem service_verify_characterised:
  "service_Verify sha unmarshal verify_link p scID = Some None \<longleftrightarrow>
     Consistent sha (InclusionProof p) = Some True \<and>
     (\<exists>h. unmarshal (sb_Data (Latest p)) = Inr (Some h) \<and>
        CollectionRoot h = TreeRootHash (InclusionProof p)) \<and>
     (Links p = [] \<or> (\<exists>r. fl_NewRoster (hd (Links p)) = Some r \<and>
        linked verify_link scID r (tl (Links p))))"
  by (rule service_Verify_iff)

text \<open>C35: The proof of the service does not bind the collection to the block: from any full collection
  whatever one can make a proof that is accepted for any block and any skipchain, and that says what
  this collection stores. The code compares the header with the key of the root node, which no hash
  covers, instead of its label.\<close>

theorem forged_root_accepted:
  assumes "hash_ok sha" "full sha c" "k \<noteq> []" "secure_on sha (hashed (arrays c) (root c))"
    and "unmarshal (sb_Data latest) = Inr (Some h)"
  shows "\<exists>p. service_Verify sha unmarshal verify_link p scID = Some None \<and> Latest p = latest \<and>
    KeyValue sha p = Some (case kv c k of None \<Rightarrow> Inl NoMatch | Some vs \<Rightarrow> Inr (k, vs))"
  by (rule any_contents_accepted [where unmarshal = unmarshal]) (fact assms)+

theorem forged_root_accepted_witness:
  "\<exists>p. service_Verify demo_sha demo_header demo_link p [9] = Some None \<and>
     Latest p = demo_latest\<lparr>sb_Data := [4, 2]\<rparr> \<and>
     KeyValue demo_sha p = Some (Inr ([1], [put_uint64 5, [7]]))"
proof -
  have "demo_header (sb_Data (demo_latest\<lparr>sb_Data := [4, 2]\<rparr>)) =
    Inr (Some \<lparr>CollectionRoot = [4, 2], ClientTransactionHash = [], StateChangesHash = [], Timestamp = 0\<rparr>)"
    by (simp add: demo_header_def)
  from forged_root_accepted [where unmarshal = demo_header and k = "[1]" and scID = "[9]"
      and verify_link = demo_link, OF demo_hash demo_db1(1) _ demo_secure this]
  show ?thesis by (simp add: demo_db1(2))
qed

end
