(* ===== verification/ExprCorrect.thy ===== *)
theory ExprCorrect
  imports Expression
begin

text \<open>
  The language of expressions and its meaning: operators of equal precedence, applied from left to
  right. Parsing the text of an expression gives its value, so \<open>InitAndExpr\<close> asks for all ids and
  \<open>InitOrExpr\<close> for one of them.
\<close>

datatype evalue = VId bytes | VGroup evalue etail
  and etail = ENil | EAnd evalue etail | EOr evalue etail

primrec eval_value :: "(bytes \<Rightarrow> bool) \<Rightarrow> evalue \<Rightarrow> bool"
  and eval_tail :: "(bytes \<Rightarrow> bool) \<Rightarrow> etail \<Rightarrow> bool \<Rightarrow> bool"
where
  "eval_value g (VId i) = g i"
| "eval_value g (VGroup v t) = eval_tail g t (eval_value g v)"
| "eval_tail g ENil b = b"
| "eval_tail g (EAnd v t) b = eval_tail g t (b \<and> eval_value g v)"
| "eval_tail g (EOr v t) b = eval_tail g t (b \<or> eval_value g v)"

primrec show_value :: "evalue \<Rightarrow> bytes" and show_tail :: "etail \<Rightarrow> bytes"
where
  "show_value (VId i) = i"
| "show_value (VGroup v t) = [0x28] @ show_value v @ show_tail t @ [0x29]"
| "show_tail ENil = []"
| "show_tail (EAnd v t) = [0x20, 0x26, 0x20] @ show_value v @ show_tail t"
| "show_tail (EOr v t) = [0x20, 0x7c, 0x20] @ show_value v @ show_tail t"

text \<open>Well-formed ids: what \<open>token_id\<close> reads in one go.\<close>

definition id_ok :: "bytes \<Rightarrow> bool" where
  "id_ok i \<longleftrightarrow> (\<exists>name hex. i = name @ [0x3a] @ hex \<and> name \<noteq> [] \<and> hex \<noteq> [] \<and>
     list_all is_alnum name \<and> list_all is_hex hex)"

primrec value_ok :: "evalue \<Rightarrow> bool" and tail_ok :: "etail \<Rightarrow> bool"
where
  "value_ok (VId i) = id_ok i"
| "value_ok (VGroup v t) = (value_ok v \<and> tail_ok t)"
| "tail_ok ENil = True"
| "tail_ok (EAnd v t) = (value_ok v \<and> tail_ok t)"
| "tail_ok (EOr v t) = (value_ok v \<and> tail_ok t)"

primrec value_ids :: "evalue \<Rightarrow> bytes set" and tail_ids :: "etail \<Rightarrow> bytes set"
where
  "value_ids (VId i) = {i}"
| "value_ids (VGroup v t) = value_ids v \<union> tail_ids t"
| "tail_ids ENil = {}"
| "tail_ids (EAnd v t) = value_ids v \<union> tail_ids t"
| "tail_ids (EOr v t) = value_ids v \<union> tail_ids t"

section \<open>Tokens\<close>

lemma alnum_not_ws: "is_alnum b \<Longrightarrow> \<not> is_ws b"
  by (auto simp: is_alnum_def is_ws_def)

lemma colon_class: "\<not> is_alnum 0x3a" "\<not> is_ws 0x3a" "\<not> is_hex 0x3a"
  by (simp_all add: is_alnum_def is_ws_def is_hex_def)

lemma ws_space [simp]: "is_ws 0x20"
  by (simp add: is_ws_def)

lemma SkipWS_space [simp]: "SkipWS (0x20 # s) = SkipWS s"
  by (simp add: SkipWS_def)

lemma SkipWS_nonws: "\<not> is_ws b \<Longrightarrow> SkipWS (b # s) = b # s"
  by (simp add: SkipWS_def)

lemma SkipWS_Nil [simp]: "SkipWS [] = []"
  by (simp add: SkipWS_def)

lemma SkipWS_ops [simp]:
  "SkipWS (0x26 # s) = 0x26 # s" "SkipWS (0x7c # s) = 0x7c # s"
  "SkipWS (0x28 # s) = 0x28 # s" "SkipWS (0x29 # s) = 0x29 # s"
  by (simp_all add: SkipWS_nonws is_ws_def)

lemma token_id_show:
  assumes "id_ok i" "rest = [] \<or> \<not> is_hex (hd rest)"
  shows "token_id (i @ rest) = Some (i, rest)" "token_id (0x20 # i @ rest) = Some (i, rest)"
    "\<exists>b t. i = b # t \<and> is_alnum b"
proof -
  obtain name hex where i: "i = name @ [0x3a] @ hex" "name \<noteq> []" "hex \<noteq> []" "list_all is_alnum name"
    "list_all is_hex hex"
    using assms(1) by (auto simp: id_ok_def)
  obtain b t where n: "name = b # t" "is_alnum b" using i(2,4) by (cases name) auto
  have ws: "SkipWS (i @ rest) = i @ rest"
    using n i(1) alnum_not_ws by (simp add: SkipWS_nonws)
  have a: "takeWhile is_alnum (i @ rest) = name" "dropWhile is_alnum (i @ rest) = 0x3a # hex @ rest"
    using i(1,4) colon_class by (auto simp: list_all_iff takeWhile_append2 dropWhile_append2)
  have h: "takeWhile is_hex (hex @ rest) = hex" "dropWhile is_hex (hex @ rest) = rest"
    using i(5) assms(2) by (cases rest; auto simp: list_all_iff takeWhile_append2 dropWhile_append2)+
  show "token_id (i @ rest) = Some (i, rest)"
    using i(2,3) a h by (simp add: token_id_def ws) (simp add: i(1))
  then show "token_id (0x20 # i @ rest) = Some (i, rest)" by (simp add: token_id_def)
  show "\<exists>b t. i = b # t \<and> is_alnum b" using n i(1) by simp
qed

lemma token_id_open: "token_id (0x28 # s) = None" "token_id (0x20 # 0x28 # s) = None"
  by (simp_all add: token_id_def is_alnum_def)

lemma token_char_self [simp]:
  "token_char 0x28 (0x28 # s) = Some s" "token_char 0x28 (0x20 # 0x28 # s) = Some s"
  "token_char 0x29 (0x29 # s) = Some s" "token_char 0x26 (0x20 # 0x26 # s) = Some s"
  "token_char 0x7c (0x20 # 0x7c # s) = Some s" "token_char 0x26 (0x20 # 0x7c # s) = None"
  by (simp_all add: token_char_def)

definition ends :: "bytes \<Rightarrow> bool" where
  "ends rest \<longleftrightarrow> rest = [] \<or> (\<exists>r. rest = 0x29 # r)"

lemma ends_simps [simp]: "ends []" "ends (0x29 # r)"
  by (simp_all add: ends_def)

lemma show_tail_not_hex:
  "ends rest \<Longrightarrow> show_tail t @ rest = [] \<or> \<not> is_hex (hd (show_tail t @ rest))"
  by (cases t) (auto simp: ends_def is_hex_def)

lemma ends_no_op: "ends rest \<Longrightarrow> token_char 0x26 rest = None \<and> token_char 0x7c rest = None"
  by (auto simp: ends_def token_char_def)

section \<open>Parsing what was shown\<close>

text \<open>With the fuel \<open>parse_enough\<close> asks for, a value is read, with or without a space before it.\<close>

lemma parse_show:
  "\<forall>i \<in> value_ids v. fn i = Some (g i) \<Longrightarrow> value_ok v \<Longrightarrow> rest = [] \<or> \<not> is_hex (hd rest) \<Longrightarrow> 3 * length (show_value v) + 2 \<le> n \<Longrightarrow>
      parse_value fn n (show_value v @ rest) = Parsed (eval_value g v) rest \<and>
      parse_value fn n (0x20 # show_value v @ rest) = Parsed (eval_value g v) rest"
  "\<forall>i \<in> tail_ids t. fn i = Some (g i) \<Longrightarrow> tail_ok t \<Longrightarrow> ends rest \<Longrightarrow> 3 * length (show_tail t) + 1 \<le> n \<Longrightarrow>
      parse_rest fn n b (show_tail t @ rest) = Parsed (eval_tail g t b) rest"
proof (induction v and t arbitrary: rest n and rest n b)
  case (VId i)
  then obtain m where "n = Suc m" by (cases n) auto
  with VId token_id_show [of i rest] show ?case by simp
next
  case (VGroup v t)
  then obtain m where n: "n = Suc (Suc m)" by (cases n; cases "n - 1") auto
  have "parse_value fn m (show_value v @ show_tail t @ 0x29 # rest) =
      Parsed (eval_value g v) (show_tail t @ 0x29 # rest)"
    using VGroup n show_tail_not_hex [of "0x29 # rest" t] by (intro VGroup.IH(1) [THEN conjunct1]) auto
  moreover have "parse_rest fn m (eval_value g v) (show_tail t @ 0x29 # rest) =
      Parsed (eval_tail g t (eval_value g v)) (0x29 # rest)"
    using VGroup n by (intro VGroup.IH(2)) auto
  ultimately show ?case by (simp add: n token_id_open)
next
  case ENil
  then show ?case using ends_no_op by (cases n) auto
next
  case (EAnd v t)
  then obtain m where n: "n = Suc m" by (cases n) auto
  have "parse_value fn m (0x20 # show_value v @ show_tail t @ rest) = Parsed (eval_value g v) (show_tail t @ rest)"
    using EAnd n show_tail_not_hex [of rest t] by (intro EAnd.IH(1) [THEN conjunct2]) auto
  moreover have "parse_rest fn m (b \<and> eval_value g v) (show_tail t @ rest) =
      Parsed (eval_tail g t (b \<and> eval_value g v)) rest"
    using EAnd n by (intro EAnd.IH(2)) auto
  ultimately show ?case by (simp add: n)
next
  case (EOr v t)
  then obtain m where n: "n = Suc m" by (cases n) auto
  have "parse_value fn m (0x20 # show_value v @ show_tail t @ rest) = Parsed (eval_value g v) (show_tail t @ rest)"
    using EOr n show_tail_not_hex [of rest t] by (intro EOr.IH(1) [THEN conjunct2]) auto
  moreover have "parse_rest fn m (b \<or> eval_value g v) (show_tail t @ rest) =
      Parsed (eval_tail g t (b \<or> eval_value g v)) rest"
    using EOr n by (intro EOr.IH(2)) auto
  ultimately show ?case by (simp add: n)
qed

lemma Evaluate_show:
  assumes "value_ok v" "tail_ok t" "\<forall>i \<in> value_ids v \<union> tail_ids t. fn i = Some (g i)"
  shows "Evaluate fn (show_value v @ show_tail t) = Some (Inr (eval_tail g t (eval_value g v)))"
proof -
  let ?s = "show_value v @ show_tail t"
  obtain m where m: "parse_fuel ?s = Suc m" "3 * length ?s + 2 \<le> m" by (auto simp: parse_fuel_def)
  have "parse_value fn m (show_value v @ show_tail t) = Parsed (eval_value g v) (show_tail t)"
    using parse_show(1) [of v fn g "show_tail t" m] assms show_tail_not_hex [of "[]" t] m by simp
  moreover have "parse_rest fn m (eval_value g v) (show_tail t @ []) =
      Parsed (eval_tail g t (eval_value g v)) []"
    using assms m by (intro parse_show(2)) auto
  ultimately show ?thesis by (simp add: Evaluate_def m(1))
qed

section \<open>Conjunctions and disjunctions of ids\<close>

fun and_tail :: "bytes list \<Rightarrow> etail" where
  "and_tail [] = ENil"
| "and_tail (i # is) = EAnd (VId i) (and_tail is)"

fun or_tail :: "bytes list \<Rightarrow> etail" where
  "or_tail [] = ENil"
| "or_tail (i # is) = EOr (VId i) (or_tail is)"

lemma InitAndExpr_show: "InitAndExpr (i # is) = show_value (VId i) @ show_tail (and_tail is)"
  by (induction "is" arbitrary: i) (auto simp: InitAndExpr_def)

lemma InitOrExpr_show: "InitOrExpr (i # is) = show_value (VId i) @ show_tail (or_tail is)"
  by (induction "is" arbitrary: i) (auto simp: InitOrExpr_def)

lemma and_tail_eval: "eval_tail g (and_tail is) b = (b \<and> (\<forall>i \<in> set is. g i))"
  by (induction "is" arbitrary: b) auto

lemma or_tail_eval: "eval_tail g (or_tail is) b = (b \<or> (\<exists>i \<in> set is. g i))"
  by (induction "is" arbitrary: b) auto

lemma tails_ok: "list_all id_ok is \<Longrightarrow> tail_ok (and_tail is) \<and> tail_ok (or_tail is)"
  by (induction "is") auto

lemma tails_ids: "tail_ids (and_tail is) = set is" "tail_ids (or_tail is) = set is"
  by (induction "is") auto

lemma Evaluate_InitAndExpr:
  assumes "ids \<noteq> []" "list_all id_ok ids" "\<forall>i \<in> set ids. fn i = Some (g i)"
  shows "Evaluate fn (InitAndExpr ids) = Some (Inr (\<forall>i \<in> set ids. g i))"
proof (cases ids)
  case (Cons i "is")
  have "Evaluate fn (show_value (VId i) @ show_tail (and_tail is)) =
      Some (Inr (eval_tail g (and_tail is) (eval_value g (VId i))))"
    using assms Cons tails_ok by (intro Evaluate_show) (auto simp: tails_ids)
  with Cons show ?thesis by (simp only: InitAndExpr_show) (simp add: and_tail_eval)
qed (use assms in simp)

lemma Evaluate_InitOrExpr:
  assumes "ids \<noteq> []" "list_all id_ok ids" "\<forall>i \<in> set ids. fn i = Some (g i)"
  shows "Evaluate fn (InitOrExpr ids) = Some (Inr (\<exists>i \<in> set ids. g i))"
proof (cases ids)
  case (Cons i "is")
  have "Evaluate fn (show_value (VId i) @ show_tail (or_tail is)) =
      Some (Inr (eval_tail g (or_tail is) (eval_value g (VId i))))"
    using assms Cons tails_ok by (intro Evaluate_show) (auto simp: tails_ids)
  with Cons show ?thesis by (simp only: InitOrExpr_show) (simp add: or_tail_eval)
qed (use assms in simp)

lemma Evaluate_empty: "Evaluate fn [] = Some (Inl FailedToCast)"
  by (simp add: Evaluate_def parse_fuel_def numeral_eq_Suc token_id_def token_char_def SkipWS_def)

end
