(* ===== verification/Delegation.thy ===== *)
theory Delegation
  imports DarcCorrect
begin

text \<open>
  The evaluation of expressions with delegation. More fuel does not change an answer. Where the
  delegation from darc to darc is well founded, \<open>evalExpr\<close> answers with fuel above the rank of the
  darcs an expression can name; a darc that delegates to itself makes it recurse for ever.
\<close>

section \<open>The parser and its callback\<close>

definition extends :: "(bytes \<Rightarrow> bool option) \<Rightarrow> (bytes \<Rightarrow> bool option) \<Rightarrow> bool" where
  "extends fn fn' \<longleftrightarrow> (\<forall>i b. fn i = Some b \<longrightarrow> fn' i = Some b)"

lemma parse_extends:
  assumes "extends fn fn'"
  shows "parse_value fn n s \<noteq> Diverges \<Longrightarrow> parse_value fn' n s = parse_value fn n s"
    "parse_sum fn n s \<noteq> Diverges \<Longrightarrow> parse_sum fn' n s = parse_sum fn n s"
    "parse_rest fn n v s \<noteq> Diverges \<Longrightarrow> parse_rest fn' n v s = parse_rest fn n v s"
  using assms
proof (induction fn n s and fn n s and fn n v s rule: parse_value_parse_sum_parse_rest.induct)
  case (2 fn n s)
  then show ?case
    by (auto simp: extends_def split: option.splits outcome.splits prod.splits)
next
  case (4 fn n s)
  then show ?case by (auto split: outcome.splits)
next
  case (6 fn n val s)
  then show ?case by (auto split: option.splits outcome.splits)
qed auto

lemma Evaluate_extends:
  "extends fn fn' \<Longrightarrow> Evaluate fn e = Some r \<Longrightarrow> Evaluate fn' e = Some r"
  using parse_extends(2) [of fn fn' "parse_fuel e" e]
  by (auto simp: Evaluate_def split: outcome.splits)

text \<open>The callback is only asked about ids that occur in the expression.\<close>

definition occurs :: "bytes \<Rightarrow> bytes \<Rightarrow> bool" where
  "occurs i e \<longleftrightarrow> (\<exists>xs ys. e = xs @ i @ ys)"

definition suffix_of :: "bytes \<Rightarrow> bytes \<Rightarrow> bool" where
  "suffix_of r e \<longleftrightarrow> (\<exists>xs. e = xs @ r)"

lemma suffix_refl [simp]: "suffix_of e e"
  by (simp add: suffix_of_def)

lemma suffix_trans: "suffix_of a b \<Longrightarrow> suffix_of b c \<Longrightarrow> suffix_of a c"
  by (auto simp: suffix_of_def)

lemma suffix_dropWhile: "suffix_of (dropWhile P s) s"
  by (metis suffix_of_def takeWhile_dropWhile_id)

lemma suffix_Cons: "suffix_of (x # r) s \<Longrightarrow> suffix_of r s"
  by (auto simp: suffix_of_def)

lemma token_char_suffix: "token_char ch s = Some r \<Longrightarrow> suffix_of r s"
  using suffix_dropWhile [of is_ws s] suffix_Cons
  by (auto simp: token_char_def SkipWS_def split: list.splits if_splits)

lemma token_id_occurs: "token_id s = Some (i, r) \<Longrightarrow> suffix_of r s \<and> occurs i s"
proof -
  assume t: "token_id s = Some (i, r)"
  let ?t = "SkipWS s"
  from t obtain c rest where d: "dropWhile is_alnum ?t = c # rest" "r = dropWhile is_hex rest"
    "i = takeWhile is_alnum ?t @ [c] @ takeWhile is_hex rest"
    by (auto simp: token_id_def Let_def split: list.splits if_splits)
  obtain xs where xs: "s = xs @ ?t" using suffix_dropWhile [of is_ws s] by (auto simp: SkipWS_def suffix_of_def)
  have "?t = i @ r" using d by (metis append.assoc append_Cons append_Nil takeWhile_dropWhile_id)
  then show ?thesis using xs by (auto simp: occurs_def suffix_of_def)
qed

lemma parse_suffix:
  "parse_value fn n s = Parsed b r \<Longrightarrow> suffix_of r s"
  "parse_sum fn n s = Parsed b r \<Longrightarrow> suffix_of r s"
  "parse_rest fn n v s = Parsed b r \<Longrightarrow> suffix_of r s"
proof (induction fn n s and fn n s and fn n v s arbitrary: b r and b r and b r
    rule: parse_value_parse_sum_parse_rest.induct)
  case (2 fn n s)
  then show ?case
    by (fastforce split: option.splits outcome.splits prod.splits
        dest: token_id_occurs token_char_suffix intro: suffix_trans)
next
  case (4 fn n s)
  then show ?case by (fastforce split: outcome.splits intro: suffix_trans)
next
  case (6 fn n val s)
  then show ?case
    by (fastforce split: option.splits outcome.splits dest: token_char_suffix intro: suffix_trans)
qed auto

lemma occurs_suffix: "occurs i r \<Longrightarrow> suffix_of r s \<Longrightarrow> occurs i s"
  by (auto simp: occurs_def suffix_of_def) (metis append.assoc)

lemma parse_cong:
  "(\<And>i. occurs i s \<Longrightarrow> fn' i = fn i) \<Longrightarrow> parse_value fn' n s = parse_value fn n s"
  "(\<And>i. occurs i s \<Longrightarrow> fn' i = fn i) \<Longrightarrow> parse_sum fn' n s = parse_sum fn n s"
  "(\<And>i. occurs i s \<Longrightarrow> fn' i = fn i) \<Longrightarrow> parse_rest fn' n v s = parse_rest fn n v s"
proof (induction fn n s and fn n s and fn n v s rule: parse_value_parse_sum_parse_rest.induct)
  case (2 fn n s)
  have "token_char 0x28 s = Some r \<Longrightarrow> token_id s = None \<Longrightarrow> parse_sum fn' n r = parse_sum fn n r" for r
    using 2(1,2) token_char_suffix occurs_suffix by blast
  moreover have "token_id s = Some (i, r) \<Longrightarrow> fn' i = fn i" for i r
    using 2(2) token_id_occurs by blast
  ultimately show ?case by (auto split: option.splits outcome.splits prod.splits)
next
  case (4 fn n s)
  then have "parse_value fn' n s = parse_value fn n s" by blast
  moreover have "parse_rest fn' n b r = parse_rest fn n b r" if "parse_value fn n s = Parsed b r" for b r
    using 4(2) [OF that] 4(3) parse_suffix(1) [OF that] occurs_suffix by blast
  ultimately show ?case by (auto split: outcome.splits)
next
  case (6 fn n val s)
  have sub: "fn' i = fn i" if "suffix_of r s" "occurs i r" for i r
    using 6(5) occurs_suffix that by blast
  have v: "parse_value fn' n r = parse_value fn n r"
    if "token_char 0x26 s = Some r \<or> token_char 0x26 s = None \<and> token_char 0x7c s = Some r" for r
    using that 6(1,3) sub token_char_suffix by blast
  have w: "parse_rest fn' n x r2 = parse_rest fn n x r2"
    if "token_char 0x26 s = Some r \<and> x = (val \<and> b) \<or>
        token_char 0x26 s = None \<and> token_char 0x7c s = Some r \<and> x = (val \<or> b)"
      "parse_value fn n r = Parsed b r2" for r b r2 x
  proof -
    have "suffix_of r2 s" using that token_char_suffix parse_suffix(1) suffix_trans by blast
    then show ?thesis using that 6(2,4) sub by blast
  qed
  show ?case using v w by (auto split: option.splits outcome.splits)
qed auto

lemma Evaluate_cong:
  "(\<And>i. occurs i e \<Longrightarrow> fn' i = fn i) \<Longrightarrow> Evaluate fn' e = Evaluate fn e"
  using parse_cong(2) [of e fn' fn "parse_fuel e"] by (simp add: Evaluate_def)

section \<open>Fuel\<close>

text \<open>What a delegation to a darc contributes: the callback of \<open>evalExpr\<close>.\<close>

definition delegate where
  "delegate cr sha rec getDarc ids s =
     (if is_darc_id s
      then (case darc_Verify cr sha (getDarc s) of
          None \<Rightarrow> None
        | Some (Some err, _) \<Rightarrow> Some False
        | Some (None, None) \<Rightarrow> None
        | Some (None, Some d) \<Rightarrow>
            if \<not> Contains (Rules d) sign then Some False
            else (case rec (rule_at (Rules d) sign) of
                None \<Rightarrow> None | Some (Some err) \<Rightarrow> Some False | Some None \<Rightarrow> Some True))
      else Some (s \<in> set ids))"

lemma evalExpr_Suc:
  "evalExpr cr sha (Suc n) getDarc e ids =
     expr_check (Evaluate (delegate cr sha (\<lambda>e. evalExpr cr sha n getDarc e ids) getDarc ids) e)"
  by (simp add: delegate_def [abs_def])

declare evalExpr.simps(2) [simp del]

lemma delegate_extends:
  assumes "\<And>e r. rec e = Some r \<Longrightarrow> rec' e = Some r"
  shows "extends (delegate cr sha rec getDarc ids) (delegate cr sha rec' getDarc ids)"
  unfolding extends_def
proof (intro allI impI)
  fix i b assume "delegate cr sha rec getDarc ids i = Some b"
  then show "delegate cr sha rec' getDarc ids i = Some b"
    using assms by (fastforce simp: delegate_def split: if_splits option.splits prod.splits)
qed

lemma expr_check_Some: "expr_check res = Some r \<Longrightarrow> \<exists>x. res = Some x"
  by (cases res) (auto simp: expr_check_def)

lemma evalExpr_Suc_mono:
  "evalExpr cr sha n getDarc e ids = Some r \<Longrightarrow> evalExpr cr sha (Suc n) getDarc e ids = Some r"
proof (induction n arbitrary: e r)
  case (Suc n)
  let ?f = "\<lambda>n. delegate cr sha (\<lambda>e. evalExpr cr sha n getDarc e ids) getDarc ids"
  from Suc.prems have *: "expr_check (Evaluate (?f n) e) = Some r" by (simp add: evalExpr_Suc)
  obtain x where x: "Evaluate (?f n) e = Some x" using expr_check_Some [OF *] by blast
  have "extends (?f n) (?f (Suc n))" by (rule delegate_extends) (rule Suc.IH)
  with x have "Evaluate (?f (Suc n)) e = Some x" by (rule Evaluate_extends [rotated])
  with * x show ?case by (simp add: evalExpr_Suc [of _ _ "Suc n"])
qed simp

lemma evalExpr_mono:
  "evalExpr cr sha n getDarc e ids = Some r \<Longrightarrow> n \<le> m \<Longrightarrow> evalExpr cr sha m getDarc e ids = Some r"
  by (induction m) (auto simp: le_Suc_eq dest: evalExpr_Suc_mono)

lemma Evaluate_total_on:
  assumes "\<And>i. occurs i e \<Longrightarrow> fn i \<noteq> None"
  shows "Evaluate fn e \<noteq> None"
proof -
  have "Evaluate (\<lambda>i. Some (the (fn i))) e = Evaluate fn e"
    using assms by (intro Evaluate_cong) auto
  then show ?thesis using Evaluate_total [of "\<lambda>i. the (fn i)" e] by simp
qed

text \<open>
  Well-founded delegation: a darc that verifies names in its \<open>_sign\<close> rule only darcs of a smaller
  rank.
\<close>

definition ranked where
  "ranked cr sha getDarc rank \<longleftrightarrow>
     (\<forall>s. is_darc_id s \<longrightarrow> darc_Verify cr sha (getDarc s) \<noteq> None) \<and>
     (\<forall>s d t. is_darc_id s \<longrightarrow> darc_Verify cr sha (getDarc s) = Some (None, Some d) \<longrightarrow>
        is_darc_id t \<longrightarrow> occurs t (rule_at (Rules d) sign) \<longrightarrow> rank t < (rank s :: nat))"

lemma verify_with_None_None: "verify_with cr sha eval getDarc dp \<noteq> Some (None, None)"
  by (auto simp: verify_with_def split: option.splits prod.splits)

lemma evalExpr_terminates:
  assumes "ranked cr sha getDarc rank"
  shows "(\<And>t. is_darc_id t \<Longrightarrow> occurs t e \<Longrightarrow> rank t < n) \<Longrightarrow> evalExpr cr sha (Suc n) getDarc e ids \<noteq> None"
proof (induction n arbitrary: e)
  case n: 0
  have "delegate cr sha rec getDarc ids i \<noteq> None" if "occurs i e" for i rec
    using n that by (auto simp: delegate_def)
  then have "Evaluate (delegate cr sha (\<lambda>e. evalExpr cr sha 0 getDarc e ids) getDarc ids) e \<noteq> None"
    by (rule Evaluate_total_on)
  then show ?case
    unfolding evalExpr_Suc by (auto simp: expr_check_def split: sum.splits)
next
  case (Suc n)
  let ?f = "delegate cr sha (\<lambda>e. evalExpr cr sha (Suc n) getDarc e ids) getDarc ids"
  have "?f i \<noteq> None" if "occurs i e" for i
  proof (cases "is_darc_id i")
    case True
    obtain v d where v: "darc_Verify cr sha (getDarc i) = Some (v, d)"
      using assms True by (auto simp: ranked_def)
    show ?thesis
    proof (cases "v = None \<and> d \<noteq> None")
      case False
      then show ?thesis
        using v True verify_with_None_None [of cr sha evalExpr_nil "\<lambda>s. None" "getDarc i"]
        by (cases v) (auto simp: delegate_def darc_Verify_def)
    next
      case ok: True
      then obtain d' where d': "d = Some d'" by blast
      have "rank t < n" if "is_darc_id t" "occurs t (rule_at (Rules d') sign)" for t
        using assms True v ok d' that Suc.prems [OF True \<open>occurs i e\<close>]
        by (auto simp: ranked_def) (metis less_Suc_eq_le less_le_trans)
      then have "evalExpr cr sha (Suc n) getDarc (rule_at (Rules d') sign) ids \<noteq> None"
        by (rule Suc.IH)
      then show ?thesis
        using v ok d' True by (auto simp: delegate_def split: option.splits)
    qed
  qed (auto simp: delegate_def)
  then have "Evaluate ?f e \<noteq> None" by (rule Evaluate_total_on)
  then show ?case
    unfolding evalExpr_Suc [of _ _ "Suc n"] by (auto simp: expr_check_def split: sum.splits)
qed

text \<open>A darc whose \<open>_sign\<close> rule is its own id: evaluating the id never returns.\<close>

lemma evalExpr_self_delegation:
  assumes "id_ok s" "is_darc_id s" "getDarc s = Some d" "Version d = 0" "map_of (Rules d) sign = Some s"
  shows "evalExpr cr sha n getDarc s ids = None"
proof (induction n)
  case (Suc n)
  have v: "darc_Verify cr sha (getDarc s) = Some (None, Some d)"
    using assms(3,4) by (simp add: darc_Verify_def verify_with_def)
  have r: "rule_at (Rules d) sign = s" "Contains (Rules d) sign"
    using assms(5) by (simp_all add: rule_at_def Contains_def)
  have none: "delegate cr sha (\<lambda>e. evalExpr cr sha n getDarc e ids) getDarc ids s = None"
    using assms(2) v r Suc by (simp add: delegate_def)
  have "token_id s = Some (s, [])" using token_id_show(1) [OF assms(1), of "[]"] by simp
  then have "Evaluate (delegate cr sha (\<lambda>e. evalExpr cr sha n getDarc e ids) getDarc ids) s = None"
    using none by (simp add: Evaluate_def parse_fuel_def numeral_eq_Suc)
  then show ?case unfolding evalExpr_Suc by (simp add: expr_check_def)
qed simp

end
