(* ===== verification/Requests.thy ===== *)
theory Requests
  imports Delegation
begin

text \<open>
  Requests: what an accepted request proves about its signers, and that a request signed by
  identities that satisfy the rule is accepted. For the rules \<open>InitRules\<close> makes the two meet: an
  evolution takes the signatures of all owners, a signature one of the signers.
\<close>

lemma verify_identities_iff:
  "length is = length ss \<Longrightarrow> verify_identities cr digest is ss = Some None \<longleftrightarrow>
     (\<forall>j < length is. identity_Verify cr (is ! j) digest (ss ! j) = Some None)"
proof (induction cr digest "is" ss rule: verify_identities.induct)
  case (1 cr digest i "is" s ss)
  have split: "(\<forall>j < length (i # is). identity_Verify cr ((i # is) ! j) digest ((s # ss) ! j) = Some None) \<longleftrightarrow>
      identity_Verify cr i digest s = Some None \<and>
      (\<forall>j < length is. identity_Verify cr (is ! j) digest (ss ! j) = Some None)"
    by (auto simp: less_Suc_eq_0_disj)
  show ?case
    unfolding split using 1 by (auto split: option.splits)
qed auto

lemma request_verify_iff:
  "request_verify_with cr sha eval r d = Some None \<longleftrightarrow>
     rq_Signatures r \<noteq> [] \<and> length (rq_Signatures r) = length (rq_Identities r) \<and>
     rq_BaseID r = GetBaseID sha d \<and> Contains (Rules d) (rq_Action r) \<and>
     (\<forall>j < length (rq_Identities r).
        identity_Verify cr (rq_Identities r ! j) (request_Hash cr sha r) (rq_Signatures r ! j) = Some None) \<and>
     eval (rule_at (Rules d) (rq_Action r)) (map (identity_String cr) (rq_Identities r)) = Some None"
  using verify_identities_iff [of "rq_Identities r" "rq_Signatures r" cr "request_Hash cr sha r"]
  by (auto simp: request_verify_with_def GetIdentityStrings_def split: option.splits)

section \<open>The rules of \<open>InitRules\<close>\<close>

text \<open>Identities whose string is an id that no darc has: public keys in hexadecimal.\<close>

definition key_id :: "('p, 's, 'k) crypto \<Rightarrow> 'p identity \<Rightarrow> bool" where
  "key_id cr i \<longleftrightarrow> id_ok (identity_String cr i) \<and> \<not> is_darc_id (identity_String cr i)"

lemma evalExpr_key_rule:
  assumes "owners \<noteq> []" "\<forall>i \<in> set owners. key_id cr i"
  shows "evalExpr cr sha (Suc n) getDarc (InitAndExpr (map (identity_String cr) owners)) ids =
      Some (if identity_String cr ` set owners \<subseteq> set ids then None else Some EvaluatedToFalse)"
    and "evalExpr cr sha (Suc n) getDarc (InitOrExpr (map (identity_String cr) owners)) ids =
      Some (if identity_String cr ` set owners \<inter> set ids \<noteq> {} then None else Some EvaluatedToFalse)"
proof -
  let ?is = "map (identity_String cr) owners"
  let ?fn = "delegate cr sha (\<lambda>e. evalExpr cr sha n getDarc e ids) getDarc ids"
  have ok: "?is \<noteq> []" "list_all id_ok ?is" "\<forall>i \<in> set ?is. ?fn i = Some (i \<in> set ids)"
    using assms by (auto simp: list_all_iff key_id_def delegate_def)
  show "evalExpr cr sha (Suc n) getDarc (InitAndExpr ?is) ids =
      Some (if identity_String cr ` set owners \<subseteq> set ids then None else Some EvaluatedToFalse)"
    unfolding evalExpr_Suc using Evaluate_InitAndExpr [OF ok] by (auto simp: expr_check_def)
  show "evalExpr cr sha (Suc n) getDarc (InitOrExpr ?is) ids =
      Some (if identity_String cr ` set owners \<inter> set ids \<noteq> {} then None else Some EvaluatedToFalse)"
    unfolding evalExpr_Suc using Evaluate_InitOrExpr [OF ok] by (auto simp: expr_check_def)
qed

lemma InitRules_at:
  "rule_at (InitRules cr owners signers) evolve = InitAndExpr (map (identity_String cr) owners)"
  "rule_at (InitRules cr owners signers) sign = InitOrExpr (map (identity_String cr) signers)"
  using evolve_less_sign by (simp_all add: InitRules_def rule_at_def update_conv')

section \<open>Signing\<close>

text \<open>What the signature scheme promises: what a signer signs verifies against its identity.\<close>

definition sound_signer :: "('p, 's, 'k) crypto \<Rightarrow> ('p, 's) signer \<Rightarrow> bool" where
  "sound_signer cr s \<longleftrightarrow>
     (\<exists>point secret. s = \<lparr>sg_ed25519 = Some (point, secret), sg_x509ec = None\<rparr> \<and>
       (\<forall>m. \<exists>b. schnorr_Sign cr secret m = Inr b \<and> schnorr_Verify cr point m b))"

lemma sound_signer_sign:
  assumes "sound_signer cr s"
  obtains i b where "signer_Identity s = Some i" "signer_Sign cr s (Some m) = Inr b"
    "identity_Verify cr i m b = Some None"
proof -
  obtain point secret b where "s = \<lparr>sg_ed25519 = Some (point, secret), sg_x509ec = None\<rparr>"
    "schnorr_Sign cr secret m = Inr b" "schnorr_Verify cr point m b"
    using assms by (auto simp: sound_signer_def) metis
  then show ?thesis
    by (intro that [of "NewIdentityEd25519 point" b])
      (auto simp: signer_Identity_def signer_Sign_def identity_Verify_def NewIdentityEd25519_def
        identity_Type_def)
qed

lemma sign_all_sound:
  assumes "\<forall>s \<in> set signers. sound_signer cr s"
  shows "\<exists>ids sigs. signer_identities signers = Some ids \<and> sign_all cr signers m = Inr sigs \<and>
    length ids = length signers \<and> length sigs = length signers \<and>
    (\<forall>j < length ids. identity_Verify cr (ids ! j) m (sigs ! j) = Some None)"
  using assms
proof (induction signers)
  case (Cons s ss)
  obtain i b where s: "signer_Identity s = Some i" "signer_Sign cr s (Some m) = Inr b"
    "identity_Verify cr i m b = Some None"
    using sound_signer_sign Cons.prems by (metis list.set_intros(1))
  obtain ids sigs where ss: "signer_identities ss = Some ids" "sign_all cr ss m = Inr sigs"
    "length ids = length ss" "length sigs = length ss"
    "\<forall>j < length ids. identity_Verify cr (ids ! j) m (sigs ! j) = Some None"
    using Cons by auto
  have "signer_identities (s # ss) = Some (i # ids)"
    using s(1) ss(1) by (auto simp: signer_identities_def split: if_splits)
  with s ss show ?case by (auto simp: nth_Cons split: nat.splits)
qed (simp add: signer_identities_def)

text \<open>A request signed by sound signers whose identities satisfy the rule of the action is accepted.\<close>

lemma signed_request_accepted:
  assumes "signers \<noteq> []" "\<forall>s \<in> set signers. sound_signer cr s"
    and "Contains (Rules d) act" "base = GetBaseID sha d"
    and "eval (rule_at (Rules d) act) (map (identity_String cr \<circ> the \<circ> signer_Identity) signers) = Some None"
  shows "\<exists>r. InitAndSignRequest cr sha base act msg signers = Some (Inr r) \<and>
    rq_Msg r = msg \<and> request_verify_with cr sha eval r d = Some None"
proof -
  obtain ids where ids: "signer_identities signers = Some ids"
    using sign_all_sound [OF assms(2)] by blast
  let ?m = "inner_Hash cr sha base act msg ids"
  obtain sigs where sigs: "sign_all cr signers ?m = Inr sigs"
    "length ids = length signers" "length sigs = length signers"
    "\<forall>j < length ids. identity_Verify cr (ids ! j) ?m (sigs ! j) = Some None"
    using sign_all_sound [OF assms(2), of ?m] ids by auto
  have map_ids: "map (identity_String cr) ids = map (identity_String cr \<circ> the \<circ> signer_Identity) signers"
    using ids by (auto simp: signer_identities_def split: if_splits)
  let ?r = "InitRequest base act msg ids sigs"
  have "InitAndSignRequest cr sha base act msg signers = Some (Inr ?r)"
    using assms(1) ids sigs(1) by (simp add: InitAndSignRequest_def)
  moreover have "sigs \<noteq> []" using sigs(3) assms(1) by auto
  then have "request_verify_with cr sha eval ?r d = Some None"
    using assms(3-5) sigs
    by (auto simp: request_verify_iff InitRequest_def request_Hash_def map_ids)
  ultimately show ?thesis by (auto simp: InitRequest_def)
qed

end
