(* ===== verification/Combinators.thy ===== *)
theory Combinators
  imports Expression
begin

text \<open>
  Models how \<open>omniledger/darc/expression/expression.go\<close> really parses: the combinators of goparsec
  it uses (\<open>parsec.go\<close>, \<open>scanner.go\<close>, \<open>tokeniser.go\<close> and \<open>terminal.go\<close> in the vendor directory),
  the callbacks that make nodes of what was read, and the circular definitions of \<open>InitParser\<close>.
  Theory Expression holds the recursive-descent parser these add up to.

  A call ends in one of three ways: it does not return (\<open>Stuck\<close>), a type assertion or an index of
  a callback fails (\<open>Panics\<close>), or it is \<open>Done\<close> with a result. A nil node is \<open>None\<close>. A parser gets
  a scanner and returns the scanner to go on from. The code's parsers change a scanner only after
  \<open>Clone\<close>; \<open>id\<close> changes the one it gets, and is given a clone by \<open>OrdChoice\<close>.
\<close>

section \<open>Outcomes of a call\<close>

datatype 'a run = Stuck | Panics | Done 'a

primrec and_then :: "'a run \<Rightarrow> ('a \<Rightarrow> 'b run) \<Rightarrow> 'b run" where
  "and_then Stuck f = Stuck"
| "and_then Panics f = Panics"
| "and_then (Done x) f = f x"

lemma and_then_Done_iff [go_simps]: "and_then m f = Done y \<longleftrightarrow> (\<exists>x. m = Done x \<and> f x = Done y)"
  by (cases m) auto

section \<open>The scanner\<close>

record scanner =
  scan_buf :: bytes
  scan_cursor :: nat

definition NewScanner :: "bytes \<Rightarrow> scanner" where
  "NewScanner txt = \<lparr>scan_buf = txt, scan_cursor = 0\<rparr>"

definition Endof :: "scanner \<Rightarrow> bool" where
  "Endof s \<longleftrightarrow> length (scan_buf s) \<le> scan_cursor s"

text \<open>
  The regular expressions of the package are sequences of character classes, some repeated by
  \<open>+\<close>, anchored at the start. Go's \<open>regexp\<close> takes the match a backtracking search finds first: a
  repetition takes as many characters as it can and gives them back one by one. \<open>find_match\<close> is
  the number of bytes \<open>regc.Find\<close> matches.
\<close>

datatype regex_item = One "byte \<Rightarrow> bool" | Plus "byte \<Rightarrow> bool"

fun find_match :: "regex_item list \<Rightarrow> bytes \<Rightarrow> nat option" where
  "find_match [] bs = Some 0"
| "find_match (One c # is) [] = None"
| "find_match (One c # is) (b # bs) = (if c b then map_option Suc (find_match is bs) else None)"
| "find_match (Plus c # is) [] = None"
| "find_match (Plus c # is) (b # bs) =
     (if c b
      then (case find_match (Plus c # is) bs of
              Some n \<Rightarrow> Some (Suc n)
            | None \<Rightarrow> map_option Suc (find_match is bs))
      else None)"

definition Match_regex :: "regex_item list \<Rightarrow> scanner \<Rightarrow> bytes option \<times> scanner" where
  "Match_regex pat s =
     (let rest = drop (scan_cursor s) (scan_buf s) in
      (case find_match pat rest of
         Some n \<Rightarrow> (Some (take n rest), s\<lparr>scan_cursor := scan_cursor s + n\<rparr>)
       | None \<Rightarrow> (None, s)))"

definition SkipWS_scanner :: "scanner \<Rightarrow> bytes option \<times> scanner" where
  "SkipWS_scanner s = Match_regex [Plus is_ws] s"

section \<open>Parsers and combinators\<close>

text \<open>
  What the callbacks and tokens of this package put into a \<open>ParsecNode\<close>: a terminal with its name,
  value and position, a boolean, or a slice of nodes.
\<close>

datatype parsec_node =
    Terminal string bytes nat
  | BoolNode bool
  | ListNode "parsec_node list"

type_synonym parser = "scanner \<Rightarrow> (parsec_node option \<times> scanner) run"
type_synonym nodify = "parsec_node list \<Rightarrow> parsec_node option run"

definition docallback :: "nodify option \<Rightarrow> nodify" where
  "docallback callb ns = (case callb of Some f \<Rightarrow> f ns | None \<Rightarrow> Done (Some (ListNode ns)))"

definition Token :: "regex_item list \<Rightarrow> string \<Rightarrow> parser" where
  "Token pat name s =
     (let news = snd (SkipWS_scanner s);
          position = scan_cursor news in
      (case Match_regex pat news of
         (Some tok, news) \<Rightarrow> Done (Some (Terminal name tok position), news)
       | (None, _) \<Rightarrow> Done (None, s)))"

text \<open>\<open>And\<close>: all parsers in turn; \<open>None\<close> when one of them returns nil.\<close>

fun and_loop :: "parser list \<Rightarrow> parsec_node list \<Rightarrow> scanner \<Rightarrow> (parsec_node list \<times> scanner) option run" where
  "and_loop [] ns news = Done (Some (ns, news))"
| "and_loop (p # ps) ns news =
     and_then (p news) (\<lambda>(n, news). case n of
         None \<Rightarrow> Done None
       | Some n \<Rightarrow> and_loop ps (ns @ [n]) news)"

definition And :: "nodify option \<Rightarrow> parser list \<Rightarrow> parser" where
  "And callb parsers s =
     and_then (and_loop parsers [] s) (\<lambda>r. case r of
         None \<Rightarrow> Done (None, s)
       | Some (ns, news) \<Rightarrow>
           and_then (docallback callb ns) (\<lambda>node. case node of
               Some node \<Rightarrow> Done (Some node, news)
             | None \<Rightarrow> Done (None, s)))"

fun OrdChoice :: "nodify option \<Rightarrow> parser list \<Rightarrow> parser" where
  "OrdChoice callb [] s = Done (None, s)"
| "OrdChoice callb (p # ps) s =
     and_then (p s) (\<lambda>(n, news). case n of
         None \<Rightarrow> OrdChoice callb ps s
       | Some n \<Rightarrow>
           and_then (docallback callb [n]) (\<lambda>node. case node of
               Some node \<Rightarrow> Done (Some node, news)
             | None \<Rightarrow> OrdChoice callb ps s))"

text \<open>
  The loop of \<open>Kleene\<close> without a separator (the last argument \<open>InitParser\<close> gives is nil). It ends
  when \<open>opScan\<close> returns nil, with the scanner that call returned. The fuel bounds the iterations.
\<close>

fun kleene_loop :: "nat \<Rightarrow> parser \<Rightarrow> parsec_node list \<Rightarrow> scanner \<Rightarrow> (parsec_node list \<times> scanner) run" where
  "kleene_loop 0 opScan ns news = Stuck"
| "kleene_loop (Suc k) opScan ns news =
     and_then (opScan news) (\<lambda>(n, news). case n of
         None \<Rightarrow> Done (ns, news)
       | Some n \<Rightarrow> kleene_loop k opScan (ns @ [n]) news)"

definition Kleene :: "nat \<Rightarrow> nodify option \<Rightarrow> parser \<Rightarrow> parser" where
  "Kleene k callb opScan s =
     and_then (kleene_loop k opScan [] s) (\<lambda>(ns, news).
       and_then (docallback callb ns) (\<lambda>node. Done (node, news)))"

section \<open>The callbacks of expression.go\<close>

definition one2one :: nodify where
  "one2one ns = Done (case ns of [] \<Rightarrow> None | n # _ \<Rightarrow> Some n)"

definition many2many :: nodify where
  "many2many ns = Done (if ns = [] then None else Some (ListNode ns))"

text \<open>\<open>ns[1]\<close> panics when there is one node only.\<close>

definition exprNode :: nodify where
  "exprNode ns = (case ns of [] \<Rightarrow> Done None | [_] \<Rightarrow> Panics | _ # n # _ \<Rightarrow> Done (Some n))"

definition exprValueNode :: "(bytes \<Rightarrow> bool option) \<Rightarrow> nodify" where
  "exprValueNode fn ns =
     (case ns of
        [] \<Rightarrow> Done None
      | Terminal name val position # _ \<Rightarrow>
          (case fn val of None \<Rightarrow> Stuck | Some b \<Rightarrow> Done (Some (BoolNode b)))
      | n # _ \<Rightarrow> Done (Some n))"

text \<open>The loop of \<open>sumNode\<close>; an operator with another name than the two leaves the value.\<close>

fun sum_loop :: "bool \<Rightarrow> parsec_node list \<Rightarrow> bool run" where
  "sum_loop val [] = Done val"
| "sum_loop val (ListNode (Terminal name _ _ # BoolNode n # _) # xs) =
     sum_loop (if name = ''AND'' then val \<and> n else if name = ''OR'' then val \<or> n else val) xs"
| "sum_loop val (_ # xs) = Panics"

definition sumNode :: nodify where
  "sumNode ns =
     (case ns of
        [] \<Rightarrow> Done None
      | BoolNode val # ListNode xs # _ \<Rightarrow>
          and_then (sum_loop val xs) (\<lambda>val. Done (Some (BoolNode val)))
      | _ \<Rightarrow> Panics)"

section \<open>The parser\<close>

text \<open>\<open>id()\<close> skips blanks, newlines and tabs itself, and \<open>Token\<close> skips white space again.\<close>

definition id_blank :: "byte \<Rightarrow> bool" where
  "id_blank b \<longleftrightarrow> b = 0x20 \<or> b = 0x0a \<or> b = 0x09"

definition id_pattern :: "regex_item list" where
  "id_pattern = [Plus is_alnum, One ((=) 0x3a), Plus is_hex]"

definition id_parser :: parser where
  "id_parser s = Token id_pattern ''ID'' (snd (Match_regex [Plus id_blank] s))"

definition openparan :: parser where
  "openparan = Token [One ((=) 0x28)] ''OPENPARAN''"

definition closeparan :: parser where
  "closeparan = Token [One ((=) 0x29)] ''CLOSEPARAN''"

definition sumOp :: parser where
  "sumOp = OrdChoice (Some one2one)
     [Token [One ((=) 0x26)] ''AND'', Token [One ((=) 0x7c)] ''OR'']"

text \<open>
  The variables \<open>sum\<close> and \<open>value\<close> refer to each other; the fuel counts how often the references
  are followed.
\<close>

fun sum_parser :: "(bytes \<Rightarrow> bool option) \<Rightarrow> nat \<Rightarrow> parser"
  and value_parser :: "(bytes \<Rightarrow> bool option) \<Rightarrow> nat \<Rightarrow> parser"
where
  "sum_parser fn 0 = (\<lambda>s. Stuck)"
| "sum_parser fn (Suc n) =
     And (Some sumNode)
       [value_parser fn n, Kleene n None (And (Some many2many) [sumOp, value_parser fn n])]"
| "value_parser fn 0 = (\<lambda>s. Stuck)"
| "value_parser fn (Suc n) =
     OrdChoice (Some (exprValueNode fn))
       [id_parser, And (Some exprNode) [openparan, sum_parser fn n, closeparan]]"

definition InitParser :: "nat \<Rightarrow> (bytes \<Rightarrow> bool option) \<Rightarrow> parser" where
  "InitParser fuel fn = OrdChoice (Some one2one) [sum_parser fn fuel]"

text \<open>\<open>Evaluate(parser, expr)\<close>: white space may follow, then the scanner must be empty.\<close>

definition Evaluate_parser :: "parser \<Rightarrow> bytes \<Rightarrow> (expr_error + bool) run" where
  "Evaluate_parser parser expr =
     and_then (parser (NewScanner expr)) (\<lambda>(v, s).
       let s = snd (SkipWS_scanner s) in
       if \<not> Endof s then Done (Inl ScannerNotEmpty)
       else (case v of
               Some (BoolNode vv) \<Rightarrow> Done (Inr vv)
             | _ \<Rightarrow> Done (Inl FailedToCast)))"

end
