(* ===== verification/CombinatorsCorrect.thy ===== *)
theory CombinatorsCorrect
  imports Combinators ExprCorrect
begin

text \<open>
  The combinators add up to the recursive-descent parser of theory Expression: with fuel for twice
  the length of the input the parser \<open>InitParser\<close> builds gives, on every input and for every
  callback, what \<open>Evaluate\<close> there gives. No type assertion of a callback fails on the way.
\<close>

definition remaining :: "scanner \<Rightarrow> bytes" where
  "remaining s = drop (scan_cursor s) (scan_buf s)"

lemma rest_NewScanner [simp]: "remaining (NewScanner txt) = txt"
  by (simp add: remaining_def NewScanner_def)

lemma Endof_rest: "Endof s \<longleftrightarrow> remaining s = []"
  by (simp add: Endof_def remaining_def)

section \<open>Regular expressions\<close>

lemma find_match_One: "find_match [One c] bs = (case bs of b # _ \<Rightarrow> if c b then Some 1 else None | [] \<Rightarrow> None)"
  by (cases bs) auto

lemma find_match_Plus:
  "find_match [Plus c] bs = (if takeWhile c bs = [] then None else Some (length (takeWhile c bs)))"
proof (induction bs)
  case (Cons b bs)
  then show ?case by (cases bs) auto
qed simp

lemma find_match_Plus_One:
  assumes "\<And>b. d b \<Longrightarrow> \<not> c b"
  shows "find_match (Plus c # One d # is) bs =
    (if takeWhile c bs = [] then None
     else map_option ((+) (length (takeWhile c bs))) (find_match (One d # is) (dropWhile c bs)))"
proof (induction bs)
  case (Cons b bs)
  show ?case
  proof (cases "c b")
    case True
    show ?thesis
    proof (cases "takeWhile c bs = []")
      case empty: True
      then have "dropWhile c bs = bs" by (metis append_Nil takeWhile_dropWhile_id)
      moreover have "(+) (Suc 0) = Suc" by (simp add: fun_eq_iff)
      ultimately show ?thesis using empty Cons True by simp
    next
      case False
      then have "find_match (One d # is) bs = None"
        using assms by (cases bs) (auto split: if_splits)
      with False Cons True show ?thesis
        by (cases "find_match (One d # is) (dropWhile c bs)") simp_all
    qed
  qed simp
qed simp

lemma Match_regex_None: "find_match pat (remaining s) = None \<Longrightarrow> Match_regex pat s = (None, s)"
  by (simp add: Match_regex_def remaining_def)

lemma Match_regex_Some:
  assumes "find_match pat (remaining s) = Some n"
  shows "Match_regex pat s = (Some (take n (remaining s)), s\<lparr>scan_cursor := scan_cursor s + n\<rparr>)"
    "remaining (s\<lparr>scan_cursor := scan_cursor s + n\<rparr>) = drop n (remaining s)"
  using assms by (simp_all add: Match_regex_def remaining_def Let_def add.commute)

lemma rest_skip: "remaining (snd (Match_regex [Plus c] s)) = dropWhile c (remaining s)"
proof (cases "takeWhile c (remaining s) = []")
  case True
  then have "dropWhile c (remaining s) = remaining s" by (metis append_Nil takeWhile_dropWhile_id)
  with True show ?thesis by (simp add: Match_regex_None find_match_Plus)
next
  case False
  then have "find_match [Plus c] (remaining s) = Some (length (takeWhile c (remaining s)))"
    by (simp add: find_match_Plus)
  from Match_regex_Some [OF this] show ?thesis by (simp add: dropWhile_eq_drop)
qed

lemma rest_SkipWS [simp]: "remaining (snd (SkipWS_scanner s)) = SkipWS (remaining s)"
  by (simp add: SkipWS_scanner_def SkipWS_def rest_skip)

section \<open>Tokens\<close>

lemma Token_None:
  "find_match pat (SkipWS (remaining s)) = None \<Longrightarrow> Token pat name s = Done (None, s)"
  by (simp add: Token_def Match_regex_None)

lemma Token_Some:
  assumes "find_match pat (SkipWS (remaining s)) = Some n"
  obtains p s1 where "Token pat name s = Done (Some (Terminal name (take n (SkipWS (remaining s))) p), s1)"
    "remaining s1 = drop n (SkipWS (remaining s))"
proof -
  define s1 where "s1 = snd (SkipWS_scanner s)"
  have "remaining s1 = SkipWS (remaining s)" by (simp add: s1_def)
  with assms Match_regex_Some [of pat s1 n]
  have "Token pat name s =
      Done (Some (Terminal name (take n (SkipWS (remaining s))) (scan_cursor s1)), s1\<lparr>scan_cursor := scan_cursor s1 + n\<rparr>)"
    "remaining (s1\<lparr>scan_cursor := scan_cursor s1 + n\<rparr>) = drop n (SkipWS (remaining s))"
    by (simp_all add: Token_def Let_def flip: s1_def)
  then show ?thesis by (rule that)
qed

lemma char_token_None:
  "token_char ch (remaining s) = None \<Longrightarrow> Token [One ((=) ch)] name s = Done (None, s)"
  by (rule Token_None) (auto simp: token_char_def find_match_One split: list.splits if_splits)

lemma char_token_Some:
  assumes "token_char ch (remaining s) = Some r"
  obtains t p s1 where "Token [One ((=) ch)] name s = Done (Some (Terminal name t p), s1)" "remaining s1 = r"
proof -
  from assms have "find_match [One ((=) ch)] (SkipWS (remaining s)) = Some 1" "drop 1 (SkipWS (remaining s)) = r"
    by (auto simp: token_char_def find_match_One split: list.splits if_splits)
  then show ?thesis using Token_Some that by metis
qed

lemma SkipWS_id_blank: "SkipWS (dropWhile id_blank bs) = SkipWS bs"
  by (induction bs) (auto simp: SkipWS_def id_blank_def is_ws_def)

lemma find_match_id:
  "find_match id_pattern (SkipWS bs) =
     (case token_id bs of Some (i, r) \<Rightarrow> Some (length i) | None \<Rightarrow> None)"
proof -
  have colon: "\<not> is_alnum b" if "(=) 0x3a b" for b :: byte using that colon_class by auto
  show ?thesis
  proof (cases "dropWhile is_alnum (SkipWS bs)")
    case Nil
    show ?thesis
      by (simp add: id_pattern_def token_id_def Let_def find_match_Plus_One [OF colon] Nil)
  next
    case (Cons c r)
    then show ?thesis
      by (auto simp: id_pattern_def token_id_def Let_def find_match_Plus_One [OF colon] find_match_Plus)
  qed
qed

lemma token_id_split: "token_id bs = Some (i, r) \<Longrightarrow> SkipWS bs = i @ r"
  by (auto simp: token_id_def Let_def split: list.splits if_splits)
    (metis append_Cons append_assoc takeWhile_dropWhile_id)

lemma id_parser_None: "token_id (remaining s) = None \<Longrightarrow> \<exists>s1. id_parser s = Done (None, s1)"
  unfolding id_parser_def by (intro exI, rule Token_None) (simp add: rest_skip SkipWS_id_blank find_match_id)

lemma id_parser_Some:
  assumes "token_id (remaining s) = Some (i, r)"
  obtains p s1 where "id_parser s = Done (Some (Terminal ''ID'' i p), s1)" "remaining s1 = r"
proof (rule Token_Some [of id_pattern "snd (Match_regex [Plus id_blank] s)" "length i" "''ID''"])
  show "find_match id_pattern (SkipWS (remaining (snd (Match_regex [Plus id_blank] s)))) = Some (length i)"
    using assms by (simp add: rest_skip SkipWS_id_blank find_match_id)
qed (use assms that token_id_split [OF assms] in \<open>simp add: id_parser_def rest_skip SkipWS_id_blank\<close>)

section \<open>Combinators\<close>

lemma sumOp_cases:
  obtains (and_op) r t p s1 where "token_char 0x26 (remaining s) = Some r"
      "sumOp s = Done (Some (Terminal ''AND'' t p), s1)" "remaining s1 = r"
  | (or_op) r t p s1 where "token_char 0x26 (remaining s) = None" "token_char 0x7c (remaining s) = Some r"
      "sumOp s = Done (Some (Terminal ''OR'' t p), s1)" "remaining s1 = r"
  | (no_op) "token_char 0x26 (remaining s) = None" "token_char 0x7c (remaining s) = None" "sumOp s = Done (None, s)"
proof (cases "token_char 0x26 (remaining s)")
  case (Some r)
  from char_token_Some [OF Some] obtain t p s1
    where "Token [One ((=) 0x26)] ''AND'' s = Done (Some (Terminal ''AND'' t p), s1)" "remaining s1 = r" .
  with Some and_op show ?thesis by (simp add: sumOp_def docallback_def one2one_def)
next
  case none: None
  show ?thesis
  proof (cases "token_char 0x7c (remaining s)")
    case (Some r)
    from char_token_Some [OF Some] obtain t p s1
      where "Token [One ((=) 0x7c)] ''OR'' s = Done (Some (Terminal ''OR'' t p), s1)" "remaining s1 = r" .
    with none Some or_op show ?thesis
      by (simp add: sumOp_def docallback_def one2one_def char_token_None)
  next
    case None
    with none no_op show ?thesis by (simp add: sumOp_def docallback_def one2one_def char_token_None)
  qed
qed

text \<open>A node and the outcome of the recursive-descent parser say the same.\<close>

definition agrees :: "(parsec_node option \<times> scanner) run \<Rightarrow> outcome \<Rightarrow> bool" where
  "agrees m out \<longleftrightarrow>
     (case out of
        Diverges \<Rightarrow> m = Stuck
      | NoParse \<Rightarrow> \<exists>s. m = Done (None, s)
      | Parsed b r \<Rightarrow> \<exists>s. m = Done (Some (BoolNode b), s) \<and> remaining s = r)"

lemma agrees_iff [simp]:
  "agrees m Diverges \<longleftrightarrow> m = Stuck"
  "agrees m NoParse \<longleftrightarrow> (\<exists>s. m = Done (None, s))"
  "agrees m (Parsed b r) \<longleftrightarrow> (\<exists>s. m = Done (Some (BoolNode b), s) \<and> remaining s = r)"
  by (simp_all add: agrees_def)

text \<open>The loop collects pairs of operator and value, on which \<open>sumNode\<close> computes what the descent computes.\<close>

definition loop_agrees ::
  "(parsec_node list \<times> scanner) run \<Rightarrow> parsec_node list \<Rightarrow> bool \<Rightarrow> outcome \<Rightarrow> bool" where
  "loop_agrees m acc v out \<longleftrightarrow>
     (case out of
        Diverges \<Rightarrow> m = Stuck
      | NoParse \<Rightarrow> False
      | Parsed b r \<Rightarrow> \<exists>xs s. m = Done (acc @ xs, s) \<and> remaining s = r \<and> sum_loop v xs = Done b)"

lemma loop_agrees_Cons:
  assumes "loop_agrees m (acc @ [ListNode [Terminal name t p, BoolNode b]]) v' out"
    and "v' = (if name = ''AND'' then v \<and> b else if name = ''OR'' then v \<or> b else v)"
  shows "loop_agrees m acc v out"
proof (cases out)
  case (Parsed c r)
  with assms obtain xs s where
    "m = Done (acc @ ListNode [Terminal name t p, BoolNode b] # xs, s)" "remaining s = r" "sum_loop v' xs = Done c"
    by (auto simp: loop_agrees_def)
  moreover from this(3) assms(2) have "sum_loop v (ListNode [Terminal name t p, BoolNode b] # xs) = Done c"
    by simp
  ultimately show ?thesis unfolding loop_agrees_def Parsed outcome.case by blast
qed (use assms in \<open>auto simp: loop_agrees_def\<close>)

definition value_agrees :: "(bytes \<Rightarrow> bool option) \<Rightarrow> nat \<Rightarrow> bool" where
  "value_agrees fn l \<longleftrightarrow> (\<forall>s n m. length (remaining s) \<le> l \<longrightarrow> 3 * l + 2 \<le> n \<longrightarrow> 2 * l + 1 \<le> m \<longrightarrow>
     agrees (value_parser fn m s) (parse_value fn n (remaining s)))"

definition sum_agrees :: "(bytes \<Rightarrow> bool option) \<Rightarrow> nat \<Rightarrow> bool" where
  "sum_agrees fn l \<longleftrightarrow> (\<forall>s n m. length (remaining s) \<le> l \<longrightarrow> 3 * l + 3 \<le> n \<longrightarrow> 2 * l + 2 \<le> m \<longrightarrow>
     agrees (sum_parser fn m s) (parse_sum fn n (remaining s)))"

lemma sum_agreesD:
  "sum_agrees fn l \<Longrightarrow> length (remaining s) \<le> l \<Longrightarrow> 3 * l + 3 \<le> n \<Longrightarrow> 2 * l + 2 \<le> m \<Longrightarrow>
   agrees (sum_parser fn m s) (parse_sum fn n (remaining s))"
  by (simp add: sum_agrees_def)

abbreviation operand :: "(bytes \<Rightarrow> bool option) \<Rightarrow> nat \<Rightarrow> parser" where
  "operand fn m \<equiv> And (Some many2many) [sumOp, value_parser fn m]"

lemma operand_after_op:
  assumes op: "sumOp s = Done (Some t, s1)"
    and val: "agrees (value_parser fn m s1) out"
  shows "out = Diverges \<Longrightarrow> operand fn m s = Stuck"
    "out = NoParse \<Longrightarrow> operand fn m s = Done (None, s)"
    "out = Parsed b r \<Longrightarrow> \<exists>s2. operand fn m s = Done (Some (ListNode [t, BoolNode b]), s2) \<and> remaining s2 = r"
  using assms by (auto simp: And_def docallback_def many2many_def)

lemma loop_correct:
  assumes vals: "\<And>l. l < L \<Longrightarrow> value_agrees fn l" and m: "2 * L \<le> m"
  shows "length (remaining s) \<le> L \<Longrightarrow> length (remaining s) < k \<Longrightarrow> 3 * length (remaining s) + 1 \<le> n \<Longrightarrow>
    loop_agrees (kleene_loop k (operand fn m) acc s) acc v (parse_rest fn n v (remaining s))"
proof (induction k arbitrary: s acc v n)
  case (Suc k)
  from Suc.prems(3) obtain n' where n: "n = Suc n'" "3 * length (remaining s) \<le> n'" by (cases n) auto
  have val: "agrees (value_parser fn m s1) (parse_value fn n' (remaining s1))"
    if "length (remaining s1) < length (remaining s)" for s1
    using vals [of "length (remaining s1)"] that Suc.prems(1) n(2) m by (auto simp: value_agrees_def)
  have step: "loop_agrees (kleene_loop (Suc k) (operand fn m) acc s) acc v
      (case parse_value fn n' (remaining s1) of
         Diverges \<Rightarrow> Diverges
       | NoParse \<Rightarrow> Parsed v (remaining s)
       | Parsed b r \<Rightarrow> parse_rest fn n' (f b) r)"
    if short: "length (remaining s1) < length (remaining s)" and op: "sumOp s = Done (Some (Terminal name t p), s1)"
      and f: "\<And>b. f b = (if name = ''AND'' then v \<and> b else if name = ''OR'' then v \<or> b else v)"
    for s1 name t p f
  proof (cases "parse_value fn n' (remaining s1)")
    case Diverges
    then show ?thesis
      using operand_after_op(1) [OF op val [OF short]] by (simp add: loop_agrees_def)
  next
    case NoParse
    then show ?thesis
      using operand_after_op(2) [OF op val [OF short]] by (simp add: loop_agrees_def)
  next
    case (Parsed b r)
    from operand_after_op(3) [OF op val [OF short] this] obtain s2
      where s2: "operand fn m s = Done (Some (ListNode [Terminal name t p, BoolNode b]), s2)" "remaining s2 = r"
      by blast
    have "length r < length (remaining s)" using parse_shorter(1) [OF Parsed] short by simp
    then have "loop_agrees (kleene_loop k (operand fn m) (acc @ [ListNode [Terminal name t p, BoolNode b]]) s2)
        (acc @ [ListNode [Terminal name t p, BoolNode b]]) (f b) (parse_rest fn n' (f b) (remaining s2))"
      using Suc.prems n s2(2) by (intro Suc.IH) auto
    from loop_agrees_Cons [OF this f] s2 Parsed show ?thesis by simp
  qed
  show ?case
  proof (cases s rule: sumOp_cases)
    case (and_op r t p s1)
    with step [OF _ and_op(2), of "\<lambda>b. v \<and> b"] token_char_shorter [OF and_op(1)] n(1) show ?thesis by simp
  next
    case (or_op r t p s1)
    with step [OF _ or_op(3), of "\<lambda>b. v \<or> b"] token_char_shorter [OF or_op(2)] n(1) show ?thesis by simp
  next
    case no_op
    with n(1) show ?thesis by (simp add: loop_agrees_def And_def)
  qed
qed simp

lemma sum_correct:
  assumes vals: "\<And>l. l \<le> L \<Longrightarrow> value_agrees fn l"
  shows "sum_agrees fn L"
  unfolding sum_agrees_def
proof (intro allI impI)
  fix s n m
  assume len: "length (remaining s) \<le> L" and "3 * L + 3 \<le> n" "2 * L + 2 \<le> m"
  then obtain n' m' where n: "n = Suc n'" "3 * L + 2 \<le> n'" and m: "m = Suc m'" "2 * L + 1 \<le> m'"
    by (cases n; cases m) auto
  have val: "agrees (value_parser fn m' s) (parse_value fn n' (remaining s))"
    using vals [of L] len n(2) m(2) by (simp add: value_agrees_def)
  show "agrees (sum_parser fn m s) (parse_sum fn n (remaining s))"
  proof (cases "parse_value fn n' (remaining s)")
    case (Parsed b r)
    with val obtain s1 where s1: "value_parser fn m' s = Done (Some (BoolNode b), s1)" "remaining s1 = r" by auto
    have "length r < length (remaining s)" using parse_shorter(1) [OF Parsed] .
    then have "loop_agrees (kleene_loop m' (operand fn m') [] s1) [] b (parse_rest fn n' b r)"
      using loop_correct [of L fn m' s1 m' n' "[]" b] vals s1(2) len n(2) m(2) by simp
    with Parsed s1 n(1) m(1) show ?thesis
      by (cases "parse_rest fn n' b r")
        (auto simp: loop_agrees_def And_def Kleene_def docallback_def sumNode_def)
  qed (use val n(1) m(1) in \<open>auto simp: And_def\<close>)
qed

lemma value_correct:
  assumes sums: "\<And>l. l < L \<Longrightarrow> sum_agrees fn l"
  shows "value_agrees fn L"
  unfolding value_agrees_def
proof (intro allI impI)
  fix s n m
  assume len: "length (remaining s) \<le> L" and "3 * L + 2 \<le> n" "2 * L + 1 \<le> m"
  then obtain n' m' where n: "n = Suc n'" "3 * L + 1 \<le> n'" and m: "m = Suc m'" "2 * L \<le> m'"
    by (cases n; cases m) auto
  show "agrees (value_parser fn m s) (parse_value fn n (remaining s))"
  proof (cases "token_id (remaining s)")
    case (Some ir)
    obtain i r where "ir = (i, r)" by fastforce
    with Some id_parser_Some obtain p s1
      where "id_parser s = Done (Some (Terminal ''ID'' i p), s1)" "remaining s1 = r" by metis
    with Some \<open>ir = (i, r)\<close> show ?thesis
      by (cases "fn i") (auto simp: n(1) m(1) docallback_def exprValueNode_def)
  next
    case None
    then obtain s0 where id_none: "id_parser s = Done (None, s0)" using id_parser_None by blast
    show ?thesis
    proof (cases "token_char 0x28 (remaining s)")
      case no_paren: None
      then have "openparan s = Done (None, s)" by (simp add: openparan_def char_token_None)
      with id_none None no_paren show ?thesis by (simp add: n(1) m(1) And_def)
    next
      case (Some r1)
      then obtain t p s1 where open1: "openparan s = Done (Some (Terminal ''OPENPARAN'' t p), s1)" "remaining s1 = r1"
        using char_token_Some unfolding openparan_def by metis
      from Some have short: "length r1 < length (remaining s)" by (rule token_char_shorter)
      then have sum: "agrees (sum_parser fn m' s1) (parse_sum fn n' r1)"
        using sum_agreesD [OF sums [of "length r1"], of s1 n' m'] len n(2) m(2) open1(2) by simp
      show ?thesis
      proof (cases "parse_sum fn n' r1")
        case (Parsed b r2)
        with sum obtain s2 where s2: "sum_parser fn m' s1 = Done (Some (BoolNode b), s2)" "remaining s2 = r2" by auto
        show ?thesis
        proof (cases "token_char 0x29 r2")
          case no_close: None
          then have "closeparan s2 = Done (None, s2)" using s2(2) by (simp add: closeparan_def char_token_None)
          with id_none None Some open1 s2 Parsed no_close show ?thesis by (simp add: n(1) m(1) And_def)
        next
          case close: (Some r3)
          then obtain t' p' s3 where "closeparan s2 = Done (Some (Terminal ''CLOSEPARAN'' t' p'), s3)" "remaining s3 = r3"
            using char_token_Some s2(2) unfolding closeparan_def by metis
          with id_none None Some open1 s2 Parsed close show ?thesis
            by (simp add: n(1) m(1) And_def docallback_def exprNode_def exprValueNode_def)
        qed
      qed (use id_none None Some open1 sum in \<open>auto simp: n(1) m(1) And_def\<close>)
    qed
  qed
qed

lemma descent_correct: "value_agrees fn L \<and> sum_agrees fn L"
proof (induction L rule: less_induct)
  case (less L)
  then have "value_agrees fn L" using value_correct by blast
  with less have "value_agrees fn l" if "l \<le> L" for l using that by (cases "l = L") auto
  then show ?case using sum_correct by blast
qed

section \<open>The result\<close>

definition combinator_fuel :: "bytes \<Rightarrow> nat" where
  "combinator_fuel expr = 2 * length expr + 2"

definition run_of :: "'a option \<Rightarrow> 'a run" where
  "run_of r = (case r of None \<Rightarrow> Stuck | Some x \<Rightarrow> Done x)"

lemma OrdChoice_fail: "OrdChoice cb ps s = Done (None, s1) \<Longrightarrow> s1 = s"
  by (induction cb ps s rule: OrdChoice.induct) (auto simp: go_simps split: option.splits)

lemma parser_run:
  assumes "combinator_fuel expr \<le> fuel"
  shows "Evaluate_parser (InitParser fuel fn) expr = run_of (Evaluate fn expr)"
proof -
  have sum: "agrees (sum_parser fn fuel (NewScanner expr)) (parse_sum fn (parse_fuel expr) expr)"
    using sum_agreesD [of fn "length expr" "NewScanner expr" "parse_fuel expr" fuel]
      descent_correct [of fn "length expr"] assms
    by (simp add: combinator_fuel_def parse_fuel_def)
  show ?thesis
    using sum
    by (cases "parse_sum fn (parse_fuel expr) expr")
      (auto simp: Evaluate_parser_def InitParser_def Evaluate_def run_of_def docallback_def one2one_def
        Endof_rest Let_def)
qed

end
