(* ===== verification/DarcProps.thy ===== *)
theory DarcProps
  imports Examples DarcCorrect Requests CombinatorsCorrect
begin

text \<open>The properties of darcs, of the requests they accept, and of their expressions.\<close>

section \<open>The inputs of the witnesses\<close>

text \<open>A stand-in signature scheme: a signature is the key in front of the message.\<close>

definition demo_crypto :: "(byte, byte, unit) crypto" where
  "demo_crypto = \<lparr>point_string = (\<lambda>p. hex_string [p]), point_equal = (=),
     schnorr_Verify = (\<lambda>p m s. s = p # m), schnorr_Sign = (\<lambda>k m. Inr (k # m)),
     parse_pkix = (\<lambda>x. Inl LibraryError), asn1_signature = (\<lambda>x. Inl LibraryError),
     sha384 = (\<lambda>x. x), ecdsa_Verify = (\<lambda>k m rs. False)\<rparr>"

definition demo_signer :: "byte \<Rightarrow> (byte, byte) signer" where
  "demo_signer p = \<lparr>sg_ed25519 = Some (p, p), sg_x509ec = None\<rparr>"

definition demo_id :: "byte \<Rightarrow> byte identity" where
  "demo_id p = NewIdentityEd25519 p"

definition demo_darc :: "byte darc" where
  "demo_darc = NewDarc (InitRules demo_crypto [demo_id 7] [demo_id 7, demo_id 8]) [1]"

text \<open>The next version of the darc, signed by its owner.\<close>

definition demo_evolved :: "byte darc" where
  "demo_evolved =
     (let base = GetID demo_sha demo_darc;
          d = Darc 1 [2] (Some base) (Rules demo_darc) [demo_darc] [] []
      in Darc 1 [2] (Some base) (Rules demo_darc) [demo_darc] []
           [\<lparr>sig_bytes = 7 # DarcHash demo_crypto demo_sha base evolve (GetID demo_sha d) [demo_id 7],
             sig_signer = demo_id 7\<rparr>])"

lemma demo_signer_sound: "sound_signer demo_crypto (demo_signer p)"
  by (simp add: sound_signer_def demo_signer_def demo_crypto_def)

lemma demo_id_string: "identity_String demo_crypto (demo_id 7) = ascii ''ed25519:07''"
  "identity_String demo_crypto (demo_id 8) = ascii ''ed25519:08''"
  by code_simp+

lemma demo_id_ok: "id_ok (ascii ''ed25519:07'')" "id_ok (ascii ''ed25519:08'')"
proof -
  have "ascii ''ed25519:07'' = ascii ''ed25519'' @ [0x3a] @ ascii ''07''"
    "ascii ''ed25519:08'' = ascii ''ed25519'' @ [0x3a] @ ascii ''08''"
    "ascii ''ed25519'' \<noteq> []" "ascii ''07'' \<noteq> []" "ascii ''08'' \<noteq> []"
    "list_all is_alnum (ascii ''ed25519'')" "list_all is_hex (ascii ''07'')" "list_all is_hex (ascii ''08'')"
    by code_simp+
  then show "id_ok (ascii ''ed25519:07'')" "id_ok (ascii ''ed25519:08'')"
    unfolding id_ok_def by blast+
qed

lemma demo_key_id: "key_id demo_crypto (demo_id 7)" "key_id demo_crypto (demo_id 8)"
proof -
  have "\<not> is_darc_id (ascii ''ed25519:07'')" "\<not> is_darc_id (ascii ''ed25519:08'')" by code_simp+
  then show "key_id demo_crypto (demo_id 7)" "key_id demo_crypto (demo_id 8)"
    using demo_id_ok by (simp_all add: key_id_def demo_id_string)
qed

section \<open>Evolution\<close>

text \<open>C18: A darc that is not a first version and passes \<open>Verify\<close> has a path that starts with a darc of
  version zero whose ID is the base ID of all, whose versions go up one by one to the darc's own, and in
  which the signers of each darc satisfy the evolution rule of the darc before it and have signed its
  digest.\<close>

theorem evolution_chain:
  assumes "verify_with cr sha eval getDarc (Some d) = Some (None, Some d')" "Version d \<noteq> 0"
  shows "\<exists>base rest. Path d' = base # rest \<and> Version base = 0 \<and>
    chain_ok cr sha eval base (rest @ [d']) \<and>
    (\<forall>i < length rest. Version (rest ! i) = of_nat (Suc i)) \<and> Version d' = of_nat (length (Path d')) \<and>
    GetBaseID sha d' = GetID sha base \<and> (d' = d \<or> d' = set_path d (Path d'))"
proof -
  obtain base rest where c: "Path d' = base # rest" "Version base = 0"
    "chain_ok cr sha eval base (rest @ [d'])" "d' = d \<or> d' = set_path d (Path d')"
    using verify_with_chain [OF assms] by blast
  have rest: "\<forall>i < length rest. Version (rest ! i) = of_nat (Suc i)"
  proof (intro allI impI)
    fix i assume "i < length rest"
    with chain_ok_nth [OF c(3), of i] c(2) show "Version (rest ! i) = of_nat (Suc i)"
      by (simp add: nth_append)
  qed
  have "Version d' = of_nat (Suc (length rest))" "GetBaseID sha d' = GetID sha base"
    using chain_ok_nth [OF c(3), of "length rest"] c(2) by (simp_all add: GetBaseID_def [of sha base])
  with c rest show ?thesis by auto
qed

theorem evolution_chain_witness:
  "\<exists>base rest. Path demo_evolved = base # rest \<and> Version base = 0 \<and>
     Version demo_evolved = of_nat (length (Path demo_evolved)) \<and>
     GetBaseID demo_sha demo_evolved = GetID demo_sha base"
proof -
  have "darc_Verify demo_crypto demo_sha (Some demo_evolved) = Some (None, Some demo_evolved)"
    "Version demo_evolved \<noteq> 0"
    by code_simp+
  from evolution_chain [OF this [unfolded darc_Verify_def]] show ?thesis by blast
qed

text \<open>A darc whose path starts with a darc that is not a first version makes \<open>Verify\<close> dereference a
  nil pointer: no error is returned.\<close>

theorem path_with_later_base_panics:
  assumes "Version d \<noteq> 0" "Signatures d \<noteq> []" "Path d = p # ps" "Version p \<noteq> 0" "BaseID p \<noteq> None"
  shows "darc_Verify cr sha (Some d) = None"
  unfolding darc_Verify_def by (rule verify_with_panics [OF assms])

theorem path_with_later_base_panics_witness:
  "darc_Verify demo_crypto demo_sha (Some (set_path demo_evolved [demo_evolved])) = None"
proof (rule path_with_later_base_panics)
  show "Version (set_path demo_evolved [demo_evolved]) \<noteq> 0" "Signatures (set_path demo_evolved [demo_evolved]) \<noteq> []"
    "Path (set_path demo_evolved [demo_evolved]) = demo_evolved # []" "Version demo_evolved \<noteq> 0"
    "BaseID demo_evolved \<noteq> None"
    by (simp_all add: set_path_def demo_evolved_def Let_def)
qed

section \<open>Requests\<close>

text \<open>C19: What a darc accepts, exactly: a request is verified without error if and only if it is signed,
  has a signature for each identity, is for this darc (by its base ID) and for an action the darc has a
  rule for, every identity has signed the digest of the request, and the rule evaluates to true on the
  identities.\<close>

theorem request_accepted_iff:
  "request_verify_with cr sha eval r d = Some None \<longleftrightarrow>
     rq_Signatures r \<noteq> [] \<and> length (rq_Signatures r) = length (rq_Identities r) \<and>
     rq_BaseID r = GetBaseID sha d \<and> Contains (Rules d) (rq_Action r) \<and>
     (\<forall>j < length (rq_Identities r).
        identity_Verify cr (rq_Identities r ! j) (request_Hash cr sha r) (rq_Signatures r ! j) = Some None) \<and>
     eval (rule_at (Rules d) (rq_Action r)) (map (identity_String cr) (rq_Identities r)) = Some None"
  by (rule request_verify_iff)

definition demo_request :: "byte request" where
  "demo_request =
     (case InitAndSignRequest demo_crypto demo_sha (GetBaseID demo_sha demo_darc) sign [5] [demo_signer 8, demo_signer 9]
      of Some (Inr r) \<Rightarrow> r)"

theorem request_accepted_iff_witness:
  "request_verify_with demo_crypto demo_sha evalExpr_nil demo_request demo_darc = Some None \<and>
   request_verify_with demo_crypto demo_sha evalExpr_nil (demo_request\<lparr>rq_Signatures := []\<rparr>) demo_darc \<noteq> Some None"
proof -
  have "rq_Signatures demo_request \<noteq> [] \<and> length (rq_Signatures demo_request) = length (rq_Identities demo_request) \<and>
      rq_BaseID demo_request = GetBaseID demo_sha demo_darc \<and> Contains (Rules demo_darc) (rq_Action demo_request) \<and>
      (\<forall>j < length (rq_Identities demo_request). identity_Verify demo_crypto (rq_Identities demo_request ! j)
        (request_Hash demo_crypto demo_sha demo_request) (rq_Signatures demo_request ! j) = Some None) \<and>
      evalExpr_nil (rule_at (Rules demo_darc) (rq_Action demo_request))
        (map (identity_String demo_crypto) (rq_Identities demo_request)) = Some None"
    by code_simp
  then show ?thesis
    using request_accepted_iff [of demo_crypto demo_sha evalExpr_nil demo_request demo_darc]
      request_accepted_iff [of demo_crypto demo_sha evalExpr_nil "demo_request\<lparr>rq_Signatures := []\<rparr>" demo_darc]
    by simp
qed

text \<open>C20: A request that signers with working keys make with \<open>InitAndSignRequest\<close> is accepted by the darc
  it is for, when the darc has a rule for the action and the rule holds for the signers.\<close>

theorem signed_request_verifies:
  assumes "signers \<noteq> []" "\<forall>s \<in> set signers. sound_signer cr s"
    and "Contains (Rules d) act" "base = GetBaseID sha d"
    and "evalExpr_nil (rule_at (Rules d) act) (map (identity_String cr \<circ> the \<circ> signer_Identity) signers) = Some None"
  shows "\<exists>r. InitAndSignRequest cr sha base act msg signers = Some (Inr r) \<and> rq_Msg r = msg \<and>
    request_Verify cr sha r d = Some None"
  unfolding request_Verify_def
  by (rule signed_request_accepted [where eval = evalExpr_nil, OF assms])

theorem signed_request_verifies_witness:
  "\<exists>r. InitAndSignRequest demo_crypto demo_sha (GetBaseID demo_sha demo_darc) sign [5] [demo_signer 8] = Some (Inr r) \<and>
     rq_Msg r = [5] \<and> request_Verify demo_crypto demo_sha r demo_darc = Some None"
proof (rule signed_request_verifies)
  show "Contains (Rules demo_darc) sign"
    "evalExpr_nil (rule_at (Rules demo_darc) sign)
       (map (identity_String demo_crypto \<circ> the \<circ> signer_Identity) [demo_signer 8]) = Some None"
    by code_simp+
qed (simp_all add: demo_signer_sound)

section \<open>Expressions\<close>

text \<open>C22: Printing and parsing: for every expression tree of ids, \<open>&\<close>, \<open>|\<close> and parentheses, \<open>Evaluate\<close>
  with the parser of \<open>InitParser\<close> on its text returns the value of the tree (operators from left to
  right, without precedence), for every callback that answers on its ids.\<close>

theorem expression_value:
  assumes "value_ok v" "tail_ok t" "\<forall>i \<in> value_ids v \<union> tail_ids t. fn i = Some (g i)"
    and "combinator_fuel (show_value v @ show_tail t) \<le> fuel"
  shows "Evaluate_parser (InitParser fuel fn) (show_value v @ show_tail t) =
    Done (Inr (eval_tail g t (eval_value g v)))"
  using Evaluate_show [OF assms(1-3)] by (simp add: parser_run [OF assms(4)] run_of_def)

theorem expression_value_witness:
  "Evaluate_parser (InitParser 90 (\<lambda>i. Some (i = ascii ''ed25519:07'')))
     (ascii ''ed25519:08 | ed25519:07 & (ed25519:08)'') = Done (Inr False)"
proof -
  let ?a = "VId (ascii ''ed25519:07'')" and ?b = "VId (ascii ''ed25519:08'')"
  have "ascii ''ed25519:08 | ed25519:07 & (ed25519:08)'' =
      show_value ?b @ show_tail (EOr ?a (EAnd (VGroup ?b ENil) ENil))"
    "ascii ''ed25519:07'' \<noteq> ascii ''ed25519:08''"
    "combinator_fuel (show_value ?b @ show_tail (EOr ?a (EAnd (VGroup ?b ENil) ENil))) \<le> 90"
    by code_simp+
  with expression_value [of ?b "EOr ?a (EAnd (VGroup ?b ENil) ENil)" "\<lambda>i. Some (i = ascii ''ed25519:07'')"
      "\<lambda>i. i = ascii ''ed25519:07''" 90] demo_id_ok
  show ?thesis by simp
qed

text \<open>C32: The parser \<open>InitParser\<close> builds from goparsec's combinators is the recursive-descent parser of
  theory Expression: on every input and for every callback both give the same value or the same error,
  or neither returns because the callback does not. No type assertion or index in the callbacks
  \<open>sumNode\<close>, \<open>exprNode\<close> and \<open>exprValueNode\<close> ever fails, and the references between \<open>sum\<close> and
  \<open>value\<close> are followed at most twice as often as the input is long.\<close>

theorem combinators_descend:
  assumes "combinator_fuel expr \<le> fuel"
  shows "Evaluate_parser (InitParser fuel fn) expr =
    (case Evaluate fn expr of None \<Rightarrow> Stuck | Some r \<Rightarrow> Done r)"
  using parser_run [OF assms] by (simp add: run_of_def)

theorem combinators_descend_witness:
  "Evaluate_parser (InitParser 30 (\<lambda>i. Some True)) (ascii ''(a:a & b:b'') = Done (Inl ScannerNotEmpty) \<and>
   Evaluate_parser (InitParser 30 (\<lambda>i. Some True)) (ascii ''a:a|(b:b)'') = Done (Inr True) \<and>
   Evaluate_parser (InitParser 30 (\<lambda>i. None)) (ascii ''a:a|(b:b)'') = Stuck"
proof -
  let ?e = "ascii ''(a:a & b:b''" and ?f = "ascii ''a:a|(b:b)''"
  have "combinator_fuel ?e \<le> 30" "combinator_fuel ?f \<le> 30"
    and "Evaluate (\<lambda>i. Some True) ?e = Some (Inl ScannerNotEmpty)"
    and "Evaluate (\<lambda>i. Some True) ?f = Some (Inr True)" "Evaluate (\<lambda>i. None) ?f = None"
    by code_simp+
  then show ?thesis by (simp add: combinators_descend)
qed

text \<open>C23: The default rules of a new darc mean what they are for: in a darc made with the initial rules for
  owners and signers, the evolution rule holds exactly when every owner is among the ids, and the signing
  rule exactly when some signer is. The identities are keys, not darcs, and any positive fuel is enough.\<close>

theorem key_rule_value:
  assumes "owners \<noteq> []" "\<forall>i \<in> set owners. key_id cr i" "signers \<noteq> []" "\<forall>i \<in> set signers. key_id cr i"
  shows "evalExpr cr sha (Suc n) getDarc (GetEvolutionExpr (Rules (NewDarc (InitRules cr owners signers) desc))) ids =
      Some (if identity_String cr ` set owners \<subseteq> set ids then None else Some EvaluatedToFalse) \<and>
    evalExpr cr sha (Suc n) getDarc (GetSignExpr (Rules (NewDarc (InitRules cr owners signers) desc))) ids =
      Some (if identity_String cr ` set signers \<inter> set ids \<noteq> {} then None else Some EvaluatedToFalse)"
  using evalExpr_key_rule(1) [OF assms(1,2)] evalExpr_key_rule(2) [OF assms(3,4)]
  by (simp add: NewDarc_def GetEvolutionExpr_def GetSignExpr_def InitRules_at)

theorem key_rule_value_witness:
  "let rs = Rules (NewDarc (InitRules demo_crypto [demo_id 7, demo_id 8] [demo_id 7, demo_id 8]) [1]) in
     evalExpr demo_crypto demo_sha 1 (\<lambda>s. None) (GetEvolutionExpr rs) [ascii ''ed25519:08''] = Some (Some EvaluatedToFalse) \<and>
     evalExpr demo_crypto demo_sha 1 (\<lambda>s. None) (GetSignExpr rs) [ascii ''ed25519:08''] = Some None"
proof -
  have "ascii ''ed25519:07'' \<noteq> ascii ''ed25519:08''" by code_simp
  with key_rule_value [of "[demo_id 7, demo_id 8]" demo_crypto "[demo_id 7, demo_id 8]" demo_sha 0 "\<lambda>s. None" "[1]"
      "[ascii ''ed25519:08'']"]
  show ?thesis using demo_key_id by (simp add: demo_id_string Let_def)
qed

text \<open>C21: Delegation terminates when it is well founded: if the darcs that can be fetched have ranks, every
  darc named in the signing rule of another having a smaller rank, then evaluating an expression whose
  darcs have ranks below \<open>n\<close> returns, the recursion is at most \<open>n + 1\<close> deep, and the result does not
  depend on how much deeper it might go.\<close>

theorem delegation_terminates:
  assumes "ranked cr sha getDarc rank" "\<And>t. is_darc_id t \<Longrightarrow> occurs t e \<Longrightarrow> rank t < n"
  shows "\<exists>r. \<forall>m > n. evalExpr cr sha m getDarc e ids = Some r"
proof -
  obtain r where "evalExpr cr sha (Suc n) getDarc e ids = Some r"
    using evalExpr_terminates [where ids = ids, OF assms] by blast
  then have "\<forall>m > n. evalExpr cr sha m getDarc e ids = Some r"
    using evalExpr_mono [where n = "Suc n" and r = r] unfolding Suc_le_eq by blast
  then show ?thesis by blast
qed

text \<open>One darc, which the expression delegates to and which names keys only.\<close>

definition demo_delegate :: "bytes \<Rightarrow> byte darc option" where
  "demo_delegate s = Some (Darc 0 [] None [(sign, ascii ''ed25519:07'')] [] [] [])"

theorem delegation_terminates_witness:
  "\<exists>r. \<forall>m > 1. evalExpr demo_crypto demo_sha m demo_delegate (ascii ''darc:aa | ed25519:08'')
     [ascii ''ed25519:07''] = Some r"
proof (rule delegation_terminates)
  have rule: "rule_at [(sign, ascii ''ed25519:07'')] sign = ascii ''ed25519:07''" by (simp add: rule_at_def)
  have "\<not> occurs t (ascii ''ed25519:07'')" if "is_darc_id t" for t
  proof
    assume "occurs t (ascii ''ed25519:07'')"
    then have sub: "set t \<subseteq> set (ascii ''ed25519:07'')" by (auto simp: occurs_def)
    have "0x61 \<in> set (ascii ''darc'')" by code_simp
    then have "0x61 \<in> set t" using that by (metis is_darc_id_def in_set_takeD)
    moreover have "(0x61 :: byte) \<notin> set (ascii ''ed25519:07'')" by code_simp
    ultimately show False using sub by blast
  qed
  then show "ranked demo_crypto demo_sha demo_delegate (\<lambda>s. 0)"
    by (auto simp: ranked_def demo_delegate_def darc_Verify_def verify_with_def rule)
qed simp

section \<open>Rules and IDs\<close>

text \<open>C28: The two default rules of a darc stay and can only be changed on purpose: whatever rules are added,
  updated and deleted from the initial ones, and however the default rules are updated, every action keeps
  one rule, the evolution and the signing rule are there, and each is what \<open>UpdateEvolution\<close> or \<open>UpdateSign\<close>
  last asked for, or the one the darc was made with if there was no such update.\<close>

theorem default_rules_invariant:
  "distinct (map fst (foldl after_rule_op (InitRules cr owners signers) ops)) \<and>
   Contains (foldl after_rule_op (InitRules cr owners signers) ops) evolve \<and>
   Contains (foldl after_rule_op (InitRules cr owners signers) ops) sign \<and>
   rule_at (foldl after_rule_op (InitRules cr owners signers) ops) evolve =
     last_evolution (InitAndExpr (map (identity_String cr) owners)) ops \<and>
   rule_at (foldl after_rule_op (InitRules cr owners signers) ops) sign =
     last_sign (InitOrExpr (map (identity_String cr) signers)) ops"
  using rule_ops_default [OF InitRules_ok, of cr owners signers ops] by (simp add: InitRules_at rules_ok_def)

theorem default_rules_invariant_witness:
  "let r = foldl after_rule_op (InitRules demo_crypto [demo_id 7] [demo_id 8])
       [OpAdd [9] [1], OpUpdate evolve [2], OpDelete sign, OpEvolution [3]] in
     rule_at r evolve = [3] \<and> rule_at r sign = ascii ''ed25519:08''"
proof -
  have "InitOrExpr [ascii ''ed25519:08''] = ascii ''ed25519:08''" by code_simp
  then show ?thesis
    using default_rules_invariant [of demo_crypto "[demo_id 7]" "[demo_id 8]"
        "[OpAdd [9] [1], OpUpdate evolve [2], OpDelete sign, OpEvolution [3]]"]
    by (simp add: demo_id_string Let_def)
qed

text \<open>C29: The ID of a darc does not depend on the order of its rules (a Go map has none): two darcs with
  the same rules as a map and otherwise the same hashed fields have the same ID.\<close>

theorem darc_id_rule_order:
  assumes "distinct (map fst (Rules d))" "distinct (map fst (Rules d'))"
    and "map_of (Rules d) = map_of (Rules d')"
    and "Version d = Version d'" "Description d = Description d'" "BaseID d = BaseID d'"
      "PathDigest d = PathDigest d'"
  shows "GetID sha d = GetID sha d'"
  unfolding GetID_def using GetID_rules_order [OF assms] by simp

theorem darc_id_rule_order_witness:
  "GetID demo_sha (Darc 0 [1] None [([1], [2]), ([3], [4])] [] [] [] :: byte darc) =
   GetID demo_sha (Darc 0 [1] None [([3], [4]), ([1], [2])] [] [] [])"
  by (rule darc_id_rule_order) (auto simp: fun_eq_iff)

end
