(* ===== verification/Service.thy ===== *)
theory Service
  imports ServiceProof
begin

text \<open>
  Models \<open>omniledger/service/service.go\<close>: the handlers of the service, the creation of blocks and
  the workers that collect transactions.

  What the service takes from elsewhere is in an environment: the cryptography of the darcs, SHA-256,
  encoders and decoders, and the skipchain service over its database \<open>'d\<close>. The maps of the service
  are HOL maps; \<open>disk\<close> holds the buckets of the collections the service has not opened. Propagation
  only calls \<open>updateCollection\<close> on the nodes, which does nothing, and its result is only logged.
  Logging is left out. A handler gives its result and the service afterwards; \<open>None\<close> is a panic.
\<close>

section \<open>Environment and state\<close>

record ('p, 's, 'k, 'r, 'd) env =
  env_crypto :: "('p, 's, 'k) crypto"
  env_sha :: "bytes \<Rightarrow> bytes"
  decode_darc :: "bytes \<Rightarrow> darc_error + 'p darc"
  encode_darc :: "'p darc \<Rightarrow> darc_error + bytes"
  encode_config :: "config \<Rightarrow> service_error + bytes"
  decode_config :: "bytes \<Rightarrow> service_error + config"
  encode_change :: "state_change \<Rightarrow> bytes option"
  marshal_tx :: "'p client_tx \<Rightarrow> service_error + bytes"
  unmarshal_tx :: "bytes \<Rightarrow> service_error + 'p client_tx"
  marshal_header :: "data_header \<Rightarrow> service_error + bytes"
  unmarshal_header :: "bytes \<Rightarrow> service_error + data_header option"
  GetByID :: "'d \<Rightarrow> bytes \<Rightarrow> 'r skipblock option"
  GetLatest :: "'d \<Rightarrow> 'r skipblock option \<Rightarrow> service_error + 'r skipblock"
  StoreSkipBlock :: "'d \<Rightarrow> 'r skipblock \<Rightarrow> bytes \<Rightarrow> (service_error + 'r skipblock) \<times> 'd"
  GetAllSkipchains :: "'d \<Rightarrow> service_error + bytes list"
  Save_storage :: "int \<Rightarrow> service_error option"

text \<open>
  A worker: its interval, the transactions it has collected since the last block, and whether it
  still receives (it stops when \<open>CloseQueues\<close> is closed).
\<close>

record 'p worker =
  wk_interval :: "64 word"
  wk_ts :: "'p client_tx list"
  wk_running :: bool

record ('p, 'd) service =
  collectionDB :: "bytes \<rightharpoonup> collection_db"
  disk :: "bytes \<rightharpoonup> bucket"
  queueWorkers :: "bytes \<rightharpoonup> 'p worker"
  queues_closed :: bool
  contracts :: "bytes \<rightharpoonup> 'p contract"
  PropTimeout :: int
  stored :: "service_error + int option option"
  skipdb :: 'd

text \<open>
  \<open>stored\<close> is what \<open>Load\<close> would give for the service's storage, of which the timeout is the only
  field: an error, nothing, something of another type, or a timeout. \<open>save\<close> writes it; an error of
  \<open>Save\<close> is logged.
\<close>

definition save :: "('p, 's, 'k, 'r, 'd) env \<Rightarrow> ('p, 'd) service \<Rightarrow> ('p, 'd) service" where
  "save env s =
     (case Save_storage env (PropTimeout s) of
        None \<Rightarrow> s\<lparr>stored := Inr (Some (Some (PropTimeout s)))\<rparr>
      | Some err \<Rightarrow> s)"

lemma save_simps [simp]:
  "collectionDB (save env s) = collectionDB s" "disk (save env s) = disk s"
  "queueWorkers (save env s) = queueWorkers s" "queues_closed (save env s) = queues_closed s"
  "contracts (save env s) = contracts s" "PropTimeout (save env s) = PropTimeout s"
  "skipdb (save env s) = skipdb s"
  by (simp_all add: save_def split: option.split)

text \<open>What a handler gives.\<close>

type_synonym ('p, 'd, 'a) handled = "('a \<times> ('p, 'd) service) option"

definition CurrentVersion :: int where "CurrentVersion = 1"

text \<open>Five seconds, in nanoseconds.\<close>

definition defaultInterval :: "64 word" where "defaultInterval = 5000000000"

definition verifyOmniLedger :: bytes where "verifyOmniLedger = ascii ''OmniLedger''"
definition verifyBase :: bytes where "verifyBase = ascii ''Base''"

section \<open>Collections and darcs\<close>

definition getCollection ::
  "('p, 's, 'k, 'r, 'd) env \<Rightarrow> ('p, 'd) service \<Rightarrow> bytes \<Rightarrow> ('p, 'd, collection_db) handled" where
  "getCollection env s scID =
     (let idStr = hex_string scID in
      case collectionDB s idStr of
        Some col \<Rightarrow> Some (col, s)
      | None \<Rightarrow>
          do {
            col \<leftarrow> newCollectionDB (env_sha env) (disk s idStr);
            Some (col, s\<lparr>collectionDB := (collectionDB s)(idStr \<mapsto> col)\<rparr>)
          })"

definition toObjectID :: "bytes \<Rightarrow> object_id" where
  "toObjectID dID = \<lparr>DarcID = dID, InstanceID = ZeroNonce\<rparr>"

definition loadConfig ::
  "('p, 's, 'k, 'r, 'd) env \<Rightarrow> ('p, 'd) service \<Rightarrow> bytes \<Rightarrow> ('p, 'd, service_error + config) handled" where
  "loadConfig env s scID =
     do {
       (coll, s') \<leftarrow> getCollection env s scID;
       ref \<leftarrow> GetValueContract (env_sha env) coll (oid_Slice GenesisReferenceID);
       (case ref of
          Inl err \<Rightarrow> Some (Inl err, s')
        | Inr (val, contract) \<Rightarrow>
            if contract \<noteq> ContractConfigID then Some (Inl NotConfig, s')
            else if length val \<noteq> 32 then Some (Inl InvalidValueLength, s')
            else do {
              entry \<leftarrow> GetValueContract (env_sha env) coll
                (oid_Slice \<lparr>DarcID = val, InstanceID = OneNonce\<rparr>);
              Some (case entry of
                  Inl err \<Rightarrow> (Inl err, s')
                | Inr (val, contract) \<Rightarrow>
                    if contract \<noteq> ContractConfigID then (Inl NotConfig, s')
                    else (decode_config env val, s'))
            })
     }"

text \<open>The interval is returned beside the error.\<close>

definition loadBlockInterval ::
  "('p, 's, 'k, 'r, 'd) env \<Rightarrow> ('p, 'd) service \<Rightarrow> bytes \<Rightarrow>
   ('p, 'd, 64 word \<times> service_error option) handled" where
  "loadBlockInterval env s scID =
     do {
       (res, s') \<leftarrow> loadConfig env s scID;
       Some (case res of
           Inl err \<Rightarrow> ((defaultInterval, Some err), s')
         | Inr config \<Rightarrow> ((BlockInterval config, None), s'))
     }"

definition loadLatestDarc ::
  "('p, 's, 'k, 'r, 'd) env \<Rightarrow> ('p, 'd) service \<Rightarrow> bytes \<Rightarrow> bytes \<Rightarrow>
   ('p, 'd, service_error + 'p darc) handled" where
  "loadLatestDarc env s sid dID =
     do {
       (colldb, s') \<leftarrow> getCollection env s sid;
       res \<leftarrow> GetValueContract (env_sha env) colldb (oid_Slice (toObjectID dID));
       Some (case res of
           Inl err \<Rightarrow> (Inl err, s')
         | Inr (value, contract) \<Rightarrow>
             if contract \<noteq> ascii ''darc'' then (Inl NotDarc, s')
             else (case decode_darc env value of
                 Inl err \<Rightarrow> (Inl (DarcError err), s')
               | Inr d \<Rightarrow> (Inr d, s')))
     }"

section \<open>Verifying transactions\<close>

definition verifyInstruction ::
  "('p, 's, 'k, 'r, 'd) env \<Rightarrow> ('p, 'd) service \<Rightarrow> bytes \<Rightarrow> 'p instruction \<Rightarrow>
   ('p, 'd, service_error option) handled" where
  "verifyInstruction env s scID instr =
     do {
       (res, s') \<leftarrow> loadLatestDarc env s scID (DarcID (in_ObjectID instr));
       (case res of
          Inl err \<Rightarrow> Some (Some err, s')
        | Inr d \<Rightarrow>
            do {
              err \<leftarrow> request_Verify (env_crypto env) (env_sha env) (ToDarcRequest (env_sha env) instr) d;
              Some (map_option DarcError err, s')
            })
     }"

fun verifyClientTx ::
  "('p, 's, 'k, 'r, 'd) env \<Rightarrow> ('p, 'd) service \<Rightarrow> bytes \<Rightarrow> 'p client_tx \<Rightarrow>
   ('p, 'd, service_error option) handled" where
  "verifyClientTx env s scID [] = Some (None, s)"
| "verifyClientTx env s scID (instr # instrs) =
     do {
       (err, s') \<leftarrow> verifyInstruction env s scID instr;
       (case err of Some e \<Rightarrow> Some (Some e, s') | None \<Rightarrow> verifyClientTx env s' scID instrs)
     }"

fun verifyAndFilterTxs ::
  "('p, 's, 'k, 'r, 'd) env \<Rightarrow> ('p, 'd) service \<Rightarrow> bytes \<Rightarrow> 'p client_tx list \<Rightarrow>
   ('p, 'd, 'p client_tx list) handled" where
  "verifyAndFilterTxs env s scID [] = Some ([], s)"
| "verifyAndFilterTxs env s scID (t # ts) =
     do {
       (err, s1) \<leftarrow> verifyClientTx env s scID t;
       (validTxs, s2) \<leftarrow> verifyAndFilterTxs env s1 scID ts;
       Some (case err of Some e \<Rightarrow> validTxs | None \<Rightarrow> t # validTxs, s2)
     }"

section \<open>State changes\<close>

text \<open>
  The instructions of one transaction run on a clone of the collection. The result is the clone, or
  \<open>None\<close> when the transaction is dropped, and the state changes: those of the instructions that went
  through before the one that failed stay in \<open>states\<close>.
\<close>

fun run_instructions ::
  "(bytes \<Rightarrow> bytes) \<Rightarrow> (bytes \<rightharpoonup> 'p contract) \<Rightarrow> collection \<Rightarrow> state_change list \<Rightarrow> 'p instruction list \<Rightarrow>
   (collection option \<times> state_change list) option" where
  "run_instructions sha fs cdbI states [] = Some (Some cdbI, states)"
| "run_instructions sha fs cdbI states (instr # instrs) =
     do {
       kind \<leftarrow> GetContractState sha instr cdbI;
       (case kind of
          Inl err \<Rightarrow> Some (None, states)
        | Inr (contractID, state) \<Rightarrow>
            (case fs contractID of
               None \<Rightarrow> Some (None, states)
             | Some f \<Rightarrow>
                 do {
                   out \<leftarrow> f cdbI instr [];
                   (case out of
                      Inl err \<Rightarrow> Some (None, states)
                    | Inr (scs, coins) \<Rightarrow>
                        do {
                          (err, cdbI') \<leftarrow> store_all (storeInColl sha) cdbI scs;
                          (case err of
                             Some e \<Rightarrow> Some (None, states)
                           | None \<Rightarrow> run_instructions sha fs cdbI' (states @ scs) instrs)
                        })
                 }))
     }"

fun run_transactions ::
  "(bytes \<Rightarrow> bytes) \<Rightarrow> (bytes \<rightharpoonup> 'p contract) \<Rightarrow> collection \<Rightarrow> state_change list \<Rightarrow> 'p client_tx list \<Rightarrow>
   (collection \<times> 'p client_tx list \<times> state_change list) option" where
  "run_transactions sha fs cdbTemp states [] = Some (cdbTemp, [], states)"
| "run_transactions sha fs cdbTemp states (ct # cts) =
     do {
       cdbI \<leftarrow> Clone cdbTemp;
       (res, states') \<leftarrow> run_instructions sha fs cdbI states ct;
       (case res of
          None \<Rightarrow> run_transactions sha fs cdbTemp states' cts
        | Some cdbI' \<Rightarrow>
            do {
              (final, ctsOK, states'') \<leftarrow> run_transactions sha fs cdbI' states' cts;
              Some (final, ct # ctsOK, states'')
            })
     }"

definition createStateChanges ::
  "(bytes \<Rightarrow> bytes) \<Rightarrow> (bytes \<rightharpoonup> 'p contract) \<Rightarrow> collection \<Rightarrow> 'p client_tx list \<Rightarrow>
   (bytes \<times> 'p client_tx list \<times> state_change list) option" where
  "createStateChanges sha fs coll cts =
     do {
       cdbTemp \<leftarrow> Clone coll;
       (final, ctsOK, states) \<leftarrow> run_transactions sha fs cdbTemp [] cts;
       Some (GetRoot final, ctsOK, states)
     }"

end
