(* ===== verification/Blocks.thy ===== *)
theory Blocks
  imports Service
begin

text \<open>
  The rest of \<open>service.go\<close>: blocks, the handlers \<open>CreateGenesisBlock\<close>, \<open>AddTransaction\<close> and
  \<open>GetProof\<close>, the start of the service, and the workers. \<open>now\<close> is what \<open>time.Now\<close> gives.

  A worker is one goroutine: it receives a transaction, makes a block, or stops. \<open>service_step\<close> is
  the relation of these steps and of the handlers, each taken as a whole.
\<close>

section \<open>Creating a block\<close>

definition NewSkipBlock :: "'r skipblock" where
  "NewSkipBlock =
     \<lparr>sb_Index = 0, sb_Hash = [], sb_GenesisID = [], sb_Roster = None, sb_MaximumHeight = 0,
      sb_BaseHeight = 0, sb_VerifierIDs = [], sb_Data = [], sb_ForwardLink = []\<rparr>"

text \<open>
  The first half of \<open>createNewBlock\<close>, up to the sorting: the block to fill in, the collection it is made
  from, and the transactions proposed for it. \<open>createStateChanges\<close> may drop some of these.
\<close>

definition prepare_block ::
  "('p, 's, 'k, 'r, 'd) env \<Rightarrow> ('p, 'd) service \<Rightarrow> bytes \<Rightarrow> 'r option \<Rightarrow> 'p client_tx list \<Rightarrow>
   ('p, 'd, service_error + 'r skipblock \<times> collection \<times> 'p client_tx list) handled" where
  "prepare_block env s scID r cts =
     (if scID = []
      then do {
        coll \<leftarrow> New (env_sha env) [Data, Data];
        Some (Inr (NewSkipBlock\<lparr>sb_Roster := r, sb_MaximumHeight := 10, sb_BaseHeight := 10,
                     sb_VerifierIDs := [verifyBase, verifyOmniLedger]\<rparr>, coll, cts), s)
      }
      else (case GetLatest env (skipdb s) (GetByID env (skipdb s) scID) of
          Inl err \<Rightarrow> Some (Inl NoLatestBlock, s)
        | Inr sbLatest \<Rightarrow>
            (let sb = (if r \<noteq> None then sbLatest\<lparr>sb_Roster := r\<rparr> else sbLatest) in
             do {
               (cts', s1) \<leftarrow> verifyAndFilterTxs env s (SkipChainID sb) cts;
               (if length cts' = 0 then Some (Inl NoValidTransaction, s1)
                else do {
                  (cdb, s2) \<leftarrow> getCollection env s1 scID;
                  Some (Inr (sb, cdb_coll cdb, cts'), s2)
                })
             })))"

definition createNewBlock ::
  "('p, 's, 'k, 'r, 'd) env \<Rightarrow> ('p, 'd) service \<Rightarrow> int \<Rightarrow> bytes \<Rightarrow> 'r option \<Rightarrow> 'p client_tx list \<Rightarrow>
   ('p, 'd, service_error + 'r skipblock) handled" where
  "createNewBlock env s now scID r cts =
     do {
       (prep, s1) \<leftarrow> prepare_block env s scID r cts;
       (case prep of
          Inl err \<Rightarrow> Some (Inl err, s1)
        | Inr (sb, coll, cts1) \<Rightarrow>
            (case sortTransactions (env_sha env) (marshal_tx env) (unmarshal_tx env) cts1 of
               Inl err \<Rightarrow> Some (Inl err, s1)
             | Inr cts2 \<Rightarrow>
                 do {
                   (mr, ctsOK, scs) \<leftarrow> createStateChanges (env_sha env) (contracts s1) coll cts2;
                   let header = \<lparr>CollectionRoot = mr, ClientTransactionHash = cts_Hash (env_sha env) ctsOK,
                                 StateChangesHash = scs_Hash (env_sha env) (encode_change env) scs,
                                 Timestamp = now\<rparr>;
                   Some (case marshal_header env header of
                       Inl err \<Rightarrow> (Inl MarshalError, s1)
                     | Inr buf \<Rightarrow>
                         (let (reply, db') = StoreSkipBlock env (skipdb s1) (sb\<lparr>sb_Data := buf\<rparr>) scID
                          in (reply, s1\<lparr>skipdb := db'\<rparr>)))
                 }))
     }"

text \<open>The body of \<open>updateCollection\<close> is commented out.\<close>

definition updateCollection :: "bytes \<Rightarrow> ('p, 'd) service \<Rightarrow> ('p, 'd) service" where
  "updateCollection newID s = s"

definition verifySkipBlock :: "('p, 's, 'k, 'r, 'd) env \<Rightarrow> bytes \<Rightarrow> 'r skipblock \<Rightarrow> bool" where
  "verifySkipBlock env newID newSB =
     (case unmarshal_header env (sb_Data newSB) of Inr (Some header) \<Rightarrow> True | _ \<Rightarrow> False)"

section \<open>The genesis block\<close>

record ('p, 'r) genesis_request =
  gr_Version :: int
  gr_Roster :: 'r
  gr_GenesisDarc :: "'p darc"
  gr_BlockInterval :: "64 word"

definition createQueueWorker :: "64 word \<Rightarrow> 'p worker" where
  "createQueueWorker interval = \<lparr>wk_interval = interval, wk_ts = [], wk_running = True\<rparr>"

definition genesis_tx :: "bytes \<Rightarrow> bytes \<Rightarrow> bytes \<Rightarrow> 'p client_tx" where
  "genesis_tx darcID darcBuf intervalBuf =
     [\<lparr>in_ObjectID = \<lparr>DarcID = darcID, InstanceID = ZeroNonce\<rparr>, in_Nonce = ZeroNonce, in_Index = 0,
       in_Length = 1,
       in_Spawn = Some \<lparr>sp_ContractID = ContractConfigID,
                        sp_Args = [\<lparr>arg_Name = ascii ''darc'', arg_Value = darcBuf\<rparr>,
                                   \<lparr>arg_Name = ascii ''block_interval'', arg_Value = intervalBuf\<rparr>]\<rparr>,
       in_Invoke = None, in_Delete = False, in_Signatures = []\<rparr>]"

type_synonym 'r genesis_response = "int \<times> 'r skipblock"

text \<open>\<open>Verify\<close> may set the path of the darc, which \<open>GetID\<close> does not read.\<close>

definition CreateGenesisBlock ::
  "('p, 's, 'k, 'r, 'd) env \<Rightarrow> ('p, 'd) service \<Rightarrow> int \<Rightarrow> ('p, 'r) genesis_request \<Rightarrow>
   ('p, 'd, service_error + 'r genesis_response) handled" where
  "CreateGenesisBlock env s now req =
     (if gr_Version req \<noteq> CurrentVersion then Some (Inl VersionMismatch, s)
      else case ToProto (encode_darc env) (Some (gr_GenesisDarc req)) of
        Inl err \<Rightarrow> Some (Inl (DarcError err), s)
      | Inr darcBuf \<Rightarrow>
          do {
            (err, d) \<leftarrow> darc_Verify (env_crypto env) (env_sha env) (Some (gr_GenesisDarc req));
            (if err \<noteq> None \<or> length (Rules (gr_GenesisDarc req)) = 0 then Some (Inl InvalidGenesisDarc, s)
             else do {
               let interval = (if gr_BlockInterval req = 0 then defaultInterval else gr_BlockInterval req);
               intervalBuf \<leftarrow> PutVarint (replicate 8 0) interval;
               (res, s1) \<leftarrow> createNewBlock env s now [] (Some (gr_Roster req))
                 [genesis_tx (GetID (env_sha env) (gr_GenesisDarc req)) darcBuf intervalBuf];
               Some (case res of
                   Inl err \<Rightarrow> (Inl err, s1)
                 | Inr sb \<Rightarrow>
                     (Inr (CurrentVersion, sb),
                      (save env s1)\<lparr>queueWorkers :=
                        (queueWorkers s1)(SkipChainID sb \<mapsto> createQueueWorker interval)\<rparr>))
             })
          })"

text \<open>\<open>DefaultGenesisMsg\<close> of \<open>api.go\<close>: an action that is given twice keeps its first rule.\<close>

definition add_rules :: "bytes list \<Rightarrow> rules \<Rightarrow> rules" where
  "add_rules actions rs =
     foldl (\<lambda>rs a. case AddRule rs a (GetSignExpr rs) of Inl err \<Rightarrow> rs | Inr rs' \<Rightarrow> rs') rs actions"

definition DefaultGenesisMsg ::
  "('p, 's, 'k) crypto \<Rightarrow> int \<Rightarrow> 'r \<Rightarrow> bytes list \<Rightarrow> 'p identity list \<Rightarrow>
   service_error + ('p, 'r) genesis_request" where
  "DefaultGenesisMsg cr v roster actions ids =
     (if length ids = 0 then Inl NoIdentities
      else (let d = NewDarc (InitRules cr ids ids) (ascii ''genesis darc'')
            in Inr \<lparr>gr_Version = v, gr_Roster = roster,
                    gr_GenesisDarc = Darc (Version d) (Description d) (BaseID d)
                      (add_rules actions (Rules d)) (Path d) (PathDigest d) (Signatures d),
                    gr_BlockInterval = defaultInterval\<rparr>))"

section \<open>Adding transactions\<close>

record 'p add_request =
  ar_Version :: int
  ar_SkipchainID :: bytes
  ar_Transaction :: "'p client_tx"

type_synonym add_response = int

text \<open>
  The channel has no buffer: the handler waits until the worker receives. It waits for ever
  (\<open>None\<close>) when the worker has stopped.
\<close>

definition AddTransaction ::
  "('p, 'd) service \<Rightarrow> 'p add_request \<Rightarrow> ('p, 'd, service_error + add_response) handled" where
  "AddTransaction s req =
     (if ar_Version req \<noteq> CurrentVersion then Some (Inl VersionMismatch, s)
      else case queueWorkers s (ar_SkipchainID req) of
        None \<Rightarrow> Some (Inl UnknownSkipchain, s)
      | Some w \<Rightarrow>
          if length (ar_Transaction req) = 0 then Some (Inl NoTransactions, s)
          else if \<not> wk_running w then None
          else Some (Inr CurrentVersion,
            s\<lparr>queueWorkers := (queueWorkers s)(ar_SkipchainID req \<mapsto>
                w\<lparr>wk_ts := wk_ts w @ [ar_Transaction req]\<rparr>)\<rparr>))"

text \<open>What the worker does when its interval is over. Whatever becomes of the block, the
  transactions are gone.\<close>

definition worker_epoch ::
  "('p, 's, 'k, 'r, 'd) env \<Rightarrow> ('p, 'd) service \<Rightarrow> int \<Rightarrow> bytes \<Rightarrow>
   ('p, 'd, (service_error + 'r skipblock) option) handled" where
  "worker_epoch env s now scID =
     do {
       w \<leftarrow> queueWorkers s scID;
       (if length (wk_ts w) = 0 then Some (None, s)
        else (case GetLatest env (skipdb s) (GetByID env (skipdb s) scID) of
            Inl err \<Rightarrow> None
          | Inr sb \<Rightarrow>
              do {
                (res, s1) \<leftarrow> createNewBlock env s now scID (sb_Roster sb) (wk_ts w);
                Some (Some res, s1\<lparr>queueWorkers := (queueWorkers s1)(scID \<mapsto> w\<lparr>wk_ts := []\<rparr>)\<rparr>)
              }))
     }"

text \<open>Once \<open>CloseQueues\<close> is closed every worker may stop, one started later as well.\<close>

definition close_queues :: "('p, 'd) service \<Rightarrow> ('p, 'd) service" where
  "close_queues s = s\<lparr>queues_closed := True\<rparr>"

definition stop_worker :: "('p, 'd) service \<Rightarrow> bytes \<Rightarrow> 'p worker \<Rightarrow> ('p, 'd) service" where
  "stop_worker s scID w =
     s\<lparr>queueWorkers := (queueWorkers s)(scID \<mapsto> w\<lparr>wk_running := False\<rparr>)\<rparr>"

section \<open>Proofs\<close>

type_synonym 'r proof_response = "int \<times> 'r service_proof"

definition GetProof_handler ::
  "('p, 's, 'k, 'r, 'd) env \<Rightarrow> ('p, 'd) service \<Rightarrow> int \<Rightarrow> bytes \<Rightarrow> bytes \<Rightarrow>
   ('p, 'd, service_error + 'r proof_response) handled" where
  "GetProof_handler env s version scID k =
     (if version \<noteq> CurrentVersion then Some (Inl VersionMismatch, s)
      else case GetLatest env (skipdb s) (GetByID env (skipdb s) scID) of
        Inl err \<Rightarrow> Some (Inl err, s)
      | Inr latest \<Rightarrow>
          do {
            (cdb, s1) \<leftarrow> getCollection env s scID;
            res \<leftarrow> NewProof (env_sha env) cdb (GetByID env (skipdb s1)) (sb_Hash latest) k;
            Some (case res of Inl err \<Rightarrow> (Inl err, s1) | Inr p \<Rightarrow> (Inr (CurrentVersion, p), s1))
          })"

section \<open>Starting the service\<close>

definition SetPropagationTimeout :: "('p, 'd) service \<Rightarrow> int \<Rightarrow> ('p, 'd) service" where
  "SetPropagationTimeout s p = s\<lparr>PropTimeout := p\<rparr>"

definition registerContract :: "('p, 'd) service \<Rightarrow> bytes \<Rightarrow> 'p contract \<Rightarrow> ('p, 'd) service" where
  "registerContract s contractID c = s\<lparr>contracts := (contracts s)(contractID \<mapsto> c)\<rparr>"

text \<open>\<open>RegisterContract\<close> of \<open>struct.go\<close>: \<open>scs\<close> is the service the server knows under this name, if any.\<close>

definition RegisterContract ::
  "('p, 'd) service option \<Rightarrow> bytes \<Rightarrow> 'p contract \<Rightarrow> service_error + ('p, 'd) service" where
  "RegisterContract scs kind f =
     (case scs of None \<Rightarrow> Inl ServiceNotFound | Some s \<Rightarrow> Inr (registerContract s kind f))"

fun load_workers ::
  "('p, 's, 'k, 'r, 'd) env \<Rightarrow> ('p, 'd) service \<Rightarrow> bytes list \<Rightarrow> ('p, 'd, service_error option) handled" where
  "load_workers env s [] = Some (None, s)"
| "load_workers env s (sbHash # rest) =
     do {
       (res, s1) \<leftarrow> loadBlockInterval env s sbHash;
       (case res of
          (interval, Some err) \<Rightarrow> Some (Some err, s1)
        | (interval, None) \<Rightarrow>
            load_workers env
              (s1\<lparr>queueWorkers := (queueWorkers s1)(sbHash \<mapsto> createQueueWorker interval)\<rparr>) rest)
     }"

text \<open>
  \<open>found\<close> is what \<open>Load\<close> gives: an error, nothing, something of another type, or the timeout.
\<close>

definition tryLoad ::
  "('p, 's, 'k, 'r, 'd) env \<Rightarrow> service_error + int option option \<Rightarrow> ('p, 'd) service \<Rightarrow>
   ('p, 'd, service_error option) handled" where
  "tryLoad env found s =
     (case found of
        Inl err \<Rightarrow> Some (Some err, s\<lparr>PropTimeout := 10000000000\<rparr>)
      | Inr (Some None) \<Rightarrow> Some (Some WrongDataType, s)
      | Inr msg \<Rightarrow>
          (let t = (case msg of Some (Some t) \<Rightarrow> t | _ \<Rightarrow> 10000000000);
               s1 = s\<lparr>PropTimeout := t, collectionDB := Map.empty, queueWorkers := Map.empty\<rparr>
           in case GetAllSkipchains env (skipdb s1) of
             Inl err \<Rightarrow> Some (Some err, s1)
           | Inr skipchains \<Rightarrow> load_workers env s1 skipchains))"

definition newService ::
  "('p, 's, 'k, 'r, 'd) env \<Rightarrow> service_error + int option option \<Rightarrow> (bytes \<rightharpoonup> bucket) \<Rightarrow> 'd \<Rightarrow>
   (service_error + ('p, 'd) service) option" where
  "newService env found disk0 db =
     do {
       (err, s) \<leftarrow> tryLoad env found
         \<lparr>collectionDB = Map.empty, disk = disk0, queueWorkers = Map.empty, queues_closed = False, contracts = Map.empty,
          PropTimeout = 0, stored = found, skipdb = db\<rparr>;
       Some (case err of
           Some e \<Rightarrow> Inl e
         | None \<Rightarrow>
             Inr (registerContract
                   (registerContract s ContractConfigID
                      (ContractConfig (env_crypto env) (env_sha env) (decode_darc env) (encode_config env)))
                   ContractDarcID ContractDarc))
     }"

section \<open>Steps of the service\<close>

inductive service_step ::
  "('p, 's, 'k, 'r, 'd) env \<Rightarrow> ('p, 'd) service \<Rightarrow> ('p, 'd) service \<Rightarrow> bool" for env where
  genesis: "CreateGenesisBlock env s now req = Some (res, s') \<Longrightarrow> service_step env s s'"
| add: "AddTransaction s areq = Some (ares, s') \<Longrightarrow> service_step env s s'"
| epoch: "queueWorkers s scID = Some w \<Longrightarrow> wk_running w \<Longrightarrow> worker_epoch env s now scID = Some (eres, s') \<Longrightarrow>
    service_step env s s'"
| get_proof: "GetProof_handler env s v scID k = Some (pres, s') \<Longrightarrow> service_step env s s'"
| timeout: "service_step env s (SetPropagationTimeout s p)"
| register: "service_step env s (registerContract s contractID c)"
| update: "service_step env s (updateCollection newID s)"
| close: "service_step env s (close_queues s)"
| stop: "queueWorkers s scID = Some w \<Longrightarrow> queues_closed s \<Longrightarrow> service_step env s (stop_worker s scID w)"

inductive_cases service_stepE: "service_step env s s'"

end
