(* ===== verification/Ledger.thy ===== *)
theory Ledger
  imports CollectionDB ProofCorrect
begin

text \<open>
  What the service relies on in its database, and that the collection provides it.

  A database stands for a map from object IDs to pairs of a value and a contract ID, its
  \<open>ledger\<close>. The locale \<open>change_store\<close> is the contract of an operation that stores one state
  change: it does to the map what \<open>spec_change\<close> says, or refuses and changes nothing. Whatever
  keeps this contract for one state change keeps it for a list of them. Both \<open>storeInColl\<close> on a full
  collection and \<open>Store\<close> on a collection with its bucket keep it.
\<close>

section \<open>The abstract ledger\<close>

type_synonym ledger = "bytes \<rightharpoonup> bytes \<times> bytes"

definition spec_change :: "ledger \<Rightarrow> state_change \<Rightarrow> service_error + ledger" where
  "spec_change m t =
     (let k = sc_ObjectID t; entry = (sc_Value t, sc_ContractID t) in
      case sc_StateAction t of
        Create \<Rightarrow> if m k = None then Inr (m(k \<mapsto> entry)) else Inl (CollError KeyCollision)
      | Update \<Rightarrow> if m k = None then Inl (CollError KeyNotFound) else Inr (m(k \<mapsto> entry))
      | Remove_action \<Rightarrow> if m k = None then Inl (CollError KeyNotFound) else Inr (m(k := None))
      | OtherAction n \<Rightarrow> Inl InvalidStateAction)"

fun spec_changes :: "ledger \<Rightarrow> state_change list \<Rightarrow> service_error + ledger" where
  "spec_changes m [] = Inr m"
| "spec_changes m (t # ts) =
     (case spec_change m t of Inl e \<Rightarrow> Inl e | Inr m' \<Rightarrow> spec_changes m' ts)"

lemma spec_changes_append:
  "spec_changes m (ts @ us) =
     (case spec_changes m ts of Inl e \<Rightarrow> Inl e | Inr m' \<Rightarrow> spec_changes m' us)"
  by (induction ts arbitrary: m) (auto split: sum.splits)

section \<open>The contract of a store\<close>

locale change_store =
  fixes store :: "'s \<Rightarrow> state_change \<Rightarrow> (service_error option \<times> 's) option"
    and ok :: "'s \<Rightarrow> bool"
    and ledger_of :: "'s \<Rightarrow> ledger"
    and allowed :: "state_change \<Rightarrow> bool"
  assumes store_refuses:
      "ok s \<Longrightarrow> allowed t \<Longrightarrow> spec_change (ledger_of s) t = Inl e \<Longrightarrow> store s t = Some (Some e, s)"
    and store_changes:
      "ok s \<Longrightarrow> allowed t \<Longrightarrow> spec_change (ledger_of s) t = Inr m \<Longrightarrow>
         \<exists>s'. store s t = Some (None, s') \<and> ok s' \<and> ledger_of s' = m"
begin

lemma store_total: "ok s \<Longrightarrow> allowed t \<Longrightarrow> \<exists>e s'. store s t = Some (e, s') \<and> ok s'"
  using store_refuses [of s t] store_changes [of s t]
  by (cases "spec_change (ledger_of s) t") blast+

lemma store_all_refuses:
  "ok s \<Longrightarrow> \<forall>t \<in> set ts. allowed t \<Longrightarrow> spec_changes (ledger_of s) ts = Inl e \<Longrightarrow>
     \<exists>s'. store_all store s ts = Some (Some e, s') \<and> ok s'"
proof (induction ts arbitrary: s)
  case (Cons t ts)
  show ?case
  proof (cases "spec_change (ledger_of s) t")
    case (Inl e')
    with Cons.prems store_refuses [of s t e'] show ?thesis by auto
  next
    case (Inr m)
    with Cons.prems store_changes [of s t m] obtain s' where
      "store s t = Some (None, s')" "ok s'" "ledger_of s' = m" by auto
    with Cons Inr show ?thesis by auto
  qed
qed simp

lemma store_all_changes:
  "ok s \<Longrightarrow> \<forall>t \<in> set ts. allowed t \<Longrightarrow> spec_changes (ledger_of s) ts = Inr m \<Longrightarrow>
     \<exists>s'. store_all store s ts = Some (None, s') \<and> ok s' \<and> ledger_of s' = m"
proof (induction ts arbitrary: s)
  case (Cons t ts)
  then obtain m' where m': "spec_change (ledger_of s) t = Inr m'" "spec_changes m' ts = Inr m"
    by (auto split: sum.splits)
  with Cons.prems store_changes [of s t m'] obtain s' where
    "store s t = Some (None, s')" "ok s'" "ledger_of s' = m'" by auto
  with Cons m' show ?case by auto
qed simp

end

section \<open>The collection of the service\<close>

text \<open>
  A full collection with the two data fields; \<open>K\<close> is a set of nonempty keys without a collision of
  the hash function, and holds the keys of the collection.
\<close>

definition ledger_ok :: "(bytes \<Rightarrow> bytes) \<Rightarrow> bytes set \<Rightarrow> collection \<Rightarrow> bool" where
  "ledger_ok sha K c \<longleftrightarrow>
     hash_ok sha \<and> inj_on sha K \<and> [] \<notin> K \<and> full sha c \<and> coll_fields c = [Data, Data] \<and> dom (kv c) \<subseteq> K"

definition ledger :: "collection \<Rightarrow> ledger" where
  "ledger c k = (case kv c k of Some [v, contract] \<Rightarrow> Some (v, contract) | _ \<Rightarrow> None)"

definition raw_entry :: "bytes \<times> bytes \<Rightarrow> bytes list" where
  "raw_entry e = [fst e, snd e]"

lemma kv_ledger: "ledger_ok sha K c \<Longrightarrow> kv c k = map_option raw_entry (ledger c k)"
proof -
  assume ok: "ledger_ok sha K c"
  have "length vs = 2" if "kv c k = Some vs" for vs
    using ok that list_all2_lengthD [of decodable "coll_fields c" vs] kv_values_ok [of sha c k vs]
    by (simp add: ledger_ok_def full_def values_ok_def)
  then show ?thesis
    by (cases "kv c k") (auto simp: ledger_def raw_entry_def length_Suc_conv numeral_2_eq_2)
qed

lemma data_fields_ok: "fields_ok [Data, Data]"
  using data_field.merkle_field_axioms by (simp add: fields_ok_def)

lemma encode_entry: "encode_all [Data, Data] [GBytes v, GBytes w] = Some (raw_entry (v, w))"
  by (simp add: Data_def Data_Encode_def raw_entry_def)

lemma written_ledger:
  assumes "ledger_ok sha K c" "written sha c ((kv c)(k := map_option raw_entry e)) res" "k \<in> K"
  shows "\<exists>c'. coll_result res = Some (None, c') \<and> ledger_ok sha K c' \<and> ledger c' = (ledger c)(k := e)"
proof -
  obtain c' where c': "res = Some (None, c')" "full sha c'" "same_config c c'"
    "kv c' = (kv c)(k := map_option raw_entry e)"
    using assms(2) by (auto simp: written_def)
  then have "dom (kv c') \<subseteq> K" using assms(1,3) by (auto simp: ledger_ok_def split: if_splits)
  with c' have "ledger_ok sha K c'" using assms(1) by (simp add: ledger_ok_def same_config_def)
  moreover have "ledger c' = (ledger c)(k := e)"
    using c'(4) by (auto simp: fun_eq_iff ledger_def raw_entry_def split: option.splits)
  ultimately show ?thesis using c'(1) by (simp add: coll_result_def)
qed

lemma refused_ledger: "refused e c res \<Longrightarrow> coll_result res = Some (Some (CollError e), c)"
  by (simp add: refused_def coll_result_def)

lemma ledger_no_collision: "ledger_ok sha K c \<Longrightarrow> k \<in> K \<Longrightarrow> no_collision sha c k"
  by (auto simp: ledger_ok_def no_collision_def inj_on_def)

lemma merged_entry: "merged [Data, Data] [GBytes v, GBytes w] [v', w'] = Some (raw_entry (v, w))"
  by (simp add: Data_def Data_Encode_def raw_entry_def)

lemma storeInColl_spec:
  assumes ok: "ledger_ok sha K c" and k: "sc_ObjectID t \<in> K"
  shows "spec_change (ledger c) t = Inl e \<Longrightarrow> storeInColl sha c t = Some (Some e, c)"
    and "spec_change (ledger c) t = Inr m \<Longrightarrow>
      \<exists>c'. storeInColl sha c t = Some (None, c') \<and> ledger_ok sha K c' \<and> ledger c' = m"
proof -
  let ?k = "sc_ObjectID t" and ?vs = "[GBytes (sc_Value t), GBytes (sc_ContractID t)]"
  let ?e = "(sc_Value t, sc_ContractID t)"
  have c: "hash_ok sha" "full sha c" "coll_fields c = [Data, Data]" "?k \<noteq> []" "dom (kv c) \<subseteq> K"
    using ok k by (auto simp: ledger_ok_def)
  have raw: "encode_all (coll_fields c) ?vs = Some (raw_entry ?e)" "length ?vs = length (coll_fields c)"
    unfolding c(3) by (rule encode_entry) simp
  have enc: "encodable (coll_fields c) ?vs" by (simp add: c encodable_def Data_def Data_Encode_def)
  have mrg: "merged (coll_fields c) ?vs vs = Some (raw_entry ?e)" if vs: "kv c ?k = Some vs" for vs
  proof -
    obtain v w where "vs = [v, w]"
      using vs kv_ledger [OF ok, of ?k] by (auto simp: raw_entry_def)
    then show ?thesis unfolding c(3) by (simp only: merged_entry)
  qed
  note A = Add_full [OF c(1,2,4) ledger_no_collision [OF ok k] raw]
    and S = Set_full [OF c(1,2,4) enc] and R = Remove_full [OF c(1,2,4)]
  have none: "kv c ?k = None \<longleftrightarrow> ledger c ?k = None" using kv_ledger [OF ok] by simp
  show "storeInColl sha c t = Some (Some e, c)" if "spec_change (ledger c) t = Inl e"
    using that A(1) S(1) R(1) none
    by (auto simp: spec_change_def storeInColl_def Let_def dest!: refused_ledger
        split: state_action.splits if_splits)
  assume m: "spec_change (ledger c) t = Inr m"
  show "\<exists>c'. storeInColl sha c t = Some (None, c') \<and> ledger_ok sha K c' \<and> ledger c' = m"
  proof (cases "sc_StateAction t")
    case Create
    with m none A(2) have "written sha c ((kv c)(?k := map_option raw_entry (Some ?e))) (Add sha c ?k ?vs)"
      "m = (ledger c)(?k := Some ?e)"
      by (auto simp: spec_change_def Let_def split: if_splits)
    with written_ledger [OF ok this(1) k] Create show ?thesis by (simp add: storeInColl_def)
  next
    case Update
    with m none obtain vs where "kv c ?k = Some vs" and m': "m = (ledger c)(?k := Some ?e)"
      by (auto simp: spec_change_def Let_def split: if_splits)
    then have "written sha c ((kv c)(?k := map_option raw_entry (Some ?e))) (Set sha c ?k ?vs)"
      using S(2) mrg by fastforce
    with written_ledger [OF ok this k] m' Update show ?thesis by (simp add: storeInColl_def)
  next
    case Remove_action
    with m none R(2) have "written sha c ((kv c)(?k := map_option raw_entry None)) (Remove sha c ?k)"
      "m = (ledger c)(?k := None)"
      by (auto simp: spec_change_def Let_def split: if_splits)
    with written_ledger [OF ok this(1) k] Remove_action show ?thesis by (simp add: storeInColl_def)
  next
    case OtherAction
    with m show ?thesis by (simp add: spec_change_def)
  qed
qed

interpretation coll_store: change_store "storeInColl sha" "ledger_ok sha K" ledger
    "\<lambda>t. sc_ObjectID t \<in> K" for sha K
  by unfold_locales (fact storeInColl_spec)+

end
