(* ===== verification/LedgerDB.thy ===== *)
theory LedgerDB
  imports Ledger
begin

text \<open>
  Reading and cloning a ledger, and the ledger on disk: \<open>Store\<close> keeps the bucket in step with the
  collection, value under the object ID and contract ID under \<open>keykind\<close>. \<open>newCollectionDB\<close> does not
  read back what \<open>Store\<close> wrote.
\<close>

section \<open>Reading\<close>

lemma ledger_lookup:
  assumes "ledger_ok sha K c" "k \<noteq> []"
  shows "Get_Record sha c k = Some (Inr (record_of c k (map_option raw_entry (ledger c k))))"
  using Get_Record_lookup [of sha c k] full_lookup [of sha c k] kv_ledger [OF assms(1), of k] assms
  by (simp add: ledger_ok_def full_def)

lemma ledger_values:
  assumes "ledger_ok sha K c"
  shows "rec_Values (record_of c k (map_option raw_entry e)) =
    (case e of None \<Rightarrow> Inl NoMatch | Some (v, contract) \<Rightarrow> Inr [GBytes v, GBytes contract])"
  using assms
  by (auto simp: ledger_ok_def rec_Values_def record_of_def raw_entry_def Data_def Data_Decode_def
      split: option.splits)

lemma GetValueContract_ledger:
  assumes "ledger_ok sha K (cdb_coll db)" "k \<noteq> []"
  shows "GetValueContract sha db k =
    Some (case ledger (cdb_coll db) k of None \<Rightarrow> Inl (CollError NoMatch) | Some e \<Rightarrow> Inr e)"
  using assms
  by (auto simp: GetValueContract_def ledger_lookup ledger_values as_bytes_def split: option.splits)

lemma GetContractState_ledger:
  assumes "ledger_ok sha K c" "oid_Slice (in_ObjectID instr) \<noteq> []"
  shows "GetContractState sha instr c = Some (case in_Spawn instr of
      Some sp \<Rightarrow> Inr (sp_ContractID sp, [])
    | None \<Rightarrow> (case ledger c (oid_Slice (in_ObjectID instr)) of
        None \<Rightarrow> Inl (CollError NoMatch) | Some (v, contract) \<Rightarrow> Inr (contract, v)))"
  using assms
  by (auto simp: GetContractState_def ledger_lookup ledger_values as_bytes_def split: option.splits)

section \<open>New collections and clones\<close>

lemma New_ledger:
  assumes "hash_ok sha" "inj_on sha K" "[] \<notin> K"
  obtains c where "New sha [Data, Data] = Some c" "ledger_ok sha K c" "ledger c = Map.empty"
proof -
  obtain c where c: "New sha [Data, Data] = Some c" "full sha c" "kv c = Map.empty"
    "coll_fields c = [Data, Data]"
    using New_full [OF assms(1) data_fields_ok] by metis
  then show ?thesis using assms by (intro that [of c]) (auto simp: ledger_ok_def ledger_def)
qed

lemma Clone_ledger:
  assumes "ledger_ok sha K c"
  obtains c' where "Clone c = Some c'" "ledger_ok sha K c'" "ledger c' = ledger c"
proof -
  obtain c' where "Clone c = Some c'" "full sha c'" "kv c' = kv c" "coll_fields c' = coll_fields c"
    using Clone_full [of sha c] assms unfolding ledger_ok_def by metis
  with assms show ?thesis
    by (intro that [of c']) (auto simp: ledger_ok_def ledger_def fun_eq_iff)
qed

section \<open>Buckets\<close>

lemma set_insort_fst: "set (insort_key fst p b) = insert p (set b)"
  by (induction b) auto

lemma map_of_insort:
  "fst p \<notin> fst ` set b \<Longrightarrow> map_of (insort_key fst p b) = (map_of b)(fst p \<mapsto> snd p)"
  by (induction b) (auto simp: fun_eq_iff)

lemma map_of_removed: "map_of (filter (\<lambda>p. fst p \<noteq> k) b) = (map_of b)(k := None)"
  by (induction b) (auto simp: fun_eq_iff)

lemma map_of_Put:
  "bucket_Put b k v = Inr b' \<Longrightarrow> map_of b' = (map_of b)(k \<mapsto> v)"
  using map_of_insort [of "(k, v)" "filter (\<lambda>p. fst p \<noteq> k) b"]
  by (auto simp: bucket_Put_def map_of_removed image_iff split: if_splits)

lemma map_of_Delete: "map_of (bucket_Delete b k) = (map_of b)(k := None)"
  by (simp add: bucket_Delete_def map_of_removed)

definition bucket_ok :: "bucket \<Rightarrow> bool" where
  "bucket_ok b \<longleftrightarrow> sorted (map fst b) \<and> distinct (map fst b)"

lemma distinct_insort_fst:
  "distinct (map fst b) \<Longrightarrow> fst p \<notin> fst ` set b \<Longrightarrow> distinct (map fst (insort_key fst p b))"
  by (induction b) (auto simp: set_insort_fst)

lemma bucket_Put_ok: "bucket_ok b \<Longrightarrow> bucket_Put b k v = Inr b' \<Longrightarrow> bucket_ok b'"
  using distinct_insort_fst [of "filter (\<lambda>p. fst p \<noteq> k) b" "(k, v)"]
  by (auto simp: bucket_ok_def bucket_Put_def sorted_insort_key sorted_filter distinct_map_filter
      image_iff split: if_splits)

lemma bucket_Delete_ok: "bucket_ok b \<Longrightarrow> bucket_ok (bucket_Delete b k)"
  by (simp add: bucket_ok_def bucket_Delete_def sorted_filter distinct_map_filter)

lemma keykind_neq [simp]: "keykind k \<noteq> k" "k \<noteq> keykind k"
  by (auto simp: keykind_def ascii_def dest: arg_cong [of _ _ length])

lemma keykind_eq [simp]: "keykind k = keykind k' \<longleftrightarrow> k = k'"
  by (simp add: keykind_def)

section \<open>Disk and memory\<close>

text \<open>
  What \<open>Store\<close> writes for a ledger. The keys of \<open>K\<close> fit in a bucket with their suffix, and no key is
  another's with the suffix.
\<close>

definition bucket_keys_ok :: "bytes set \<Rightarrow> bool" where
  "bucket_keys_ok K \<longleftrightarrow> K \<inter> keykind ` K = {} \<and> (\<forall>k \<in> K. length k \<le> 32768 - 8)"

lemma keykind_fresh: "bucket_keys_ok K \<Longrightarrow> k \<in> K \<Longrightarrow> k' \<in> K \<Longrightarrow> k \<noteq> keykind k'"
  by (auto simp: bucket_keys_ok_def)

definition db_ok :: "(bytes \<Rightarrow> bytes) \<Rightarrow> bytes set \<Rightarrow> collection_db \<Rightarrow> bool" where
  "db_ok sha K db \<longleftrightarrow>
     ledger_ok sha K (cdb_coll db) \<and> bucket_keys_ok K \<and> bucket_ok (cdb_bucket db) \<and>
     dom (map_of (cdb_bucket db)) \<subseteq> K \<union> keykind ` K \<and>
     (\<forall>k \<in> K. map_of (cdb_bucket db) k = map_option fst (ledger (cdb_coll db) k) \<and>
        map_of (cdb_bucket db) (keykind k) = map_option snd (ledger (cdb_coll db) k))"

definition storable :: "bytes set \<Rightarrow> state_change \<Rightarrow> bool" where
  "storable K t \<longleftrightarrow> sc_ObjectID t \<in> K \<and> length (sc_Value t) \<le> 2 ^ 31 - 2 \<and>
     length (sc_ContractID t) \<le> 2 ^ 31 - 2"

lemma bucket_Put_fits:
  "k \<noteq> [] \<Longrightarrow> length k \<le> 32768 \<Longrightarrow> length v \<le> 2 ^ 31 - 2 \<Longrightarrow> \<exists>b'. bucket_Put b k v = Inr b'"
  by (simp add: bucket_Put_def)

lemma length_keykind: "length (keykind k) = length k + 8"
  by (simp add: keykind_def ascii_def)

lemma store_in_bucket_spec:
  assumes "db_ok sha K db" "storable K t" "spec_change (ledger (cdb_coll db)) t = Inr m"
  shows "\<exists>b. store_in_bucket (cdb_bucket db) t = Inr b \<and> bucket_ok b \<and>
    map_of b = (map_of (cdb_bucket db))
      (sc_ObjectID t := map_option fst (m (sc_ObjectID t)),
       keykind (sc_ObjectID t) := map_option snd (m (sc_ObjectID t)))"
proof -
  let ?k = "sc_ObjectID t" and ?b = "cdb_bucket db"
  have k: "?k \<noteq> []" "length ?k \<le> 32768" "keykind ?k \<noteq> []" "length (keykind ?k) \<le> 32768"
    and b: "bucket_ok ?b"
    using assms(1,2)
    by (auto simp: db_ok_def bucket_keys_ok_def storable_def ledger_ok_def length_keykind)
      (metis length_keykind add_eq_0_iff_both_eq_0 list.size(3) zero_neq_numeral)
  have put: "\<exists>b1 b2. bucket_Put ?b ?k (sc_Value t) = Inr b1 \<and> bucket_ok b1 \<and>
      bucket_Put b1 (keykind ?k) (sc_ContractID t) = Inr b2 \<and> bucket_ok b2 \<and>
      map_of b2 = (map_of ?b)(?k \<mapsto> sc_Value t, keykind ?k \<mapsto> sc_ContractID t)"
    using bucket_Put_fits [OF k(1,2), of "sc_Value t" ?b] bucket_Put_fits [OF k(3,4), of "sc_ContractID t"]
      bucket_Put_ok b assms(2) map_of_Put unfolding storable_def by metis
  show ?thesis
    using put assms(3) bucket_Delete_ok [OF bucket_Delete_ok [OF b, of ?k], of "keykind ?k"]
    by (auto simp: store_in_bucket_def spec_change_def Let_def map_of_Delete
        split: state_action.splits if_splits)
qed

lemma spec_change_ledger:
  "spec_change m t = Inr m' \<Longrightarrow> m' = m(sc_ObjectID t := m' (sc_ObjectID t))"
  by (auto simp: spec_change_def Let_def split: state_action.splits if_splits)

lemma Store_spec:
  assumes db: "db_ok sha K db" and t: "storable K t"
  shows "spec_change (ledger (cdb_coll db)) t = Inl e \<Longrightarrow> Store sha db t = Some (Some e, db)"
    and "spec_change (ledger (cdb_coll db)) t = Inr m \<Longrightarrow>
      \<exists>db'. Store sha db t = Some (None, db') \<and> db_ok sha K db' \<and> ledger (cdb_coll db') = m"
proof -
  have ok: "ledger_ok sha K (cdb_coll db)" "sc_ObjectID t \<in> K"
    using db t by (auto simp: db_ok_def storable_def)
  show "Store sha db t = Some (Some e, db)" if "spec_change (ledger (cdb_coll db)) t = Inl e"
    using storeInColl_spec(1) [OF ok that] by (simp add: Store_def)
  assume m: "spec_change (ledger (cdb_coll db)) t = Inr m"
  obtain c' where c': "storeInColl sha (cdb_coll db) t = Some (None, c')" "ledger_ok sha K c'" "ledger c' = m"
    using storeInColl_spec(2) [OF ok m] by blast
  obtain b where b: "store_in_bucket (cdb_bucket db) t = Inr b" "bucket_ok b"
    "map_of b = (map_of (cdb_bucket db))
      (sc_ObjectID t := map_option fst (m (sc_ObjectID t)),
       keykind (sc_ObjectID t) := map_option snd (m (sc_ObjectID t)))"
    using store_in_bucket_spec [OF db t m] by blast
  define db' where "db' = \<lparr>cdb_bucket = b, cdb_coll = c'\<rparr>"
  have k: "bucket_keys_ok K" using db by (simp add: db_ok_def)
  have "dom (map_of b) \<subseteq> K \<union> keykind ` K"
    using db ok(2) unfolding b(3) by (auto simp: db_ok_def split: if_splits)
  moreover have "map_of b k = map_option fst (m k) \<and> map_of b (keykind k) = map_option snd (m k)" if "k \<in> K" for k
  proof -
    have "k \<noteq> keykind (sc_ObjectID t)" "keykind k \<noteq> sc_ObjectID t"
      using keykind_fresh [OF k] that ok(2) by metis+
    then show ?thesis
      using that db fun_cong [OF spec_change_ledger [OF m], of k] unfolding b(3)
      by (auto simp: db_ok_def)
  qed
  ultimately have "db_ok sha K db'" using c' b(2) k by (auto simp: db'_def db_ok_def)
  moreover have "Store sha db t = Some (None, db')" using c'(1) b(1) by (simp add: Store_def db'_def)
  ultimately show "\<exists>db'. Store sha db t = Some (None, db') \<and> db_ok sha K db' \<and> ledger (cdb_coll db') = m"
    using c'(3) by (auto simp: db'_def)
qed

interpretation db_store: change_store "Store sha" "db_ok sha K" "\<lambda>db. ledger (cdb_coll db)" "storable K"
    for sha K
  by unfold_locales (fact Store_spec)+

section \<open>Reading a bucket back\<close>

definition loaded :: "bucket \<Rightarrow> bucket \<Rightarrow> ledger" where
  "loaded b rest k = map_option (\<lambda>v. (v, bucket_Get b (k @ ascii ''sig''))) (map_of rest k)"

lemma Add_ledger:
  assumes "ledger_ok sha K c" "k \<in> K" "ledger c k = None"
  shows "\<exists>c'. Add sha c k [GBytes v, GBytes w] = Some (None, c') \<and> ledger_ok sha K c' \<and>
    ledger c' = (ledger c)(k \<mapsto> (v, w))"
  using storeInColl_spec(2) [OF assms(1), of
      "\<lparr>sc_StateAction = Create, sc_ObjectID = k, sc_ContractID = w, sc_Value = v\<rparr>"] assms(2,3)
  by (auto simp: storeInColl_def spec_change_def coll_result_def go_simps)

lemma loadAll_ledger:
  "ledger_ok sha K c \<Longrightarrow> fst ` set rest \<subseteq> K \<Longrightarrow> distinct (map fst rest) \<Longrightarrow>
   dom (ledger c) \<inter> fst ` set rest = {} \<Longrightarrow>
   \<exists>c'. loadAll sha b rest c = Some c' \<and> ledger_ok sha K c' \<and> ledger c' = ledger c ++ loaded b rest"
proof (induction rest arbitrary: c)
  case Nil
  have "loaded b [] = Map.empty" by (simp add: fun_eq_iff loaded_def)
  with Nil show ?case by simp
next
  case (Cons p rest)
  obtain k v where p: "p = (k, v)" by (cases p)
  let ?w = "bucket_Get b (k @ ascii ''sig'')"
  have k: "k \<in> K" "ledger c k = None" using Cons.prems p by auto
  obtain c1 where c1: "Add sha c k [GBytes v, GBytes ?w] = Some (None, c1)" "ledger_ok sha K c1"
    "ledger c1 = (ledger c)(k \<mapsto> (v, ?w))"
    using Add_ledger [OF Cons.prems(1) k] by blast
  have "k \<notin> fst ` set rest" using Cons.prems(3) p by simp
  then have "dom (ledger c1) \<inter> fst ` set rest = {}"
    using Cons.prems(4) p unfolding c1(3) by auto
  then obtain c' where c': "loadAll sha b rest c1 = Some c'" "ledger_ok sha K c'"
    "ledger c' = ledger c1 ++ loaded b rest"
    using Cons.IH [OF c1(2)] Cons.prems p by auto
  have "k \<notin> fst ` set rest" using Cons.prems(3) p by simp
  then have "map_of rest k = None" by (simp add: map_of_eq_None_iff)
  then have "ledger c1 ++ loaded b rest = ledger c ++ loaded b (p # rest)"
    by (auto simp: fun_eq_iff c1(3) p loaded_def map_add_def split: option.splits)
  with c1(1) c' p show ?case by simp
qed

lemma newCollectionDB_ledger:
  assumes "hash_ok sha" "inj_on sha (fst ` set b)" "[] \<notin> fst ` set b" "distinct (map fst b)"
  shows "\<exists>db. newCollectionDB sha (Some b) = Some db \<and> cdb_bucket db = b \<and>
    ledger_ok sha (fst ` set b) (cdb_coll db) \<and> ledger (cdb_coll db) = loaded b b"
proof -
  obtain c where c: "New sha [Data, Data] = Some c" "ledger_ok sha (fst ` set b) c" "ledger c = Map.empty"
    using New_ledger [OF assms(1-3)] by metis
  with loadAll_ledger [OF c(2) order_refl assms(4), of b] show ?thesis
    by (auto simp: newCollectionDB_def)
qed

text \<open>What a node that is restarted gets for what it has stored: contract IDs are lost, and every
  object ID comes back a second time with the suffix of the kind.\<close>

lemma reload_loses_contracts:
  assumes db: "db_ok sha K db" and sep: "\<forall>k \<in> K. k @ ascii ''sig'' \<notin> K"
    and inj: "inj_on sha (K \<union> keykind ` K)" and k: "k \<in> K" "ledger (cdb_coll db) k = Some (v, w)"
  shows "\<exists>db'. newCollectionDB sha (Some (cdb_bucket db)) = Some db' \<and>
    ledger (cdb_coll db') k = Some (v, []) \<and> ledger (cdb_coll db') (keykind k) \<noteq> None"
proof -
  let ?b = "cdb_bucket db"
  have dom: "fst ` set ?b = dom (map_of ?b)" by (simp add: dom_map_of_conv_image_fst)
  have sub: "fst ` set ?b \<subseteq> K \<union> keykind ` K" using db by (simp add: dom db_ok_def)
  have "[] \<notin> fst ` set ?b"
  proof
    assume "[] \<in> fst ` set ?b"
    with sub db have "[] \<in> keykind ` K" by (auto simp: db_ok_def ledger_ok_def)
    then show False by (auto simp: keykind_def ascii_def)
  qed
  then obtain db' where db': "newCollectionDB sha (Some ?b) = Some db'" "ledger (cdb_coll db') = loaded ?b ?b"
    using newCollectionDB_ledger [of sha ?b] inj_on_subset [OF inj sub] db
    by (auto simp: db_ok_def bucket_ok_def ledger_ok_def)
  have "map_of ?b k = Some v" "map_of ?b (keykind k) = Some w"
    using db k by (auto simp: db_ok_def)
  moreover have "k @ ascii ''sig'' \<noteq> keykind k'" for k'
    by (simp add: keykind_def ascii_def)
  then have "k @ ascii ''sig'' \<notin> fst ` set ?b" using sub sep k(1) by auto
  then have "bucket_Get ?b (k @ ascii ''sig'') = []" by (simp add: bucket_Get_def dom domIff)
  ultimately show ?thesis using db' by (auto simp: loaded_def)
qed

end
