(* ===== verification/Authorization.thy ===== *)
theory Authorization
  imports Blocks LedgerDB Requests
begin

text \<open>
  Which instructions \<open>verifyInstruction\<close> lets through, and what \<open>verifyAndFilterTxs\<close> keeps. The
  darc that decides is the one the ledger of the skipchain has under the darc ID of the instruction.
  All signatures are checked against the signer of the last one, so an instruction signed by one
  signer passes, and a rule that asks for two different owners can never be satisfied.
\<close>

section \<open>Opening a collection\<close>

lemma getCollection_again:
  "getCollection env s scID = Some (c, s') \<Longrightarrow> getCollection env s' scID = Some (c, s')"
  by (auto simp: getCollection_def Let_def go_simps split: option.splits)

text \<open>The verdict on an instruction, given the collection of its skipchain.\<close>

definition verdict ::
  "('p, 's, 'k, 'r, 'd) env \<Rightarrow> collection_db \<Rightarrow> 'p instruction \<Rightarrow> service_error option option" where
  "verdict env c instr =
     do {
       res \<leftarrow> GetValueContract (env_sha env) c (oid_Slice (toObjectID (DarcID (in_ObjectID instr))));
       (case res of
          Inl err \<Rightarrow> Some (Some err)
        | Inr (value, contract) \<Rightarrow>
            if contract \<noteq> ascii ''darc'' then Some (Some NotDarc)
            else (case decode_darc env value of
                Inl err \<Rightarrow> Some (Some (DarcError err))
              | Inr d \<Rightarrow>
                  map_option (map_option DarcError)
                    (request_Verify (env_crypto env) (env_sha env) (ToDarcRequest (env_sha env) instr) d)))
     }"

lemma verifyInstruction_verdict:
  assumes "getCollection env s scID = Some (c, s')"
  shows "verifyInstruction env s scID instr = map_option (\<lambda>v. (v, s')) (verdict env c instr)"
proof (cases "GetValueContract (env_sha env) c (oid_Slice (toObjectID (DarcID (in_ObjectID instr))))")
  case None
  with assms show ?thesis by (simp add: verifyInstruction_def loadLatestDarc_def verdict_def)
next
  case (Some res)
  with assms show ?thesis
    by (auto simp: verifyInstruction_def loadLatestDarc_def verdict_def map_option_case
        split: sum.splits option.splits)
qed

definition passes :: "('p, 's, 'k, 'r, 'd) env \<Rightarrow> collection_db \<Rightarrow> 'p client_tx \<Rightarrow> bool" where
  "passes env c t \<longleftrightarrow> (\<forall>i \<in> set t. verdict env c i = Some None)"

lemma verifyClientTx_passes:
  assumes "getCollection env s scID = Some (c, s')" "\<forall>i \<in> set t. verdict env c i \<noteq> None"
  shows "\<exists>err. verifyClientTx env s scID t = Some (err, if t = [] then s else s') \<and> (err = None \<longleftrightarrow> passes env c t)"
  using assms
proof (induction t arbitrary: s)
  case (Cons i t)
  then obtain v where v: "verdict env c i = Some v" by auto
  have vi: "verifyInstruction env s scID i = Some (v, s')"
    using verifyInstruction_verdict [OF Cons.prems(1)] v by simp
  show ?case
  proof (cases v)
    case None
    obtain err where "verifyClientTx env s' scID t = Some (err, s')" "err = None \<longleftrightarrow> passes env c t"
      using Cons.IH [OF getCollection_again [OF Cons.prems(1)]] Cons.prems(2) by auto
    with None v vi show ?thesis by (auto simp: passes_def)
  next
    case (Some e)
    with v vi show ?thesis by (auto simp: passes_def)
  qed
qed (simp add: passes_def)

lemma verifyAndFilterTxs_filter:
  assumes "getCollection env s scID = Some (c, s')" "\<forall>t \<in> set ts. \<forall>i \<in> set t. verdict env c i \<noteq> None"
  shows "verifyAndFilterTxs env s scID ts =
    Some (filter (passes env c) ts, if \<forall>t \<in> set ts. t = [] then s else s')"
  using assms
proof (induction ts arbitrary: s)
  case (Cons t ts)
  obtain err where err: "verifyClientTx env s scID t = Some (err, if t = [] then s else s')"
    "err = None \<longleftrightarrow> passes env c t"
    using verifyClientTx_passes [OF Cons.prems(1), of t] Cons.prems(2) by auto
  have "getCollection env (if t = [] then s else s') scID = Some (c, s')"
    using Cons.prems(1) getCollection_again by auto
  from Cons.IH [OF this] Cons.prems(2) err show ?case by (cases err) auto
qed simp

section \<open>What a verdict means\<close>

definition darc_key :: "'p instruction \<Rightarrow> bytes" where
  "darc_key instr = oid_Slice (toObjectID (DarcID (in_ObjectID instr)))"

lemma darc_key_nonempty: "darc_key instr \<noteq> []"
  by (simp add: darc_key_def oid_Slice_def toObjectID_def ZeroNonce_def)

text \<open>The darc the ledger has for an instruction.\<close>

definition darc_of ::
  "('p, 's, 'k, 'r, 'd) env \<Rightarrow> collection_db \<Rightarrow> 'p instruction \<Rightarrow> 'p darc option" where
  "darc_of env c instr =
     (case ledger (cdb_coll c) (darc_key instr) of
        Some (value, contract) \<Rightarrow>
          if contract = ascii ''darc''
          then (case decode_darc env value of Inr d \<Rightarrow> Some d | Inl e \<Rightarrow> None) else None
      | None \<Rightarrow> None)"

definition last_signer :: "'p instruction \<Rightarrow> 'p identity" where
  "last_signer instr = sig_signer (last (in_Signatures instr))"

lemma verdict_accepts_iff:
  assumes "ledger_ok (env_sha env) K (cdb_coll c)"
  shows "verdict env c instr = Some None \<longleftrightarrow>
    (\<exists>d. darc_of env c instr = Some d \<and>
      request_Verify (env_crypto env) (env_sha env) (ToDarcRequest (env_sha env) instr) d = Some None)"
  using GetValueContract_ledger [OF assms darc_key_nonempty, of instr]
  by (auto simp: verdict_def darc_of_def darc_key_def [symmetric] go_simps split: option.splits sum.splits)

lemma accepted_instruction:
  assumes "ledger_ok (env_sha env) K (cdb_coll c)"
  shows "verdict env c instr = Some None \<longleftrightarrow>
    (\<exists>d. darc_of env c instr = Some d \<and> in_Signatures instr \<noteq> [] \<and>
      GetBaseID (env_sha env) d = DarcID (in_ObjectID instr) \<and>
      Contains (Rules d) (instr_Action instr) \<and>
      (\<forall>s \<in> set (in_Signatures instr). identity_Verify (env_crypto env) (last_signer instr)
        (request_Hash (env_crypto env) (env_sha env) (ToDarcRequest (env_sha env) instr)) (sig_bytes s) = Some None) \<and>
      evalExpr_nil (rule_at (Rules d) (instr_Action instr))
        (map (\<lambda>_. identity_String (env_crypto env) (last_signer instr)) (in_Signatures instr)) = Some None)"
proof -
  have all: "(\<forall>j < length xs. P (map f xs ! j)) \<longleftrightarrow> (\<forall>x \<in> set xs. P (f x))"
    for P and f :: "'p signature \<Rightarrow> bytes" and xs by (auto simp: all_set_conv_all_nth)
  show ?thesis
    unfolding verdict_accepts_iff [OF assms]
    by (auto simp: request_Verify_def request_verify_iff ToDarcRequest_def InitRequest_def last_signer_def
        all_set_conv_all_nth comp_def)
qed

section \<open>Rules over keys\<close>

lemma evalExpr_nil_key_rule:
  assumes "owners \<noteq> []" "\<forall>i \<in> set owners. key_id cr i"
  shows "evalExpr_nil (InitAndExpr (map (identity_String cr) owners)) ids =
      Some (if identity_String cr ` set owners \<subseteq> set ids then None else Some EvaluatedToFalse)"
    and "evalExpr_nil (InitOrExpr (map (identity_String cr) owners)) ids =
      Some (if identity_String cr ` set owners \<inter> set ids \<noteq> {} then None else Some EvaluatedToFalse)"
proof -
  let ?is = "map (identity_String cr) owners"
  let ?fn = "\<lambda>s. if is_darc_id s then Some False else Some (s \<in> set ids)"
  have ok: "?is \<noteq> []" "list_all id_ok ?is" "\<forall>i \<in> set ?is. ?fn i = Some (i \<in> set ids)"
    using assms by (auto simp: list_all_iff key_id_def)
  show "evalExpr_nil (InitAndExpr ?is) ids =
      Some (if identity_String cr ` set owners \<subseteq> set ids then None else Some EvaluatedToFalse)"
    unfolding evalExpr_nil_def using Evaluate_InitAndExpr [OF ok] by (auto simp: expr_check_def)
  show "evalExpr_nil (InitOrExpr ?is) ids =
      Some (if identity_String cr ` set owners \<inter> set ids \<noteq> {} then None else Some EvaluatedToFalse)"
    unfolding evalExpr_nil_def using Evaluate_InitOrExpr [OF ok] by (auto simp: expr_check_def)
qed

text \<open>No instruction passes a rule that asks for the signatures of two owners.\<close>

lemma two_owners_never_pass:
  assumes "ledger_ok (env_sha env) K (cdb_coll c)" "darc_of env c instr = Some d"
    and "rule_at (Rules d) (instr_Action instr) = InitAndExpr (map (identity_String (env_crypto env)) owners)"
    and "\<forall>i \<in> set owners. key_id (env_crypto env) i"
    and "i \<in> set owners" "j \<in> set owners" "identity_String (env_crypto env) i \<noteq> identity_String (env_crypto env) j"
  shows "verdict env c instr \<noteq> Some None"
proof
  assume "verdict env c instr = Some None"
  then have "evalExpr_nil (InitAndExpr (map (identity_String (env_crypto env)) owners))
      (map (\<lambda>_. identity_String (env_crypto env) (last_signer instr)) (in_Signatures instr)) = Some None"
    using accepted_instruction [OF assms(1)] assms(2,3) by auto
  moreover have "owners \<noteq> []" using assms(5) by auto
  ultimately have "identity_String (env_crypto env) ` set owners \<subseteq> {identity_String (env_crypto env) (last_signer instr)}"
    using evalExpr_nil_key_rule(1) [OF _ assms(4), of "map (\<lambda>_. identity_String (env_crypto env) (last_signer instr)) (in_Signatures instr)"]
    by (auto split: if_splits)
  then have "\<forall>x \<in> set owners. identity_String (env_crypto env) x = identity_String (env_crypto env) (last_signer instr)"
    by (simp add: image_subset_iff)
  with assms(5-7) show False by simp
qed

text \<open>An instruction that one sound signer has signed passes when the rule accepts the signer.\<close>

lemma one_signer_passes:
  assumes "ledger_ok (env_sha env) K (cdb_coll c)" "darc_of env c instr = Some d"
    and "sound_signer (env_crypto env) s"
    and "GetBaseID (env_sha env) d = DarcID (in_ObjectID instr)" "Contains (Rules d) (instr_Action instr)"
    and "evalExpr_nil (rule_at (Rules d) (instr_Action instr))
      [identity_String (env_crypto env) (the (signer_Identity s))] = Some None"
  shows "\<exists>instr'. SignBy (env_crypto env) (env_sha env) [s] instr = Some (Inr instr') \<and>
    verdict env c instr' = Some None"
proof -
  let ?cr = "env_crypto env" and ?sha = "env_sha env"
  obtain id where id: "signer_Identity s = Some id"
    using sound_signer_sign [OF assms(3)] by metis
  then have ids: "signer_identities [s] = Some [id]" by (simp add: signer_identities_def)
  let ?m = "request_Hash ?cr ?sha ((ToDarcRequest ?sha instr)\<lparr>rq_Identities := [id]\<rparr>)"
  obtain b where b: "signer_Sign ?cr s (Some ?m) = Inr b" "identity_Verify ?cr id ?m b = Some None"
    using sound_signer_sign [OF assms(3), of ?m] id by (metis option.inject)
  let ?instr = "instr\<lparr>in_Signatures := [\<lparr>sig_bytes = b, sig_signer = id\<rparr>]\<rparr>"
  have same: "instr_Hash ?sha ?instr = instr_Hash ?sha instr" "instr_Action ?instr = instr_Action instr"
    "darc_of env c ?instr = darc_of env c instr"
    by (auto simp: instr_Hash_def instr_preimage_def instr_Action_def darc_of_def darc_key_def
        split: option.splits)
  then have "request_Hash ?cr ?sha (ToDarcRequest ?sha ?instr) = ?m"
    by (simp add: ToDarcRequest_def InitRequest_def request_Hash_def)
  with b(2) assms(2,4-6) id same have "verdict env c ?instr = Some None"
    unfolding accepted_instruction [OF assms(1)]
    by (intro exI [of _ d]) (simp add: last_signer_def)
  moreover have "SignBy ?cr ?sha [s] instr = Some (Inr ?instr)"
    using ids b(1) by (simp add: SignBy_def)
  ultimately show ?thesis by blast
qed

end
