(* ===== verification/Reachable.thy ===== *)
theory Reachable
  imports Authorization
begin

text \<open>
  The service over time. Nothing in the service stores a state change, because the body of
  \<open>updateCollection\<close> is commented out, so in every state the service can reach the collections are
  empty. It follows that no instruction passes, that no block after the genesis block can be made,
  and that a node that knows a skipchain cannot be started again. The queue of a worker is first in,
  first out.
\<close>

definition fresh_disk :: "(bytes \<rightharpoonup> bucket) \<Rightarrow> bool" where
  "fresh_disk d \<longleftrightarrow> (\<forall>k. d k = None \<or> d k = Some [])"

definition fresh_collection :: "(bytes \<Rightarrow> bytes) \<Rightarrow> collection_db \<Rightarrow> bool" where
  "fresh_collection sha c \<longleftrightarrow> newCollectionDB sha None = Some c"

text \<open>A service that was started has found nothing or a timeout, and only timeouts are saved.\<close>

definition loadable :: "service_error + int option option \<Rightarrow> bool" where
  "loadable l \<longleftrightarrow> l = Inr None \<or> (\<exists>t. l = Inr (Some (Some t)))"

definition fresh :: "('p, 's, 'k, 'r, 'd) env \<Rightarrow> ('p, 'd) service \<Rightarrow> bool" where
  "fresh env s \<longleftrightarrow> fresh_disk (disk s) \<and> loadable (stored s) \<and>
     (\<forall>k c. collectionDB s k = Some c \<longrightarrow> fresh_collection (env_sha env) c)"

lemma new_fresh: "fresh_disk d \<Longrightarrow> newCollectionDB sha (d k) = newCollectionDB sha None"
proof -
  assume "fresh_disk d"
  then have "d k = None \<or> d k = Some []" by (simp add: fresh_disk_def)
  then show ?thesis by (auto simp: newCollectionDB_def)
qed

lemma fresh_ledger:
  assumes "hash_ok sha" "fresh_collection sha c"
  shows "ledger_ok sha {} (cdb_coll c)" "ledger (cdb_coll c) = Map.empty"
proof -
  obtain c0 where "New sha [Data, Data] = Some c0" "ledger_ok sha {} c0" "ledger c0 = Map.empty"
    using New_ledger [of sha "{}"] assms(1) by auto
  then show "ledger_ok sha {} (cdb_coll c)" "ledger (cdb_coll c) = Map.empty"
    using assms(2) by (auto simp: fresh_collection_def newCollectionDB_def)
qed

lemma fresh_exists: "hash_ok sha \<Longrightarrow> \<exists>c. fresh_collection sha c"
proof -
  assume "hash_ok sha"
  then obtain c where "New sha [Data, Data] = Some c" using New_ledger [of sha "{}"] by auto
  then show ?thesis by (simp add: fresh_collection_def newCollectionDB_def)
qed

section \<open>Every reachable state is fresh\<close>

lemma getCollection_fresh:
  assumes "fresh env s" "getCollection env s scID = Some (c, s')"
  shows "fresh env s' \<and> fresh_collection (env_sha env) c"
proof (cases "collectionDB s (hex_string scID)")
  case None
  with assms(2) obtain c0 where "newCollectionDB (env_sha env) (disk s (hex_string scID)) = Some c0"
    "c = c0" "s' = s\<lparr>collectionDB := (collectionDB s)(hex_string scID \<mapsto> c0)\<rparr>"
    by (auto simp: getCollection_def Let_def elim!: bind_SomeE)
  then show ?thesis
    using assms(1) new_fresh [of "disk s" "env_sha env" "hex_string scID"]
    by (auto simp: fresh_def fresh_collection_def)
next
  case (Some c0)
  with assms show ?thesis by (auto simp: getCollection_def fresh_def)
qed

lemma getCollection_total:
  assumes "hash_ok (env_sha env)" "fresh env s"
  obtains c s' where "getCollection env s scID = Some (c, s')" "fresh env s'" "fresh_collection (env_sha env) c"
proof -
  obtain c0 where "newCollectionDB (env_sha env) None = Some c0"
    using fresh_exists [OF assms(1)] by (auto simp: fresh_collection_def)
  then have "getCollection env s scID \<noteq> None"
    using assms(2) new_fresh [of "disk s" "env_sha env" "hex_string scID"]
    by (auto simp: getCollection_def fresh_def Let_def split: option.splits)
  then obtain c s' where "getCollection env s scID = Some (c, s')" by auto
  with getCollection_fresh [OF assms(2) this] that show ?thesis by blast
qed

lemma loadLatestDarc_fresh:
  "fresh env s \<Longrightarrow> loadLatestDarc env s scID d = Some (r, s') \<Longrightarrow> fresh env s'"
  by (auto simp: loadLatestDarc_def 
      elim!: bind_SomeE split: sum.split_asm prod.split_asm if_split_asm option.split_asm)
    (blast intro: getCollection_fresh [THEN conjunct1])+

lemma loadBlockInterval_fresh:
  "fresh env s \<Longrightarrow> loadBlockInterval env s scID = Some (r, s') \<Longrightarrow> fresh env s'"
  by (auto simp: loadBlockInterval_def loadConfig_def 
      elim!: bind_SomeE split: sum.split_asm prod.split_asm if_split_asm option.split_asm)
    (blast intro: getCollection_fresh [THEN conjunct1])+

lemma verifyInstruction_fresh:
  "fresh env s \<Longrightarrow> verifyInstruction env s scID i = Some (r, s') \<Longrightarrow> fresh env s'"
  by (auto simp: verifyInstruction_def 
      elim!: bind_SomeE split: sum.split_asm prod.split_asm if_split_asm option.split_asm)
    (blast intro: loadLatestDarc_fresh)+

lemma verifyClientTx_fresh:
  "fresh env s \<Longrightarrow> verifyClientTx env s scID t = Some (r, s') \<Longrightarrow> fresh env s'"
proof (induction t arbitrary: s)
  case (Cons i t)
  then obtain e s1 where "verifyInstruction env s scID i = Some (e, s1)"
    "(case e of Some e \<Rightarrow> Some (Some e, s1) | None \<Rightarrow> verifyClientTx env s1 scID t) = Some (r, s')"
    by (auto simp: go_simps)
  with Cons verifyInstruction_fresh show ?case by (cases e) fastforce+
qed simp

lemma verifyAndFilterTxs_fresh:
  "fresh env s \<Longrightarrow> verifyAndFilterTxs env s scID ts = Some (r, s') \<Longrightarrow> fresh env s'"
proof (induction ts arbitrary: s r s')
  case (Cons t ts)
  then obtain e s1 r2 s2 where "verifyClientTx env s scID t = Some (e, s1)"
    "verifyAndFilterTxs env s1 scID ts = Some (r2, s2)" "s' = s2"
    by (auto simp: go_simps)
  with Cons verifyClientTx_fresh show ?case by blast
qed simp

lemma prepare_block_fresh:
  "fresh env s \<Longrightarrow> prepare_block env s scID r cts = Some (res, s') \<Longrightarrow> fresh env s'"
  by (auto simp: prepare_block_def Let_def
      elim!: bind_SomeE split: sum.split_asm prod.split_asm if_split_asm option.split_asm)
    (blast intro: getCollection_fresh [THEN conjunct1] verifyAndFilterTxs_fresh)+

lemma fresh_update [simp]:
  "fresh env (s\<lparr>queueWorkers := q\<rparr>) = fresh env s" "fresh env (s\<lparr>skipdb := d\<rparr>) = fresh env s"
  "fresh env (s\<lparr>queues_closed := b\<rparr>) = fresh env s" "fresh env (s\<lparr>contracts := f\<rparr>) = fresh env s"
  "fresh env (s\<lparr>PropTimeout := t\<rparr>) = fresh env s"
  by (simp_all add: fresh_def)

lemma fresh_save: "fresh env s \<Longrightarrow> fresh env (save env s)"
  by (auto simp: fresh_def save_def loadable_def split: option.split)

lemma createNewBlock_fresh:
  "fresh env s \<Longrightarrow> createNewBlock env s now scID r cts = Some (res, s') \<Longrightarrow> fresh env s'"
  by (auto simp: createNewBlock_def Let_def
      elim!: bind_SomeE split: sum.split_asm prod.split_asm if_split_asm option.split_asm)
    (blast intro: prepare_block_fresh)+

lemma service_step_fresh: "service_step env s s' \<Longrightarrow> fresh env s \<Longrightarrow> fresh env s'"
proof (induction rule: service_step.induct)
  case (genesis s now req res s')
  then show ?case
    by (auto simp: CreateGenesisBlock_def Let_def
      elim!: bind_SomeE split: sum.split_asm prod.split_asm if_split_asm option.split_asm)
    (blast intro: createNewBlock_fresh fresh_save)+
next
  case (add s areq ares s')
  then show ?case by (auto simp: AddTransaction_def split: option.splits if_splits)
next
  case (epoch s scID w now eres s')
  then show ?case
    by (auto simp: worker_epoch_def 
      elim!: bind_SomeE split: sum.split_asm prod.split_asm if_split_asm option.split_asm)
    (blast intro: createNewBlock_fresh)+
next
  case (get_proof s v scID k pres s')
  then show ?case
    by (auto simp: GetProof_handler_def 
      elim!: bind_SomeE split: sum.split_asm prod.split_asm if_split_asm option.split_asm)
    (blast intro: getCollection_fresh [THEN conjunct1])+
qed (simp_all add: SetPropagationTimeout_def registerContract_def updateCollection_def close_queues_def stop_worker_def)

text \<open>
  What a node finds on disk when it is started again: the buckets of the collections it had opened,
  and those it had not.
\<close>

definition disk_after :: "('p, 'd) service \<Rightarrow> bytes \<rightharpoonup> bucket" where
  "disk_after s = (\<lambda>i. case collectionDB s i of Some c \<Rightarrow> Some (cdb_bucket c) | None \<Rightarrow> disk s i)"

definition restart ::
  "('p, 's, 'k, 'r, 'd) env \<Rightarrow> ('p, 'd) service \<Rightarrow> (service_error + ('p, 'd) service) option" where
  "restart env s = newService env (stored s) (disk_after s) (skipdb s)"

lemma fresh_bucket: "fresh_collection sha c \<Longrightarrow> cdb_bucket c = []"
  by (auto simp: fresh_collection_def newCollectionDB_def elim!: bind_SomeE)

lemma disk_after_fresh: "fresh env s \<Longrightarrow> fresh_disk (disk_after s)"
  using fresh_bucket by (fastforce simp: fresh_def fresh_disk_def disk_after_def split: option.split)

inductive reachable :: "('p, 's, 'k, 'r, 'd) env \<Rightarrow> ('p, 'd) service \<Rightarrow> bool" for env where
  start: "fresh_disk disk0 \<Longrightarrow> newService env found disk0 db = Some (Inr s) \<Longrightarrow> reachable env s"
| again: "reachable env s \<Longrightarrow> restart env s = Some (Inr s') \<Longrightarrow> reachable env s'"
| step: "reachable env s \<Longrightarrow> service_step env s s' \<Longrightarrow> reachable env s'"

lemma load_workers_fresh:
  "fresh env s \<Longrightarrow> load_workers env s chain_ids = Some (r, s') \<Longrightarrow> fresh env s'"
proof (induction chain_ids arbitrary: s)
  case (Cons h hs)
  then obtain iv e s1 where l: "loadBlockInterval env s h = Some ((iv, e), s1)" by (auto simp: go_simps)
  then have "fresh env s1" using Cons.prems(1) loadBlockInterval_fresh by blast
  then have "fresh env (s1\<lparr>queueWorkers := (queueWorkers s1)(h \<mapsto> createQueueWorker iv)\<rparr>)" by simp
  from Cons.IH [OF this] l Cons.prems(2) \<open>fresh env s1\<close> show ?case by (cases e) simp_all
qed simp

lemma newService_fresh:
  assumes "fresh_disk disk0" "newService env found disk0 db = Some (Inr s)"
  shows "fresh env s"
proof -
  let ?s0 = "\<lparr>collectionDB = Map.empty, disk = disk0, queueWorkers = Map.empty, queues_closed = False,
       contracts = Map.empty, PropTimeout = 0, stored = found, skipdb = db\<rparr>"
  have f0: "fresh env (?s0\<lparr>PropTimeout := t, collectionDB := Map.empty, queueWorkers := Map.empty\<rparr>)"
    if "loadable found" for t
    using assms(1) that by (simp add: fresh_def)
  obtain s1 where s1: "tryLoad env found ?s0 = Some (None, s1)"
    "s = registerContract (registerContract s1 ContractConfigID
        (ContractConfig (env_crypto env) (env_sha env) (decode_darc env) (encode_config env))) ContractDarcID ContractDarc"
    using assms(2) by (auto simp: newService_def elim!: bind_SomeE split: option.split_asm)
  then obtain t h where "loadable found" "load_workers env
      (?s0\<lparr>PropTimeout := t, collectionDB := Map.empty, queueWorkers := Map.empty\<rparr>) h = Some (None, s1)"
    by (auto simp: tryLoad_def Let_def loadable_def split: sum.split_asm option.split_asm)
  from load_workers_fresh [OF f0 [OF this(1)] this(2)] s1(2) show ?thesis by (simp add: registerContract_def)
qed

lemma reachable_fresh: "reachable env s \<Longrightarrow> fresh env s"
proof (induction rule: reachable.induct)
  case (again s s')
  then show ?case using newService_fresh [OF disk_after_fresh] by (simp add: restart_def)
qed (blast intro: newService_fresh service_step_fresh)+

section \<open>No block after the genesis block\<close>

lemma fresh_verdict:
  assumes "hash_ok (env_sha env)" "fresh_collection (env_sha env) c"
  shows "verdict env c i = Some (Some (CollError NoMatch))"
  using GetValueContract_ledger [OF fresh_ledger(1) [OF assms] darc_key_nonempty, of i] fresh_ledger(2) [OF assms]
  by (simp add: verdict_def darc_key_def)

lemma no_later_block:
  assumes "hash_ok (env_sha env)" "reachable env s" "scID \<noteq> []" "\<forall>t \<in> set cts. t \<noteq> []"
  shows "\<exists>e s'. createNewBlock env s now scID r cts = Some (Inl e, s') \<and> e \<in> {NoLatestBlock, NoValidTransaction}"
proof (cases "GetLatest env (skipdb s) (GetByID env (skipdb s) scID)")
  case (Inl e)
  then show ?thesis using assms(3) by (simp add: createNewBlock_def prepare_block_def)
next
  case (Inr sb)
  let ?id = "SkipChainID (if r \<noteq> None then sb\<lparr>sb_Roster := r\<rparr> else sb)"
  obtain c s1 where c: "getCollection env s ?id = Some (c, s1)" "fresh_collection (env_sha env) c"
    using getCollection_total [OF assms(1) reachable_fresh [OF assms(2)]] by metis
  have v: "verdict env c i = Some (Some (CollError NoMatch))" for i
    by (rule fresh_verdict [OF assms(1) c(2)])
  have "filter (passes env c) cts = []"
    using assms(4) v by (auto simp: filter_empty_conv passes_def)
  then have "\<exists>s'. verifyAndFilterTxs env s ?id cts = Some ([], s')"
    using verifyAndFilterTxs_filter [OF c(1), of cts] v by simp
  then show ?thesis
    using assms(3) Inr by (auto simp: createNewBlock_def prepare_block_def Let_def)
qed

lemma no_restart:
  fixes env :: "('p, 's, 'k, 'r, 'd) env"
  assumes "hash_ok (env_sha env)" "fresh_disk disk0" "GetAllSkipchains env db = Inr (h # hs)"
    and "found = Inr None \<or> found = Inr (Some (Some t))"
  shows "newService env found disk0 db = Some (Inl (CollError NoMatch))"
proof -
  define s0 where "s0 t = \<lparr>collectionDB = Map.empty, disk = disk0, queueWorkers = Map.empty, queues_closed = False,
       contracts = (Map.empty :: bytes \<rightharpoonup> 'p contract), PropTimeout = t, stored = found, skipdb = db\<rparr>" for t
  have load: "\<exists>s1. load_workers env (s0 t) (h # hs) = Some (Some (CollError NoMatch), s1)" for t
  proof -
    have "fresh env (s0 t)" using assms(2,4) by (auto simp: fresh_def s0_def loadable_def)
    then obtain c s1 where c: "getCollection env (s0 t) h = Some (c, s1)" "fresh_collection (env_sha env) c"
      using getCollection_total [OF assms(1)] by metis
    have "oid_Slice GenesisReferenceID \<noteq> []" by (simp add: oid_Slice_def GenesisReferenceID_def ZeroDarc_def)
    with c GetValueContract_ledger [OF fresh_ledger(1) [OF assms(1) c(2)]] fresh_ledger(2) [OF assms(1) c(2)]
    show ?thesis by (simp add: loadBlockInterval_def loadConfig_def)
  qed
  show ?thesis
    using assms(3,4) load [of 10000000000] load [of t]
    by (auto simp: newService_def tryLoad_def Let_def s0_def)
qed

lemma no_restart_reachable:
  assumes "hash_ok (env_sha env)" "reachable env s" "GetAllSkipchains env (skipdb s) = Inr (h # hs)"
  shows "restart env s = Some (Inl (CollError NoMatch))"
proof -
  have f: "fresh env s" using assms(2) by (rule reachable_fresh)
  then obtain t where "stored s = Inr None \<or> stored s = Inr (Some (Some t))"
    by (auto simp: fresh_def loadable_def)
  from no_restart [OF assms(1) disk_after_fresh [OF f] assms(3) this] show ?thesis by (simp add: restart_def)
qed

section \<open>Queues\<close>

lemma AddTransaction_accepts:
  "AddTransaction s req = Some (Inr v, s') \<longleftrightarrow>
     (\<exists>w. ar_Version req = CurrentVersion \<and> ar_Transaction req \<noteq> [] \<and> v = CurrentVersion \<and>
       queueWorkers s (ar_SkipchainID req) = Some w \<and> wk_running w \<and>
       s' = s\<lparr>queueWorkers := (queueWorkers s)(ar_SkipchainID req \<mapsto>
         w\<lparr>wk_ts := wk_ts w @ [ar_Transaction req]\<rparr>)\<rparr>)"
  by (auto simp: AddTransaction_def split: option.splits)

text \<open>Requests handled one after the other.\<close>

fun add_all :: "('p, 'd) service \<Rightarrow> 'p add_request list \<Rightarrow> ('p, 'd) service option" where
  "add_all s [] = Some s"
| "add_all s (req # reqs) =
     (case AddTransaction s req of Some (Inr v, s') \<Rightarrow> add_all s' reqs | _ \<Rightarrow> None)"

lemma add_all_queue:
  assumes "queueWorkers s scID = Some w" "wk_running w"
    and "\<forall>req \<in> set reqs. ar_Version req = CurrentVersion \<and> ar_SkipchainID req = scID \<and> ar_Transaction req \<noteq> []"
  shows "add_all s reqs =
    Some (s\<lparr>queueWorkers := (queueWorkers s)(scID \<mapsto> w\<lparr>wk_ts := wk_ts w @ map ar_Transaction reqs\<rparr>)\<rparr>)"
  using assms
proof (induction reqs arbitrary: s w)
  case Nil
  then show ?case by (simp add: fun_upd_idem)
next
  case (Cons req reqs)
  let ?w = "w\<lparr>wk_ts := wk_ts w @ [ar_Transaction req]\<rparr>"
  let ?s = "s\<lparr>queueWorkers := (queueWorkers s)(scID \<mapsto> ?w)\<rparr>"
  have "AddTransaction s req = Some (Inr CurrentVersion, ?s)"
    using AddTransaction_accepts [of s req CurrentVersion ?s] Cons.prems by simp
  moreover have "add_all ?s reqs = Some (?s\<lparr>queueWorkers :=
      (queueWorkers ?s)(scID \<mapsto> ?w\<lparr>wk_ts := wk_ts ?w @ map ar_Transaction reqs\<rparr>)\<rparr>)"
    by (rule Cons.IH) (use Cons.prems in simp_all)
  ultimately show ?case
    by (auto simp: fun_eq_iff intro!: arg_cong [of _ _ "\<lambda>q. s\<lparr>queueWorkers := q\<rparr>"])
qed

lemma worker_batch:
  assumes "queueWorkers s scID = Some w" "wk_running w" "wk_ts w = []"
    and "\<forall>req \<in> set reqs. ar_Version req = CurrentVersion \<and> ar_SkipchainID req = scID \<and> ar_Transaction req \<noteq> []"
    and "reqs \<noteq> []" "GetLatest env (skipdb s) (GetByID env (skipdb s) scID) = Inr sb"
  shows "\<exists>s1. add_all s reqs = Some s1 \<and>
    worker_epoch env s1 now scID =
      (case createNewBlock env s1 now scID (sb_Roster sb) (map ar_Transaction reqs) of
         None \<Rightarrow> None
       | Some (res, s2) \<Rightarrow> Some (Some res, s2\<lparr>queueWorkers := (queueWorkers s2)(scID \<mapsto> w\<lparr>wk_ts := []\<rparr>)\<rparr>))"
proof -
  show ?thesis
    using add_all_queue [OF assms(1,2,4)] assms(3,5,6)
    by (auto simp: worker_epoch_def split: option.splits)
qed

end
