(* ===== verification/Client.thy ===== *)
theory Client
  imports Reachable
begin

text \<open>
  Models the client of \<open>api.go\<close>: every call sends one message, with the current version, to the first node
  of the roster and gives back the reply. What the network does with a message is a parameter: \<open>send\<close> takes
  the node, the message and the state of the world, and gives the answer and the next state, or \<open>None\<close> if
  it never answers. A roster with no nodes makes the index expression panic.
\<close>

definition send_first :: "('n \<Rightarrow> 'm \<Rightarrow> 'w \<Rightarrow> ('a \<times> 'w) option) \<Rightarrow> 'n list \<Rightarrow> 'm \<Rightarrow> 'w \<Rightarrow> ('a \<times> 'w) option" where
  "send_first send roster msg w = (case roster of [] \<Rightarrow> None | node # _ \<Rightarrow> send node msg w)"

definition Client_CreateGenesisBlock ::
  "('n \<Rightarrow> ('p, 'r) genesis_request \<Rightarrow> 'w \<Rightarrow> ('a \<times> 'w) option) \<Rightarrow> 'n list \<Rightarrow> ('p, 'r) genesis_request \<Rightarrow>
   'w \<Rightarrow> ('a \<times> 'w) option" where
  "Client_CreateGenesisBlock send roster msg w = send_first send roster msg w"

definition Client_AddTransaction ::
  "('n \<Rightarrow> 'p add_request \<Rightarrow> 'w \<Rightarrow> ('a \<times> 'w) option) \<Rightarrow> 'n list \<Rightarrow> bytes \<Rightarrow> 'p client_tx \<Rightarrow>
   'w \<Rightarrow> ('a \<times> 'w) option" where
  "Client_AddTransaction send roster scID tx w =
     send_first send roster
       \<lparr>ar_Version = CurrentVersion, ar_SkipchainID = scID, ar_Transaction = tx\<rparr> w"

record get_proof =
  gp_Version :: int
  gp_Key :: bytes
  gp_ID :: bytes

definition Client_GetProof ::
  "('n \<Rightarrow> get_proof \<Rightarrow> 'w \<Rightarrow> ('a \<times> 'w) option) \<Rightarrow> 'n list \<Rightarrow> bytes \<Rightarrow> bytes \<Rightarrow> 'w \<Rightarrow> ('a \<times> 'w) option" where
  "Client_GetProof send roster scID k w =
     send_first send roster \<lparr>gp_Version = CurrentVersion, gp_Key = k, gp_ID = scID\<rparr> w"

section \<open>Clients and one node\<close>

text \<open>Clients that send transactions one after the other; \<open>None\<close> if one of them is not accepted.\<close>

fun send_all ::
  "('n \<Rightarrow> 'p add_request \<Rightarrow> 'w \<Rightarrow> ((service_error + int) \<times> 'w) option) \<Rightarrow> 'n list \<Rightarrow> bytes \<Rightarrow>
   'p client_tx list \<Rightarrow> 'w \<Rightarrow> 'w option" where
  "send_all send roster scID [] w = Some w"
| "send_all send roster scID (tx # txs) w =
     (case Client_AddTransaction send roster scID tx w of
        Some (Inr v, w') \<Rightarrow> send_all send roster scID txs w'
      | _ \<Rightarrow> None)"

abbreviation add_requests :: "bytes \<Rightarrow> 'p client_tx list \<Rightarrow> 'p add_request list" where
  "add_requests scID txs \<equiv>
     map (\<lambda>tx. \<lparr>ar_Version = CurrentVersion, ar_SkipchainID = scID, ar_Transaction = tx\<rparr>) txs"

lemma send_all_requests:
  "\<forall>req s. send node req s = AddTransaction s req \<Longrightarrow>
   send_all send (node # nodes) scID txs s = add_all s (add_requests scID txs)"
  by (induction txs arbitrary: s) (auto simp: Client_AddTransaction_def send_first_def split: option.splits sum.splits)

lemma add_all_reachable: "add_all s reqs = Some s' \<Longrightarrow> reachable env s \<Longrightarrow> reachable env s'"
proof (induction s reqs rule: add_all.induct)
  case (2 s req reqs)
  then obtain v s1 where "AddTransaction s req = Some (Inr v, s1)" "add_all s1 reqs = Some s'"
    by (auto split: option.split_asm sum.split_asm prod.split_asm)
  with 2 show ?case by (blast intro: reachable.step service_step.add)
qed simp

text \<open>What clients send in an interval is what the worker makes a block of when the interval is over.\<close>

lemma client_batch:
  assumes "queueWorkers s scID = Some w" "wk_running w" "wk_ts w = []"
    and "\<forall>req s. send node req s = AddTransaction s req" "txs \<noteq> []" "[] \<notin> set txs"
    and "GetLatest env (skipdb s) (GetByID env (skipdb s) scID) = Inr sb"
  defines "s1 \<equiv> s\<lparr>queueWorkers := (queueWorkers s)(scID \<mapsto> w\<lparr>wk_ts := txs\<rparr>)\<rparr>"
  shows "send_all send (node # nodes) scID txs s = Some s1"
    and "worker_epoch env s1 now scID =
      (case createNewBlock env s1 now scID (sb_Roster sb) txs of
         None \<Rightarrow> None
       | Some (res, s2) \<Rightarrow> Some (Some res, s2\<lparr>queueWorkers := (queueWorkers s2)(scID \<mapsto> w\<lparr>wk_ts := []\<rparr>)\<rparr>))"
proof -
  show "send_all send (node # nodes) scID txs s = Some s1"
    using add_all_queue [OF assms(1,2), of "add_requests scID txs"] assms(3,6)
    by (auto simp: send_all_requests [of send node, OF assms(4)] o_def s1_def)
  show "worker_epoch env s1 now scID =
      (case createNewBlock env s1 now scID (sb_Roster sb) txs of
         None \<Rightarrow> None
       | Some (res, s2) \<Rightarrow> Some (Some res, s2\<lparr>queueWorkers := (queueWorkers s2)(scID \<mapsto> w\<lparr>wk_ts := []\<rparr>)\<rparr>))"
    using assms(5,7) by (auto simp: s1_def worker_epoch_def split: option.split)
qed

text \<open>In a state the service can reach, that block cannot be made, and the transactions are gone.\<close>

lemma client_batch_lost:
  fixes s :: "('p, 'd) service"
    and send :: "'n \<Rightarrow> 'p add_request \<Rightarrow> ('p, 'd) service \<Rightarrow> ((service_error + int) \<times> ('p, 'd) service) option"
  assumes "queueWorkers s scID = Some w" "wk_running w" "wk_ts w = []"
    and "\<forall>req s. send node req s = AddTransaction s req" "txs \<noteq> []" "[] \<notin> set txs"
    and "GetLatest env (skipdb s) (GetByID env (skipdb s) scID) = Inr sb"
    and "hash_ok (env_sha env)" "reachable env s" "scID \<noteq> []"
  shows "\<exists>e s2. worker_epoch env (s\<lparr>queueWorkers := (queueWorkers s)(scID \<mapsto> w\<lparr>wk_ts := txs\<rparr>)\<rparr>) now scID =
      Some (Some (Inl e), s2) \<and> e \<in> {NoLatestBlock, NoValidTransaction} \<and> queueWorkers s2 scID = Some w"
proof -
  let ?s1 = "s\<lparr>queueWorkers := (queueWorkers s)(scID \<mapsto> w\<lparr>wk_ts := txs\<rparr>)\<rparr>"
  note batch = client_batch [where send = send and node = node, OF assms(1-7)]
  have "reachable env ?s1"
    using batch(1) add_all_reachable assms(9) by (simp add: send_all_requests [of send node, OF assms(4)])
  moreover have "\<forall>t \<in> set txs. t \<noteq> []" using assms(6) by blast
  ultimately obtain e s2 where "createNewBlock env ?s1 now scID (sb_Roster sb) txs = Some (Inl e, s2)"
    "e \<in> {NoLatestBlock, NoValidTransaction}"
    using no_later_block [OF assms(8) _ assms(10)] by blast
  then show ?thesis using batch(2) [of now] assms(3) by simp
qed

end
