(* ===== verification/StateChanges.thy ===== *)
theory StateChanges
  imports Blocks LedgerDB "HOL-Library.Sublist"
begin

text \<open>
  What \<open>createStateChanges\<close> does to the ledger. A transaction that goes through has exactly the
  effect of its state changes; one that is dropped has none on the collection. The state changes
  that are returned are those of the accepted transactions and, in between, those that dropped
  transactions have left behind.
\<close>

section \<open>The specification\<close>

text \<open>
  The answers of the registered contracts, as functions of the ledger: what a contract says depends on
  what the collection holds, not on the shape of its tree, and it names keys of \<open>K\<close> only.
\<close>

type_synonym 'p answers = "bytes \<rightharpoonup> (ledger \<Rightarrow> 'p instruction \<Rightarrow> service_error + state_change list)"

definition contracts_answer :: "(bytes \<Rightarrow> bytes) \<Rightarrow> bytes set \<Rightarrow> (bytes \<rightharpoonup> 'p contract) \<Rightarrow> 'p answers \<Rightarrow> bool" where
  "contracts_answer sha K fs answers \<longleftrightarrow>
     dom answers = dom fs \<and>
     (\<forall>kind f g c instr. fs kind = Some f \<and> answers kind = Some g \<and> ledger_ok sha K c \<longrightarrow>
        (case g (ledger c) instr of
           Inl e \<Rightarrow> f c instr [] = Some (Inl e)
         | Inr scs \<Rightarrow> (\<forall>t \<in> set scs. sc_ObjectID t \<in> K) \<and> (\<exists>coins. f c instr [] = Some (Inr (scs, coins)))))"

definition instr_ok :: "'p instruction \<Rightarrow> bool" where
  "instr_ok instr \<longleftrightarrow> oid_Slice (in_ObjectID instr) \<noteq> []"

text \<open>The contract an instruction is for: the one it spawns, or the one of the object it addresses.\<close>

definition kind_of :: "ledger \<Rightarrow> 'p instruction \<Rightarrow> bytes option" where
  "kind_of m instr =
     (case in_Spawn instr of
        Some sp \<Rightarrow> Some (sp_ContractID sp)
      | None \<Rightarrow> map_option snd (m (oid_Slice (in_ObjectID instr))))"

text \<open>What one instruction asks for: \<open>None\<close> if there is no such object or contract, if the contract
  refuses, or if the ledger refuses one of its state changes.\<close>

definition instruction_effect :: "'p answers \<Rightarrow> ledger \<Rightarrow> 'p instruction \<Rightarrow> (state_change list \<times> ledger) option" where
  "instruction_effect answers m instr =
     do {
       kind \<leftarrow> kind_of m instr;
       g \<leftarrow> answers kind;
       (case g m instr of
          Inl e \<Rightarrow> None
        | Inr scs \<Rightarrow> (case spec_changes m scs of Inl e \<Rightarrow> None | Inr m' \<Rightarrow> Some (scs, m')))
     }"

text \<open>A transaction: the ledger after all its instructions, if all have an effect, and the state changes
  of those before the first that has none.\<close>

fun transaction_effect :: "'p answers \<Rightarrow> ledger \<Rightarrow> 'p client_tx \<Rightarrow> ledger option \<times> state_change list" where
  "transaction_effect answers m [] = (Some m, [])"
| "transaction_effect answers m (i # is) =
     (case instruction_effect answers m i of
        None \<Rightarrow> (None, [])
      | Some (scs, m') \<Rightarrow> (let (res, rest) = transaction_effect answers m' is in (res, scs @ rest)))"

text \<open>
  The run over the transactions: each with whether it is accepted and the state changes it leaves; one
  that is not accepted leaves the ledger as it was.
\<close>

fun spec_run :: "'p answers \<Rightarrow> ledger \<Rightarrow> 'p client_tx list \<Rightarrow> ('p client_tx \<times> bool \<times> state_change list) list" where
  "spec_run answers m [] = []"
| "spec_run answers m (t # ts) =
     (let (res, scs) = transaction_effect answers m t in
      (t, res \<noteq> None, scs) # spec_run answers (case res of None \<Rightarrow> m | Some m' \<Rightarrow> m') ts)"

definition accepted :: "('a \<times> bool \<times> state_change list) list \<Rightarrow> 'a list" where
  "accepted run = map fst (filter (\<lambda>(t, b, scs). b) run)"

definition all_changes :: "('a \<times> bool \<times> state_change list) list \<Rightarrow> state_change list" where
  "all_changes run = concat (map (\<lambda>(t, b, scs). scs) run)"

definition accepted_changes :: "('a \<times> bool \<times> state_change list) list \<Rightarrow> state_change list" where
  "accepted_changes run = concat (map (\<lambda>(t, b, scs). if b then scs else []) run)"

lemma spec_run_transactions: "map fst (spec_run answers m ts) = ts"
  by (induction ts arbitrary: m) (simp_all add: Let_def case_prod_beta)

section \<open>The code implements it\<close>

lemma contracts_answerE:
  assumes "contracts_answer sha K fs answers" "ledger_ok sha K c"
  obtains (unknown) "fs kind = None" "answers kind = None"
  | (error) f g e where "fs kind = Some f" "answers kind = Some g" "f c instr [] = Some (Inl e)" "g (ledger c) instr = Inl e"
  | (changes) f g scs coins where "fs kind = Some f" "answers kind = Some g" "f c instr [] = Some (Inr (scs, coins))"
      "g (ledger c) instr = Inr scs" "\<forall>t \<in> set scs. sc_ObjectID t \<in> K"
proof (cases "fs kind")
  have dom: "kind \<in> dom answers \<longleftrightarrow> kind \<in> dom fs" using assms(1) by (simp add: contracts_answer_def)
  case None
  with dom have "answers kind = None" by (simp add: domIff)
  with None show ?thesis by (rule unknown)
next
  have dom: "kind \<in> dom answers \<longleftrightarrow> kind \<in> dom fs" using assms(1) by (simp add: contracts_answer_def)
  case (Some f)
  moreover from dom Some obtain g where "answers kind = Some g" by (auto simp: dom_def)
  moreover from calculation have g: "case g (ledger c) instr of
       Inl e \<Rightarrow> f c instr [] = Some (Inl e)
     | Inr scs \<Rightarrow> (\<forall>t \<in> set scs. sc_ObjectID t \<in> K) \<and> (\<exists>coins. f c instr [] = Some (Inr (scs, coins)))"
    using assms unfolding contracts_answer_def by blast
  ultimately show ?thesis
  proof (cases "g (ledger c) instr")
    case (Inl e)
    then show ?thesis using \<open>fs kind = Some f\<close> \<open>answers kind = Some g\<close> g by (intro error [of f g e]) simp_all
  next
    case (Inr scs)
    with g obtain coins where "f c instr [] = Some (Inr (scs, coins))" "\<forall>t \<in> set scs. sc_ObjectID t \<in> K" by auto
    then show ?thesis using \<open>fs kind = Some f\<close> \<open>answers kind = Some g\<close> Inr by (intro changes [of f g scs coins]) simp_all
  qed
qed

text \<open>One instruction: it has no effect and ends the transaction, or its state changes are applied.\<close>

lemma instruction_step:
  assumes ok: "ledger_ok sha K c" "contracts_answer sha K fs answers" "instr_ok instr"
  obtains (dropped) "instruction_effect answers (ledger c) instr = None"
      "run_instructions sha fs c states (instr # instrs) = Some (None, states)"
  | (through) scs c' where "instruction_effect answers (ledger c) instr = Some (scs, ledger c')" "ledger_ok sha K c'"
      "spec_changes (ledger c) scs = Inr (ledger c')"
      "run_instructions sha fs c states (instr # instrs) = run_instructions sha fs c' (states @ scs) instrs"
proof -
  have state: "GetContractState sha instr c = Some (case in_Spawn instr of
      Some sp \<Rightarrow> Inr (sp_ContractID sp, [])
    | None \<Rightarrow> (case ledger c (oid_Slice (in_ObjectID instr)) of
        None \<Rightarrow> Inl (CollError NoMatch) | Some (v, contract) \<Rightarrow> Inr (contract, v)))"
    using GetContractState_ledger [OF ok(1)] ok(3) by (simp add: instr_ok_def)
  show ?thesis
  proof (cases "kind_of (ledger c) instr")
    case None
    with state show ?thesis
      by (intro dropped) (auto simp: kind_of_def instruction_effect_def split: option.splits)
  next
    case (Some kind)
    with state obtain st where k: "GetContractState sha instr c = Some (Inr (kind, st))"
      by (auto simp: kind_of_def split: option.splits)
    note effect = instruction_effect_def [of answers "ledger c" instr, unfolded Some, simplified]
    show ?thesis
    proof (rule contracts_answerE [OF ok(2,1), where kind = kind and instr = instr])
      assume "fs kind = None" "answers kind = None"
      with k effect show ?thesis by (intro dropped) simp_all
    next
      fix f g e
      assume "fs kind = Some f" "answers kind = Some g" "f c instr [] = Some (Inl e)" "g (ledger c) instr = Inl e"
      with k effect show ?thesis by (intro dropped) simp_all
    next
      fix f g scs coins
      assume changes: "fs kind = Some f" "answers kind = Some g" "f c instr [] = Some (Inr (scs, coins))"
        "g (ledger c) instr = Inr scs" "\<forall>t \<in> set scs. sc_ObjectID t \<in> K"
      show ?thesis
      proof (cases "spec_changes (ledger c) scs")
        case (Inl e)
        with coll_store.store_all_refuses [OF ok(1), of scs] changes k effect
        show ?thesis by (intro dropped) auto
      next
        case (Inr m)
        with coll_store.store_all_changes [OF ok(1), of scs] changes(5) obtain c' where
          "store_all (storeInColl sha) c scs = Some (None, c')" "ledger_ok sha K c'" "ledger c' = m"
          by blast
        with Inr changes k effect show ?thesis by (intro through [of scs c']) simp_all
      qed
    qed
  qed
qed

lemma run_instructions_correct:
  assumes "ledger_ok sha K c" "contracts_answer sha K fs answers" "\<forall>i \<in> set instrs. instr_ok i"
  shows "\<exists>res. run_instructions sha fs c states instrs =
      Some (res, states @ snd (transaction_effect answers (ledger c) instrs)) \<and>
    fst (transaction_effect answers (ledger c) instrs) = map_option ledger res \<and>
    (\<forall>c'. res = Some c' \<longrightarrow> ledger_ok sha K c' \<and>
      spec_changes (ledger c) (snd (transaction_effect answers (ledger c) instrs)) = Inr (ledger c'))"
  using assms
proof (induction instrs arbitrary: c states)
  case (Cons i "is")
  then have i: "instr_ok i" by simp
  show ?case
  proof (rule instruction_step [OF Cons.prems(1,2) i, of states "is"])
    assume "instruction_effect answers (ledger c) i = None"
      "run_instructions sha fs c states (i # is) = Some (None, states)"
    then show ?thesis by (simp del: run_instructions.simps)
  next
    fix scs c'
    assume through: "instruction_effect answers (ledger c) i = Some (scs, ledger c')" "ledger_ok sha K c'"
      "spec_changes (ledger c) scs = Inr (ledger c')"
      "run_instructions sha fs c states (i # is) = run_instructions sha fs c' (states @ scs) is"
    obtain res where "run_instructions sha fs c' (states @ scs) is =
        Some (res, (states @ scs) @ snd (transaction_effect answers (ledger c') is))"
      "fst (transaction_effect answers (ledger c') is) = map_option ledger res"
      "\<forall>c''. res = Some c'' \<longrightarrow> ledger_ok sha K c'' \<and>
        spec_changes (ledger c') (snd (transaction_effect answers (ledger c') is)) = Inr (ledger c'')"
      using Cons.IH [OF through(2) Cons.prems(2), of "states @ scs"] Cons.prems(3) by auto
    with through show ?thesis
      by (intro exI [of _ res]) (auto simp: spec_changes_append case_prod_beta Let_def simp del: run_instructions.simps)
  qed
qed simp

lemma run_transactions_correct:
  assumes "ledger_ok sha K c" "contracts_answer sha K fs answers" "\<forall>t \<in> set cts. \<forall>i \<in> set t. instr_ok i"
  shows "\<exists>final. run_transactions sha fs c states cts =
      Some (final, accepted (spec_run answers (ledger c) cts), states @ all_changes (spec_run answers (ledger c) cts)) \<and>
      ledger_ok sha K final \<and>
      spec_changes (ledger c) (accepted_changes (spec_run answers (ledger c) cts)) = Inr (ledger final)"
  using assms
proof (induction cts arbitrary: c states)
  case Nil
  then show ?case by (simp add: accepted_def all_changes_def accepted_changes_def)
next
  case (Cons t ts)
  obtain ci where ci: "Clone c = Some ci" "ledger_ok sha K ci" "ledger ci = ledger c"
    using Clone_ledger [OF Cons.prems(1)] by metis
  define eff where "eff = transaction_effect answers (ledger c) t"
  obtain res where run: "run_instructions sha fs ci states t = Some (res, states @ snd eff)"
    "fst eff = map_option ledger res"
    "\<forall>c'. res = Some c' \<longrightarrow> ledger_ok sha K c' \<and> spec_changes (ledger c) (snd eff) = Inr (ledger c')"
    using run_instructions_correct [OF ci(2) Cons.prems(2), of t states] Cons.prems(3) ci(3) by (auto simp: eff_def)
  define nxt where "nxt = (case res of None \<Rightarrow> c | Some c' \<Rightarrow> c')"
  have nxt: "ledger_ok sha K nxt" "ledger nxt = (case fst eff of None \<Rightarrow> ledger c | Some m \<Rightarrow> m)"
    using run(2,3) Cons.prems(1) by (auto simp: nxt_def split: option.splits)
  obtain final where rest: "run_transactions sha fs nxt (states @ snd eff) ts =
      Some (final, accepted (spec_run answers (ledger nxt) ts),
        (states @ snd eff) @ all_changes (spec_run answers (ledger nxt) ts))"
    "ledger_ok sha K final"
    "spec_changes (ledger nxt) (accepted_changes (spec_run answers (ledger nxt) ts)) = Inr (ledger final)"
    using Cons.IH [OF nxt(1) Cons.prems(2), of "states @ snd eff"] Cons.prems(3) by auto
  have step: "spec_run answers (ledger c) (t # ts) = (t, res \<noteq> None, snd eff) # spec_run answers (ledger nxt) ts"
    using run(2) nxt(2) by (simp add: eff_def [symmetric] case_prod_beta Let_def)
  show ?case
    using ci run rest unfolding step
    by (intro exI [of _ final])
      (cases res; simp add: nxt_def accepted_def all_changes_def accepted_changes_def spec_changes_append)
qed

lemma createStateChanges_correct:
  assumes "ledger_ok sha K c" "contracts_answer sha K fs answers" "\<forall>t \<in> set cts. \<forall>i \<in> set t. instr_ok i"
  shows "\<exists>final. createStateChanges sha fs c cts =
      Some (GetRoot final, accepted (spec_run answers (ledger c) cts), all_changes (spec_run answers (ledger c) cts)) \<and>
      ledger_ok sha K final \<and>
      spec_changes (ledger c) (accepted_changes (spec_run answers (ledger c) cts)) = Inr (ledger final)"
proof -
  obtain ci where ci: "Clone c = Some ci" "ledger_ok sha K ci" "ledger ci = ledger c"
    using Clone_ledger [OF assms(1)] by metis
  obtain final where "run_transactions sha fs ci [] cts =
      Some (final, accepted (spec_run answers (ledger c) cts), all_changes (spec_run answers (ledger c) cts))"
    "ledger_ok sha K final"
    "spec_changes (ledger c) (accepted_changes (spec_run answers (ledger c) cts)) = Inr (ledger final)"
    using run_transactions_correct [OF ci(2) assms(2,3), of "[]"] ci(3) by auto
  with ci(1) show ?thesis by (intro exI [of _ final]) (simp add: createStateChanges_def)
qed

lemma all_accepted:
  "map fst run = cts \<Longrightarrow> accepted run = cts \<Longrightarrow> accepted_changes run = all_changes run"
proof -
  assume "map fst run = cts" "accepted run = cts"
  then have "length (filter (\<lambda>(t, b, scs). b) run) = length run"
    by (metis accepted_def length_map)
  then have "\<forall>x \<in> set run. case x of (t, b, scs) \<Rightarrow> b"
    by (metis (no_types, lifting) filter_True length_filter_less not_less_iff_gr_or_eq)
  then show ?thesis by (induction run) (auto simp: accepted_changes_def all_changes_def)
qed

text \<open>The two contracts of the service read nothing of the collection.\<close>

lemma service_contracts_read_nothing:
  "ContractConfig cr sha pb_darc pb_config cdb = ContractConfig cr sha pb_darc pb_config cdb'"
  "ContractDarc cdb = ContractDarc cdb'"
  by (simp_all add: fun_eq_iff ContractConfig_def ContractDarc_def)

text \<open>What comes out of a run was put in, in the same order, whatever the contracts do.\<close>

lemma run_transactions_subseq:
  "run_transactions sha fs c states cts = Some (final, ok, scs) \<Longrightarrow> subseq ok cts"
proof (induction sha fs c states cts arbitrary: final ok scs rule: run_transactions.induct)
  case (2 sha fs c states t ts)
  then show ?case by (fastforce simp: bind_eq_Some_conv split: option.splits)
qed simp

lemma createStateChanges_subseq:
  "createStateChanges sha fs c cts = Some (mr, ok, scs) \<Longrightarrow> subseq ok cts"
  by (auto simp: createStateChanges_def bind_eq_Some_conv dest: run_transactions_subseq)

section \<open>What a dropped transaction leaves behind\<close>

text \<open>Contracts that answer on every ledger, with changes under keys of \<open>K\<close>.\<close>

definition contracts_ok :: "(bytes \<Rightarrow> bytes) \<Rightarrow> bytes set \<Rightarrow> (bytes \<rightharpoonup> 'p contract) \<Rightarrow> bool" where
  "contracts_ok sha K fs \<longleftrightarrow>
     (\<forall>contract f c instr. fs contract = Some f \<and> ledger_ok sha K c \<longrightarrow>
        (\<exists>out. f c instr [] = Some out \<and>
          (\<forall>scs coins. out = Inr (scs, coins) \<longrightarrow> (\<forall>t \<in> set scs. sc_ObjectID t \<in> K))))"

lemma contracts_okE:
  assumes "contracts_ok sha K fs" "ledger_ok sha K c" "fs contract = Some f"
  obtains (error) e where "f c instr [] = Some (Inl e)"
  | (changes) scs coins where "f c instr [] = Some (Inr (scs, coins))" "\<forall>t \<in> set scs. sc_ObjectID t \<in> K"
proof -
  obtain out where "f c instr [] = Some out"
    "\<forall>scs coins. out = Inr (scs, coins) \<longrightarrow> (\<forall>t \<in> set scs. sc_ObjectID t \<in> K)"
    using assms unfolding contracts_ok_def by blast
  then show ?thesis by (cases out) (auto intro: that)
qed

text \<open>
  A transaction whose first instruction goes through and whose second names a contract nobody has
  registered: no transaction is accepted, but the state changes of the first instruction are
  returned.
\<close>

lemma dropped_changes_stay:
  assumes c: "ledger_ok sha K c" and fs: "contracts_ok sha K fs"
    and first: "in_Spawn i1 = Some sp1" "fs (sp_ContractID sp1) = Some f"
      "\<And>c'. f c' i1 [] = Some (Inr (scs, coins))" "spec_changes (ledger c) scs = Inr m"
    and second: "in_Spawn i2 = Some sp2" "fs (sp_ContractID sp2) = None"
  shows "\<exists>mr. createStateChanges sha fs c [[i1, i2]] = Some (mr, [], scs)"
proof -
  obtain c1 where c1: "Clone c = Some c1" "ledger_ok sha K c1" "ledger c1 = ledger c"
    using Clone_ledger [OF c] by metis
  obtain c2 where c2: "Clone c1 = Some c2" "ledger_ok sha K c2" "ledger c2 = ledger c1"
    using Clone_ledger [OF c1(2)] by metis
  have "\<forall>t \<in> set scs. sc_ObjectID t \<in> K"
  proof (rule contracts_okE [OF fs c2(2) first(2), of i1])
    show ?thesis if "f c2 i1 [] = Some (Inl e)" for e using that first(3) [of c2] by simp
    show ?thesis if "f c2 i1 [] = Some (Inr (scs', coins'))" "\<forall>t \<in> set scs'. sc_ObjectID t \<in> K" for scs' coins'
      using that first(3) [of c2] by simp
  qed
  with coll_store.store_all_changes [OF c2(2), of scs m] first(4) c1 c2 obtain c3 where
    "store_all (storeInColl sha) c2 scs = Some (None, c3)"
    by auto
  then show ?thesis
    using c1 c2 first second
    by (simp add: createStateChanges_def GetContractState_def)
qed

end
