(* ===== verification/Ordering.thy ===== *)
theory Ordering
  imports Instructions Invariant "HOL-Library.Multiset"
begin

text \<open>
  The order of the transactions in a block does not depend on the order in which they arrived, as
  long as no two different ones have the same salted hash: the salt is the exclusive or of the
  hashes, the same for every order.
\<close>

lemma xor_bytes_length: "length b = length a \<Longrightarrow> length (xor_bytes a b) = length a"
  by (simp add: xor_bytes_def)

lemma xor_bytes_comm3:
  "length b = length a \<Longrightarrow> length c = length a \<Longrightarrow>
     xor_bytes (xor_bytes a b) c = xor_bytes (xor_bytes a c) b"
  by (rule nth_equalityI) (auto simp: xor_bytes_def xor.assoc xor.commute xor.left_commute)

lemma foldl_xor_mset:
  assumes "mset xs = mset ys" "\<forall>x. length (h x) = length a"
  shows "foldl (\<lambda>r t. xor_bytes r (h t)) a xs = foldl (\<lambda>r t. xor_bytes r (h t)) a ys"
proof -
  define f where "f t r = (if length r = length a then xor_bytes r (h t) else r)" for t r
  have len: "length (xor_bytes r (h x)) = length r" if "length r = length a" for r x
    using xor_bytes_length [of "h x" r] that assms(2) by metis
  have "f x (f y r) = f y (f x r)" for x y r
  proof (cases "length r = length a")
    case True
    then have "f x (f y r) = xor_bytes (xor_bytes r (h y)) (h x)" "f y (f x r) = xor_bytes (xor_bytes r (h x)) (h y)"
      using len [OF True] by (simp_all add: f_def)
    with xor_bytes_comm3 [of "h y" r "h x"] True assms(2) show ?thesis by metis
  qed (simp add: f_def)
  then have "f x \<circ> f y = f y \<circ> f x" for x y by (intro ext) (simp only: o_def)
  then have "fold f xs = fold f ys" by (intro fold_multiset_equiv assms(1))
  moreover have "length b = length a \<Longrightarrow> foldl (\<lambda>r t. xor_bytes r (h t)) b zs = fold f zs b" for b zs
    by (induction zs arbitrary: b) (simp_all add: f_def len)
  ultimately show ?thesis by simp
qed

lemma xorTransactions_mset:
  "hash_ok sha \<Longrightarrow> mset bs = mset bs' \<Longrightarrow> xorTransactions sha bs = xorTransactions sha bs'"
  unfolding xorTransactions_def by (rule foldl_xor_mset) (auto simp: hash_ok_def)

lemma try_map_Inr: "(\<And>x. x \<in> set xs \<Longrightarrow> f x = Inr (g x)) \<Longrightarrow> try_map f xs = Inr (map g xs)"
  by (induction xs) auto

lemma sortWithSalt_mset: "mset (sortWithSalt sha bs salt) = mset bs"
  by (simp add: sortWithSalt_def)

lemma sortTransactions_sorts:
  assumes "\<And>t. t \<in> set ts \<Longrightarrow> marshal t = Inr (enc t)" "\<And>t. t \<in> set ts \<Longrightarrow> unmarshal (enc t) = Inr t"
  shows "\<exists>ts'. sortTransactions sha marshal unmarshal ts = Inr ts' \<and> mset ts' = mset ts \<and>
    map enc ts' = sortWithSalt sha (map enc ts) (xorTransactions sha (map enc ts))"
proof -
  define dec where "dec b = (case unmarshal b of Inr t \<Rightarrow> t)" for b
  let ?bs = "sortWithSalt sha (map enc ts) (xorTransactions sha (map enc ts))"
  have set: "set ?bs = enc ` set ts" by (simp add: sortWithSalt_def)
  have dec: "dec (enc t) = t" if "t \<in> set ts" for t using assms(2) [OF that] by (simp add: dec_def)
  have "try_map unmarshal ?bs = Inr (map dec ?bs)"
    by (rule try_map_Inr) (use set assms(2) in \<open>auto simp: dec_def\<close>)
  then have "sortTransactions sha marshal unmarshal ts = Inr (map dec ?bs)"
    using try_map_Inr [of ts marshal enc] assms(1) by (simp add: sortTransactions_def)
  moreover have "mset (map dec ?bs) = mset ts"
  proof -
    have "mset (map dec ?bs) = mset (map dec (map enc ts))"
      using sortWithSalt_mset [of sha "map enc ts"] by (metis mset_map)
    also have "map dec (map enc ts) = ts" using dec by (simp add: map_idI)
    finally show ?thesis .
  qed
  moreover have "map enc (map dec ?bs) = ?bs"
    unfolding map_map by (rule map_idI) (use set dec in auto)
  ultimately show ?thesis by blast
qed

lemma sortTransactions_order:
  assumes "hash_ok sha" "mset ts = mset ts'"
    and "\<And>t. t \<in> set ts \<Longrightarrow> marshal t = Inr (enc t)" "\<And>t. t \<in> set ts \<Longrightarrow> unmarshal (enc t) = Inr t"
    and "inj_on (\<lambda>b. sha (xorTransactions sha (map enc ts) @ b)) (enc ` set ts)"
  shows "sortTransactions sha marshal unmarshal ts = sortTransactions sha marshal unmarshal ts'"
proof -
  have set: "set ts' = set ts" using assms(2) mset_eq_setD by blast
  have bs: "mset (map enc ts') = mset (map enc ts)" using assms(2) by simp
  let ?salt = "xorTransactions sha (map enc ts)"
  have "sortWithSalt sha (map enc ts) ?salt = sortWithSalt sha (map enc ts') ?salt"
    unfolding sortWithSalt_def
    by (rule sort_key_inj_key_eq) (use assms(5) bs in simp_all)
  moreover have "xorTransactions sha (map enc ts') = ?salt"
    using xorTransactions_mset [OF assms(1) bs] .
  ultimately show ?thesis
    using try_map_Inr [of ts marshal enc] try_map_Inr [of ts' marshal enc] assms(3) set
    by (simp add: sortTransactions_def)
qed

end
