(* ===== verification/GenesisCorrect.thy ===== *)
theory GenesisCorrect
  imports StateChanges Reachable Ordering ServiceProofCorrect
begin

text \<open>
  The genesis block, from the request to the ledger it stands for: the transaction the service makes
  is accepted, its three state changes give a ledger with the genesis darc and the configuration, and
  a service with this ledger reads them back. A service that has stored the ledger and starts again
  does not.
\<close>

section \<open>The genesis transaction\<close>

definition genesis_changes :: "bytes \<Rightarrow> bytes \<Rightarrow> bytes \<Rightarrow> state_change list" where
  "genesis_changes darcID darcBuf configBuf =
     [NewStateChange Create GenesisReferenceID ContractConfigID darcID,
      NewStateChange Create (toObjectID darcID) ContractDarcID darcBuf,
      NewStateChange Create \<lparr>DarcID = darcID, InstanceID = OneNonce\<rparr> ContractConfigID configBuf]"

definition genesis_ledger :: "bytes \<Rightarrow> bytes \<Rightarrow> bytes \<Rightarrow> ledger" where
  "genesis_ledger darcID darcBuf configBuf =
     [ZeroDarc @ ZeroNonce \<mapsto> (darcID, ContractConfigID),
      darcID @ ZeroNonce \<mapsto> (darcBuf, ContractDarcID),
      darcID @ OneNonce \<mapsto> (configBuf, ContractConfigID)]"

definition genesis_ids :: "bytes \<Rightarrow> bytes set" where
  "genesis_ids darcID = {ZeroDarc @ ZeroNonce, darcID @ ZeroNonce, darcID @ OneNonce}"

lemma nonces [simp]: "length ZeroNonce = 32" "length OneNonce = 32" "length ZeroDarc = 32" "ZeroNonce \<noteq> OneNonce"
    "OneNonce \<noteq> ZeroNonce"
proof -
  show len: "length ZeroNonce = 32" "length OneNonce = 32" "length ZeroDarc = 32"
    by (simp_all add: ZeroNonce_def OneNonce_def ZeroDarc_def)
  have "ZeroNonce ! 31 = 0" "OneNonce ! 31 = 1" by (simp_all add: ZeroNonce_def OneNonce_def)
  then show "ZeroNonce \<noteq> OneNonce" "OneNonce \<noteq> ZeroNonce" by auto
qed

lemma nonces_nonempty [simp]: "ZeroNonce \<noteq> []" "OneNonce \<noteq> []"
  using nonces(1,2) by (metis list.size(3) zero_neq_numeral)+

lemma genesis_spec:
  assumes "darcID \<noteq> ZeroDarc"
  shows "spec_changes Map.empty (genesis_changes darcID darcBuf configBuf) =
    Inr (genesis_ledger darcID darcBuf configBuf)"
  using assms
  by (simp add: genesis_changes_def genesis_ledger_def spec_change_def NewStateChange_def oid_Slice_def
      GenesisReferenceID_def toObjectID_def Let_def)

lemma ids_in: "t \<in> set (genesis_changes darcID darcBuf configBuf) \<Longrightarrow> sc_ObjectID t \<in> genesis_ids darcID"
  by (auto simp: genesis_changes_def genesis_ids_def NewStateChange_def oid_Slice_def
      GenesisReferenceID_def toObjectID_def)

lemma ids_nonempty: "[] \<notin> genesis_ids darcID"
  by (auto simp: genesis_ids_def)

lemma ContractConfig_genesis:
  assumes "pb_darc darcBuf = Inr d" "Rules d \<noteq> []" "darc_Verify cr sha (Some d) = Some (None, d')"
    and "PutVarint (replicate 8 0) interval = Some buf" "interval \<noteq> 0"
    and "pb_config \<lparr>BlockInterval = interval\<rparr> = Inr configBuf"
    and "genesis_tx darcID darcBuf buf = [tx]"
  shows "ContractConfig cr sha pb_darc pb_config c tx coins =
    Some (Inr (genesis_changes darcID darcBuf configBuf, []))"
  using assms Varint_PutVarint(1) [OF assms(4)]
  by (auto simp: ContractConfig_def genesis_tx_def genesis_changes_def toObjectID_def ascii_def Let_def)

text \<open>The state changes of the genesis block.\<close>

lemma genesis_state_changes:
  fixes cr :: "('p, 's, 'k) crypto" and fs :: "bytes \<rightharpoonup> 'p contract"
  assumes "hash_ok sha" "inj_on sha (genesis_ids darcID)" "darcID \<noteq> ZeroDarc"
    and f: "fs ContractConfigID = Some (ContractConfig cr sha pb_darc pb_config)"
    and c: "pb_darc darcBuf = Inr d" "Rules d \<noteq> []" "darc_Verify cr sha (Some d) = Some (None, d')"
      "PutVarint (replicate 8 0) interval = Some buf" "interval \<noteq> 0"
      "pb_config \<lparr>BlockInterval = interval\<rparr> = Inr configBuf"
    and new: "New sha [Data, Data] = Some c0"
  shows "createStateChanges sha fs c0 [genesis_tx darcID darcBuf buf] =
      Some ([], [genesis_tx darcID darcBuf buf], genesis_changes darcID darcBuf configBuf)"
proof -
  let ?K = "genesis_ids darcID" and ?tx = "genesis_tx darcID darcBuf buf :: 'p client_tx"
  obtain i :: "'p instruction" where i: "?tx = [i]" by (simp add: genesis_tx_def)
  have state: "GetContractState sha i c' = Some (Inr (ContractConfigID, []))" for c'
    using i by (auto simp: genesis_tx_def GetContractState_def)
  have changes: "ContractConfig cr sha pb_darc pb_config c' i [] =
      Some (Inr (genesis_changes darcID darcBuf configBuf, []))" for c'
    by (rule ContractConfig_genesis) (fact c i)+
  obtain c0': "ledger_ok sha ?K c0" "ledger c0 = Map.empty"
    using New_ledger [OF assms(1,2) ids_nonempty] new by auto
  obtain c1 where c1: "Clone c0 = Some c1" "ledger_ok sha ?K c1" "ledger c1 = Map.empty"
    using Clone_ledger [OF c0'(1)] c0'(2) by metis
  obtain c2 where c2: "Clone c1 = Some c2" "ledger_ok sha ?K c2" "ledger c2 = Map.empty"
    using Clone_ledger [OF c1(2)] c1(3) by metis
  obtain final where final: "ledger_ok sha ?K final"
    "store_all (storeInColl sha) c2 (genesis_changes darcID darcBuf configBuf) = Some (None, final)"
    using coll_store.store_all_changes [OF c2(2), of "genesis_changes darcID darcBuf configBuf"]
      genesis_spec [OF assms(3)] ids_in c2(3) by fastforce
  then have "GetRoot final = []" by (intro GetRoot_empty [of sha]) (simp add: ledger_ok_def full_def)
  with final c1(1) c2(1) f state changes i show ?thesis by (simp add: createStateChanges_def)
qed

section \<open>The request\<close>

text \<open>The block \<open>CreateGenesisBlock\<close> hands to the skipchain.\<close>

definition genesis_block :: "'r \<Rightarrow> bytes \<Rightarrow> 'r skipblock" where
  "genesis_block roster headerBuf =
     NewSkipBlock\<lparr>sb_Roster := Some roster, sb_MaximumHeight := 10, sb_BaseHeight := 10,
       sb_VerifierIDs := [verifyBase, verifyOmniLedger], sb_Data := headerBuf\<rparr>"

lemma sort_one:
  "marshal t = Inr b \<Longrightarrow> unmarshal b = Inr t \<Longrightarrow> sortTransactions sha marshal unmarshal [t] = Inr [t]"
  by (simp add: sortTransactions_def sortWithSalt_def)

lemma CreateGenesisBlock_succeeds:
  fixes env :: "('p, 's, 'k, 'r, 'd) env"
  defines "sha \<equiv> env_sha env"
  assumes hash: "hash_ok sha" "inj_on sha (genesis_ids darcID)" "darcID \<noteq> ZeroDarc"
    and req: "gr_Version req = CurrentVersion" "gr_GenesisDarc req = d" "gr_Roster req = roster"
      "Rules d \<noteq> []" "darc_Verify (env_crypto env) sha (Some d) = Some (None, d')"
      "GetID sha d = darcID" "interval = (if gr_BlockInterval req = 0 then defaultInterval else gr_BlockInterval req)"
      "PutVarint (replicate 8 0) interval = Some buf"
    and dec: "ToProto (encode_darc env) (Some d) = Inr darcBuf" "decode_darc env darcBuf = Inr d1"
      "Rules d1 \<noteq> []" "darc_Verify (env_crypto env) sha (Some d1) = Some (None, d1')"
      "encode_config env \<lparr>BlockInterval = interval\<rparr> = Inr configBuf"
      "marshal_tx env (genesis_tx darcID darcBuf buf) = Inr txBuf"
      "unmarshal_tx env txBuf = Inr (genesis_tx darcID darcBuf buf)"
    and reg: "contracts s ContractConfigID =
      Some (ContractConfig (env_crypto env) sha (decode_darc env) (encode_config env))"
    and header: "marshal_header env
      \<lparr>CollectionRoot = [], ClientTransactionHash = cts_Hash sha [genesis_tx darcID darcBuf buf :: 'p instruction list],
       StateChangesHash = scs_Hash sha (encode_change env) (genesis_changes darcID darcBuf configBuf),
       Timestamp = now\<rparr> = Inr headerBuf"
    and stored: "StoreSkipBlock env (skipdb s) (genesis_block roster headerBuf) [] = (Inr sb, db')"
  shows "CreateGenesisBlock env s now req =
    Some (Inr (CurrentVersion, sb),
      (save env (s\<lparr>skipdb := db'\<rparr>))\<lparr>queueWorkers :=
        (queueWorkers s)(SkipChainID sb \<mapsto> createQueueWorker interval)\<rparr>)"
proof -
  let ?tx = "genesis_tx darcID darcBuf buf"
  have i: "interval \<noteq> 0" using req(7) by (simp add: defaultInterval_def)
  obtain c0 where c0: "New sha [Data, Data] = Some c0"
    using New_ledger [OF hash(1,2) ids_nonempty] by metis
  have "createStateChanges sha (contracts s) c0 [?tx] = Some ([], [?tx], genesis_changes darcID darcBuf configBuf)"
    using genesis_state_changes [of sha darcID "contracts s" "env_crypto env" "decode_darc env" "encode_config env",
        OF hash reg dec(2-4) req(8) i dec(5) c0] .
  with c0 header stored sort_one [of "marshal_tx env" ?tx txBuf "unmarshal_tx env", OF dec(6,7)]
  have "createNewBlock env s now [] (Some roster) [?tx] = Some (Inr sb, s\<lparr>skipdb := db'\<rparr>)"
    by (simp add: createNewBlock_def prepare_block_def genesis_block_def sha_def [symmetric] Let_def)
  with req dec(1) show ?thesis
    by (simp add: CreateGenesisBlock_def sha_def [symmetric] Let_def)
qed

section \<open>Reading the configuration\<close>

lemma genesis_lookup:
  assumes "ledger_ok sha K (cdb_coll db)" "k \<noteq> []" "ledger (cdb_coll db) k = Some (v, w)"
  shows "GetValueContract sha db k = Some (Inr (v, w))"
  using GetValueContract_ledger [OF assms(1,2)] assms(3) by simp

lemma genesis_readable:
  assumes ok: "ledger_ok (env_sha env) K (cdb_coll db)" "length darcID = 32" "darcID \<noteq> ZeroDarc"
    and led: "ledger (cdb_coll db) = genesis_ledger darcID darcBuf configBuf"
    and db: "collectionDB s (hex_string scID) = Some db"
  shows "loadConfig env s scID = Some (decode_config env configBuf, s)"
    and "loadLatestDarc env s scID darcID =
      Some (case decode_darc env darcBuf of Inl err \<Rightarrow> Inl (DarcError err) | Inr d \<Rightarrow> Inr d, s)"
proof -
  note get = genesis_lookup [OF ok(1)]
  have "GetValueContract (env_sha env) db (ZeroDarc @ ZeroNonce) = Some (Inr (darcID, ContractConfigID))"
    "GetValueContract (env_sha env) db (darcID @ OneNonce) = Some (Inr (configBuf, ContractConfigID))"
    "GetValueContract (env_sha env) db (darcID @ ZeroNonce) = Some (Inr (darcBuf, ContractDarcID))"
    using ok(3) by (auto intro!: get simp: led genesis_ledger_def)
  with ok(2) db show "loadConfig env s scID = Some (decode_config env configBuf, s)"
    "loadLatestDarc env s scID darcID =
      Some (case decode_darc env darcBuf of Inl err \<Rightarrow> Inl (DarcError err) | Inr d \<Rightarrow> Inr d, s)"
    by (simp_all add: loadConfig_def loadLatestDarc_def getCollection_def oid_Slice_def GenesisReferenceID_def
        toObjectID_def ContractDarcID_def Let_def split: sum.splits)
qed

text \<open>After a restart the contract IDs are gone, so the first entry is not a configuration.\<close>

lemma genesis_lost:
  assumes db: "db_ok (env_sha env) (genesis_ids darcID) db"
    and led: "ledger (cdb_coll db) = genesis_ledger darcID darcBuf configBuf"
    and len: "length darcID = 32" "darcID \<noteq> ZeroDarc"
    and inj: "inj_on (env_sha env) (genesis_ids darcID \<union> keykind ` genesis_ids darcID)"
    and disk: "collectionDB s (hex_string scID) = None" "disk s (hex_string scID) = Some (cdb_bucket db)"
  shows "\<exists>s'. loadConfig env s scID = Some (Inl NotConfig, s')"
proof -
  have sep: "\<forall>k \<in> genesis_ids darcID. k @ ascii ''sig'' \<notin> genesis_ids darcID"
  proof (intro ballI notI)
    have len64: "length k = 64" if "k \<in> genesis_ids darcID" for k
      using that len(1) by (auto simp: genesis_ids_def)
    fix k assume "k \<in> genesis_ids darcID" "k @ ascii ''sig'' \<in> genesis_ids darcID"
    from this [THEN len64] show False by (simp add: ascii_def)
  qed
  have k: "ZeroDarc @ ZeroNonce \<in> genesis_ids darcID" by (simp add: genesis_ids_def)
  have first: "ledger (cdb_coll db) (ZeroDarc @ ZeroNonce) = Some (darcID, ContractConfigID)"
    using len(2) by (auto simp: led genesis_ledger_def)
  obtain db' where db': "newCollectionDB (env_sha env) (Some (cdb_bucket db)) = Some db'"
    "ledger (cdb_coll db') (ZeroDarc @ ZeroNonce) = Some (darcID, [])"
    using reload_loses_contracts [OF db sep inj k first] by blast
  have "hash_ok (env_sha env)" using db by (simp add: db_ok_def ledger_ok_def)
  have dom: "fst ` set (cdb_bucket db) \<subseteq> genesis_ids darcID \<union> keykind ` genesis_ids darcID"
    using db by (simp add: db_ok_def dom_map_of_conv_image_fst)
  have "[] \<notin> fst ` set (cdb_bucket db)"
    using dom ids_nonempty by (auto simp: keykind_def ascii_def)
  then have "ledger_ok (env_sha env) (fst ` set (cdb_bucket db)) (cdb_coll db')"
    using newCollectionDB_ledger [OF \<open>hash_ok (env_sha env)\<close> inj_on_subset [OF inj dom]] db db'(1)
    by (auto simp: db_ok_def bucket_ok_def)
  from genesis_lookup [OF this _ db'(2)] disk db'(1) show ?thesis
    by (simp add: loadConfig_def getCollection_def oid_Slice_def GenesisReferenceID_def ContractConfigID_def
        ascii_def Let_def)
qed

end
