(* ===== verification/Cli.thy ===== *)
theory Cli
  imports Client GenesisCorrect
begin

text \<open>
  Models the commands of \<open>omniledger/app.go\<close>, which founds a skipchain, and \<open>conode/conode.go\<close>, which
  starts a server; the programs around them are in theory Commands. Opening and parsing the group file, the generated key pair and the network are
  parameters. What is printed at the end is the result of the command.
\<close>

text \<open>
  How a command ends: the process exits, the call panics or gets no answer, or it returns.
\<close>

datatype 'a ended = Exits int | NoReturn | Returns 'a

definition ErrFatal :: "'e option \<Rightarrow> 'a ended \<Rightarrow> 'a ended" where
  "ErrFatal err after = (case err of Some e \<Rightarrow> Exits 1 | None \<Rightarrow> after)"

text \<open>The arguments of a command, its own flags and those of the application.\<close>

record cli_context =
  ctx_Args :: "bytes list"
  ctx_flags :: "bytes \<rightharpoonup> bytes"
  ctx_app_flags :: "bytes \<rightharpoonup> bytes"

definition ctx_String :: "cli_context \<Rightarrow> bytes \<Rightarrow> bytes" where
  "ctx_String c name = (case ctx_flags c name of None \<Rightarrow> [] | Some v \<Rightarrow> v)"

definition ctx_GlobalString :: "cli_context \<Rightarrow> bytes \<Rightarrow> bytes" where
  "ctx_GlobalString c name = (case ctx_app_flags c name of None \<Rightarrow> [] | Some v \<Rightarrow> v)"

section \<open>Founding a skipchain\<close>

text \<open>
  \<open>ReadGroupDescToml\<close> gives an error or a group, whose roster \<open>onet.NewRoster\<close> leaves nil when there
  are no servers: the length of its list is then a nil dereference. When the list is empty,
  \<open>log.ErrFatalf\<close> is called with the error of the reading, which is nil here, so nothing happens.
\<close>

definition readGroup ::
  "(bytes \<Rightarrow> service_error + 'f) \<Rightarrow> ('f \<Rightarrow> service_error + 'n list option) \<Rightarrow> cli_context \<Rightarrow> 'n list ended" where
  "readGroup open_file ReadGroupDescToml c =
     (let name = (case ctx_Args c of [] \<Rightarrow> [] | a # _ \<Rightarrow> a) in
      (case open_file name of
         Inl err \<Rightarrow> ErrFatal (Some err) NoReturn
       | Inr f \<Rightarrow>
           (case ReadGroupDescToml f of
              Inl err \<Rightarrow> ErrFatal (Some err) NoReturn
            | Inr None \<Rightarrow> NoReturn
            | Inr (Some roster) \<Rightarrow>
                if length roster = 0 then ErrFatal (None :: service_error option) (Returns roster)
                else Returns roster)))"

datatype cli_error = PleaseGiveGroup | GenesisMsgError service_error | DuringCreation service_error

definition create ::
  "('p, 's, 'k) crypto \<Rightarrow> 'p \<times> 's \<Rightarrow> (bytes \<Rightarrow> service_error + 'f) \<Rightarrow> ('f \<Rightarrow> service_error + 'n list option) \<Rightarrow>
   ('n \<Rightarrow> ('p, 'n list) genesis_request \<Rightarrow> 'w \<Rightarrow> ((service_error + int \<times> 'r skipblock) \<times> 'w) option) \<Rightarrow>
   cli_context \<Rightarrow> 'w \<Rightarrow> ((cli_error + bytes \<times> 's \<times> 'p) \<times> 'w) ended" where
  "create cr kp open_file ReadGroupDescToml send c w =
     (if length (ctx_Args c) \<noteq> 1 then Returns (Inl PleaseGiveGroup, w)
      else (case readGroup open_file ReadGroupDescToml c of
          Exits n \<Rightarrow> Exits n
        | NoReturn \<Rightarrow> NoReturn
        | Returns roster \<Rightarrow>
            (let signer = NewSignerEd25519 kp (Some (fst kp)) (Some (snd kp)) in
             (case signer_Identity signer of
                None \<Rightarrow> NoReturn
              | Some ident \<Rightarrow>
                  (case DefaultGenesisMsg cr CurrentVersion roster [ascii ''Spawn_dummy''] [ident] of
                     Inl err \<Rightarrow> Returns (Inl (GenesisMsgError err), w)
                   | Inr msg \<Rightarrow>
                       (case Client_CreateGenesisBlock send roster msg w of
                          None \<Rightarrow> NoReturn
                        | Some (Inl err, w') \<Rightarrow> Returns (Inl (DuringCreation err), w')
                        | Some (Inr (v, sb), w') \<Rightarrow> Returns (Inr (sb_Hash sb, snd kp, fst kp), w')))))))"

section \<open>The server\<close>

datatype server_action = Fatal | InteractiveConfig | RunServer bytes

text \<open>
  The actions of the two commands. Neither command declares flags of its own, so the context they get
  has none but \<open>help\<close>; \<open>debug\<close> and \<open>config\<close> are flags of the application.
\<close>

definition setup_action :: "cli_context \<Rightarrow> server_action" where
  "setup_action c =
     (if ctx_String c (ascii ''config'') \<noteq> [] then Fatal
      else if ctx_String c (ascii ''debug'') \<noteq> [] then Fatal
      else InteractiveConfig)"

definition runServer :: "cli_context \<Rightarrow> server_action" where
  "runServer c = RunServer (ctx_GlobalString c (ascii ''config''))"

lemma setup_ignores_app_flags:
  "dom (ctx_flags c) \<subseteq> {ascii ''help''} \<Longrightarrow> setup_action c = InteractiveConfig"
proof -
  assume d: "dom (ctx_flags c) \<subseteq> {ascii ''help''}"
  have "ascii ''config'' \<noteq> ascii ''help''" "ascii ''debug'' \<noteq> ascii ''help''" by code_simp+
  with d have "ctx_flags c (ascii ''config'') = None" "ctx_flags c (ascii ''debug'') = None" by blast+
  then show ?thesis by (simp add: setup_action_def ctx_String_def)
qed

section \<open>What founding a skipchain does\<close>

text \<open>The darc of the message: the new key owns it, signs for it, and may spawn \<open>dummy\<close> instances.\<close>

definition founder_darc :: "('p, 's, 'k) crypto \<Rightarrow> 'p \<Rightarrow> 'p darc" where
  "founder_darc cr point =
     NewDarc (add_rules [ascii ''Spawn_dummy''] (InitRules cr [NewIdentityEd25519 point] [NewIdentityEd25519 point]))
       (ascii ''genesis darc'')"

lemma founder_rules:
  "Rules (founder_darc cr point) \<noteq> []"
  "rule_at (Rules (founder_darc cr point)) (ascii ''Spawn_dummy'') = identity_String cr (NewIdentityEd25519 point)"
proof -
  have "ascii ''Spawn_dummy'' \<noteq> evolve" "ascii ''Spawn_dummy'' \<noteq> sign" "sign \<noteq> evolve" by code_simp+
  then show "rule_at (Rules (founder_darc cr point)) (ascii ''Spawn_dummy'') =
      identity_String cr (NewIdentityEd25519 point)" "Rules (founder_darc cr point) \<noteq> []"
    by (auto simp: founder_darc_def NewDarc_def add_rules_def AddRule_def Contains_def InitRules_def rule_at_def
        GetSignExpr_def InitOrExpr_def)
qed

lemma founder_verify:
  "darc_Verify cr sha (Some (founder_darc cr' point)) = Some (None, Some (founder_darc cr' point))"
  "darc_Verify cr sha (Some (darc_Copy (founder_darc cr' point))) = Some (None, Some (darc_Copy (founder_darc cr' point)))"
  by (simp_all add: darc_Verify_def verify_with_def founder_darc_def NewDarc_def darc_Copy_def)

lemma default_interval: "\<exists>buf. PutVarint (replicate 8 0) defaultInterval = Some buf"
proof -
  have "PutVarint (replicate 8 0) defaultInterval \<noteq> None" by code_simp
  then show ?thesis by blast
qed

lemma create_sends:
  assumes "ctx_Args c = [name]" "open_file name = Inr f" "ReadGroupDescToml f = Inr (Some (node # nodes))"
    and "send node \<lparr>gr_Version = CurrentVersion, gr_Roster = node # nodes, gr_GenesisDarc = founder_darc cr point,
           gr_BlockInterval = defaultInterval\<rparr> w = Some (Inr (v, sb), w')"
  shows "create cr (point, secret) open_file ReadGroupDescToml send c w =
    Returns (Inr (sb_Hash sb, secret, point), w')"
  using assms
  by (simp add: create_def readGroup_def NewSignerEd25519_def signer_Identity_def DefaultGenesisMsg_def
      Client_CreateGenesisBlock_def send_first_def founder_darc_def NewDarc_def Let_def)

lemma create_founds:
  fixes env :: "('p, 's, 'k, 'n list, 'd) env" and point :: 'p
  defines "sha \<equiv> env_sha env" and "d \<equiv> founder_darc (env_crypto env) point"
  defines "darcID \<equiv> GetID sha d"
  assumes given: "ctx_Args c = [name]" "open_file name = Inr f" "ReadGroupDescToml f = Inr (Some (node # nodes))"
    and hash: "hash_ok sha" "inj_on sha (genesis_ids darcID)" "darcID \<noteq> ZeroDarc"
    and dec: "encode_darc env (darc_Copy d) = Inr darcBuf" "decode_darc env darcBuf = Inr (darc_Copy d)"
      "PutVarint (replicate 8 0) defaultInterval = Some buf"
      "encode_config env \<lparr>BlockInterval = defaultInterval\<rparr> = Inr configBuf"
      "marshal_tx env (genesis_tx darcID darcBuf buf) = Inr txBuf"
      "unmarshal_tx env txBuf = Inr (genesis_tx darcID darcBuf buf)"
    and reg: "contracts s ContractConfigID =
      Some (ContractConfig (env_crypto env) sha (decode_darc env) (encode_config env))"
    and header: "marshal_header env
      \<lparr>CollectionRoot = [], ClientTransactionHash = cts_Hash sha [genesis_tx darcID darcBuf buf :: 'p instruction list],
       StateChangesHash = scs_Hash sha (encode_change env) (genesis_changes darcID darcBuf configBuf),
       Timestamp = now\<rparr> = Inr headerBuf"
    and kept: "StoreSkipBlock env (skipdb s) (genesis_block (node # nodes) headerBuf) [] = (Inr sb, db')"
    and first: "\<forall>msg s. send node msg s = CreateGenesisBlock env s now msg"
  shows "create (env_crypto env) (point, secret) open_file ReadGroupDescToml send c s =
    Returns (Inr (sb_Hash sb, secret, point),
      (save env (s\<lparr>skipdb := db'\<rparr>))\<lparr>queueWorkers :=
        (queueWorkers s)(SkipChainID sb \<mapsto> createQueueWorker defaultInterval)\<rparr>)"
proof (rule create_sends [where name = name and f = f and open_file = open_file
      and ReadGroupDescToml = ReadGroupDescToml, OF given])
  show "send node \<lparr>gr_Version = CurrentVersion, gr_Roster = node # nodes,
      gr_GenesisDarc = founder_darc (env_crypto env) point, gr_BlockInterval = defaultInterval\<rparr> s =
    Some (Inr (CurrentVersion, sb), (save env (s\<lparr>skipdb := db'\<rparr>))\<lparr>queueWorkers :=
      (queueWorkers s)(SkipChainID sb \<mapsto> createQueueWorker defaultInterval)\<rparr>)"
    using hash dec reg header kept founder_rules(1) [of "env_crypto env" point] founder_verify
    unfolding darcID_def d_def sha_def first [rule_format]
    by (intro CreateGenesisBlock_succeeds [where ?d1.0 = "darc_Copy (founder_darc (env_crypto env) point)"
          and d = "founder_darc (env_crypto env) point" and darcBuf = darcBuf and buf = buf and configBuf = configBuf
          and txBuf = txBuf and headerBuf = headerBuf])
      (auto simp: ToProto_def darc_Copy_def)
qed

end
