(* ===== verification/Printing.thy ===== *)
theory Printing
  imports Instructions
begin

text \<open>
  Models the \<open>String\<close> methods of \<open>darc.go\<close> and \<open>transaction.go\<close>, the texts that logs and the command
  line show. Strings are the bytes of their UTF-8 form, \<open>%d\<close> prints decimal numbers and \<open>%x\<close> two
  lower-case digits a byte (\<open>hex_string\<close> of theory Darc). The texts of a state change and of an
  instruction determine what they print, although contract IDs and actions may hold any bytes.
\<close>

section \<open>Decimal numbers\<close>

definition dec_digit :: "nat \<Rightarrow> byte" where
  "dec_digit n = of_nat (0x30 + n)"

fun dec_nat :: "nat \<Rightarrow> bytes" where
  "dec_nat n = (if n < 10 then [dec_digit n] else dec_nat (n div 10) @ [dec_digit (n mod 10)])"

declare dec_nat.simps [simp del]

definition dec_int :: "int \<Rightarrow> bytes" where
  "dec_int i = (if i < 0 then 0x2d # dec_nat (nat (- i)) else dec_nat (nat i))"

section \<open>The String methods\<close>

definition nl :: bytes where "nl = [0x0a]"
definition tab :: bytes where "tab = [0x09]"

definition instr_String :: "(bytes \<Rightarrow> bytes) \<Rightarrow> 'p instruction \<Rightarrow> bytes" where
  "instr_String sha instr =
     ascii ''instr: '' @ hex_string (instr_Hash sha instr) @ nl @
     tab @ ascii ''darc ID: '' @ hex_string (DarcID (in_ObjectID instr)) @ nl @
     tab @ ascii ''nonce: '' @ hex_string (in_Nonce instr) @ nl @
     tab @ ascii ''index: '' @ dec_int (in_Index instr) @ nl @
     tab @ ascii ''length: '' @ dec_int (in_Length instr) @ nl @
     tab @ ascii ''action: '' @ instr_Action instr @ nl @
     tab @ ascii ''signatures: '' @ dec_nat (length (in_Signatures instr)) @ nl"

definition sc_String :: "state_change \<Rightarrow> bytes" where
  "sc_String sc =
     nl @ ascii ''statechange'' @ nl @
     tab @ ascii ''action: '' @ action_String (sc_StateAction sc) @ nl @
     tab @ ascii ''contractID: '' @ sc_ContractID sc @ nl @
     tab @ ascii ''key: '' @ hex_string (sc_ObjectID sc) @ nl @
     tab @ ascii ''value: '' @ hex_string (sc_Value sc)"

text \<open>
  \<open>order\<close> is the order in which the loop over the map of rules happens to visit them. Signatures are
  never nil pointers in the model.
\<close>

definition rule_lines :: "(action \<times> expr) list \<Rightarrow> bytes" where
  "rule_lines order =
     concat (map (\<lambda>(k, v). nl @ tab @ k @ ascii '' - '' @ [0x22] @ v @ [0x22]) order)"

definition signature_lines :: "('p, 's, 'k) crypto \<Rightarrow> 'p signature list \<Rightarrow> bytes" where
  "signature_lines cr sigs =
     concat (map (\<lambda>(i, s). nl @ tab @ dec_nat i @ ascii '' - id: '' @ identity_String cr (sig_signer s) @
       ascii '', sig: '' @ hex_string (sig_bytes s)) (enumerate 0 sigs))"

definition darc_String ::
  "('p, 's, 'k) crypto \<Rightarrow> (bytes \<Rightarrow> bytes) \<Rightarrow> (action \<times> expr) list \<Rightarrow> 'p darc \<Rightarrow> bytes" where
  "darc_String cr sha order d =
     ascii ''ID:'' @ tab @ hex_string (GetID sha d) @ nl @ ascii ''Base:'' @ tab @ hex_string (GetBaseID sha d) @
     nl @ ascii ''Ver:'' @ tab @ dec_nat (unat (Version d)) @ nl @ ascii ''Rules:'' @
     rule_lines order @ signature_lines cr (Signatures d)"

section \<open>Digits\<close>

lemma ascii_append [simp]: "ascii (xs @ ys) = ascii xs @ ascii ys"
  by (simp add: ascii_def)

lemma unat_digit: "n < 10 \<Longrightarrow> unat (dec_digit n) = 0x30 + n"
  by (simp add: dec_digit_def unsigned_of_nat take_bit_nat_eq_self del: of_nat_add)

lemma digit_inj: "m < 10 \<Longrightarrow> n < 10 \<Longrightarrow> dec_digit m = dec_digit n \<Longrightarrow> m = n"
  by (metis add_left_cancel unat_digit)

lemma digit_range: "n < 10 \<Longrightarrow> 0x30 \<le> dec_digit n"
  by (simp add: word_le_nat_alt unat_digit)

lemma dec_nat_nonempty [simp]: "dec_nat n \<noteq> []"
  by (subst dec_nat.simps) simp

lemma dec_nat_range: "b \<in> set (dec_nat n) \<Longrightarrow> 0x30 \<le> b"
proof (induction n rule: dec_nat.induct)
  case (1 n)
  then show ?case
    using digit_range [of n] digit_range [of "n mod 10"]
    by (subst (asm) (2) dec_nat.simps) (auto split: if_splits)
qed

lemma dec_nat_inj: "dec_nat m = dec_nat n \<Longrightarrow> m = n"
proof (induction m arbitrary: n rule: dec_nat.induct)
  case (1 m)
  show ?case
  proof (cases "m < 10 \<or> n < 10")
    case True
    with 1(2) show ?thesis
      using digit_inj [of m n] dec_nat.simps [of m] dec_nat.simps [of n]
        dec_nat_nonempty [of "m div 10"] dec_nat_nonempty [of "n div 10"]
      by (cases "m < 10"; cases "n < 10") (auto simp del: dec_nat_nonempty)
  next
    case False
    with 1(2) dec_nat.simps [of m] dec_nat.simps [of n]
    have "dec_nat (m div 10) = dec_nat (n div 10)"
      "dec_digit (m mod 10) = dec_digit (n mod 10)"
      by auto
    with 1(1) [of "n div 10"] False digit_inj [of "m mod 10" "n mod 10"]
    have "m div 10 = n div 10" "m mod 10 = n mod 10" by auto
    then show ?thesis by (metis div_mult_mod_eq)
  qed
qed

lemma dec_int_range: "b \<in> set (dec_int i) \<Longrightarrow> 0x2d \<le> b"
  using dec_nat_range by (fastforce simp: dec_int_def split: if_splits intro: order_trans [of _ "0x30"])

lemma dec_int_inj: "dec_int i = dec_int j \<Longrightarrow> i = j"
proof -
  assume eq: "dec_int i = dec_int j"
  have minus: "dec_nat n \<noteq> 0x2d # ds" for n ds
  proof
    assume "dec_nat n = 0x2d # ds"
    then have "0x30 \<le> (0x2d :: byte)" by (intro dec_nat_range [of _ n]) simp
    then show False by (simp add: word_le_nat_alt)
  qed
  from eq show "i = j"
    using dec_nat_inj [of "nat (- i)" "nat (- j)"] dec_nat_inj [of "nat i" "nat j"] minus minus [symmetric]
    by (auto simp: dec_int_def split: if_splits)
qed

lemma unat_hex_digit: "n < 16 \<Longrightarrow> unat (hex_digit n) = (if n < 10 then 0x30 + n else 0x57 + n)"
  by (simp add: hex_digit_def unsigned_of_nat take_bit_nat_eq_self del: of_nat_add)

lemma hex_digit_inj: "m < 16 \<Longrightarrow> n < 16 \<Longrightarrow> hex_digit m = hex_digit n \<Longrightarrow> m = n"
proof -
  assume lt: "m < 16" "n < 16" and "hex_digit m = hex_digit n"
  then have "unat (hex_digit m) = unat (hex_digit n)" by simp
  with lt show "m = n" by (simp add: unat_hex_digit split: if_splits)
qed

lemma byte_div_16: "unat (b :: byte) div 16 < 16"
  using unsigned_less [of b, where ?'a = nat] by (simp add: less_mult_imp_div_less)

lemma hex_string_range: "c \<in> set (hex_string bs) \<Longrightarrow> 0x30 \<le> c"
  using byte_div_16 by (auto simp: hex_string_def word_le_nat_alt unat_hex_digit)

lemma hex_string_inj: "hex_string a = hex_string b \<Longrightarrow> a = b"
proof (induction a arbitrary: b)
  case Nil
  then show ?case by (cases b) (auto simp: hex_string_def)
next
  case (Cons x a)
  then obtain y b' where b: "b = y # b'" by (cases b) (auto simp: hex_string_def)
  with Cons.prems have "hex_digit (unat x div 16) = hex_digit (unat y div 16)"
    "hex_digit (unat x mod 16) = hex_digit (unat y mod 16)" "hex_string a = hex_string b'"
    by (auto simp: hex_string_def)
  then have "unat x div 16 = unat y div 16" "unat x mod 16 = unat y mod 16" "a = b'"
    using hex_digit_inj [OF byte_div_16 byte_div_16] hex_digit_inj [of "unat x mod 16" "unat y mod 16"]
      Cons.IH by auto
  then show ?case using b by (metis div_mult_mod_eq unsigned_word_eqI word_unat_eq_iff)
qed

section \<open>Lines\<close>

definition one_line :: "bytes \<Rightarrow> bool" where
  "one_line u \<longleftrightarrow> 0x0a \<notin> set u"

lemma one_line_above: "(\<And>c. c \<in> set u \<Longrightarrow> 0x2d \<le> c) \<Longrightarrow> one_line u"
  unfolding one_line_def by (force simp: word_le_nat_alt)

lemma one_line_hex [simp]: "one_line (hex_string bs)"
  using hex_string_range by (intro one_line_above) (force simp: word_le_nat_alt)

lemma one_line_dec [simp]: "one_line (dec_nat n)" "one_line (dec_int i)"
  using dec_nat_range dec_int_range by (intro one_line_above; force simp: word_le_nat_alt)+

lemma one_line_append [simp]: "one_line (u @ v) \<longleftrightarrow> one_line u \<and> one_line v"
  by (auto simp: one_line_def)

lemma first_line:
  "u @ nl @ a = v @ nl @ b \<Longrightarrow> one_line u \<Longrightarrow> one_line v \<Longrightarrow> u = v \<and> a = b"
  by (induction u arbitrary: v) (auto simp: one_line_def nl_def Cons_eq_append_conv append_eq_Cons_conv)

lemma first_lines:
  assumes "concat (map (\<lambda>u. u @ nl) us) @ a = concat (map (\<lambda>u. u @ nl) vs) @ b"
    and "length us = length vs" "list_all one_line us" "list_all one_line vs"
  shows "us = vs" "a = b"
proof -
  have "us = vs \<and> a = b"
    using assms(2,1,3,4)
  proof (induction us vs rule: list_induct2)
    case (Cons u us v vs)
    then have "u @ nl @ concat (map (\<lambda>u. u @ nl) us) @ a = v @ nl @ concat (map (\<lambda>u. u @ nl) vs) @ b"
      by simp
    from first_line [OF this] Cons show ?case by simp
  qed simp
  then show "us = vs" "a = b" by simp_all
qed

lemma last_line:
  "a @ nl @ u = b @ nl @ v \<Longrightarrow> one_line u \<Longrightarrow> one_line v \<Longrightarrow> a = b \<and> u = v"
proof -
  assume "a @ nl @ u = b @ nl @ v" and u: "one_line u" "one_line v"
  then have "rev u @ nl @ rev a = rev v @ nl @ rev b" by (metis append_assoc rev_append rev_singleton_conv nl_def)
  from first_line [OF this] u show ?thesis by (simp add: one_line_def)
qed

section \<open>The texts determine what they print\<close>

lemma one_line_action: "one_line (action_String a)"
  by (cases a) (simp_all add: one_line_def action_String_def ascii_def)

lemma one_line_labels: "one_line tab" "one_line (ascii ''index: '')" "one_line (ascii ''length: '')"
    "one_line (ascii ''darc ID: '')" "one_line (ascii ''nonce: '')" "one_line (ascii ''instr: '')"
    "one_line (ascii ''signatures: '')" "one_line (ascii ''action: '')" "one_line (ascii ''key: '')"
    "one_line (ascii ''value: '')" "one_line (ascii ''contractID: '')"
  by (simp_all add: one_line_def tab_def ascii_def)

lemma sc_String_inj:
  assumes "sc_String x = sc_String y"
  shows "action_String (sc_StateAction x) = action_String (sc_StateAction y) \<and>
    sc_ContractID x = sc_ContractID y \<and> sc_ObjectID x = sc_ObjectID y \<and> sc_Value x = sc_Value y"
proof -
  note [simp] = one_line_action one_line_labels
  let ?front = "\<lambda>sc. tab @ ascii ''action: '' @ action_String (sc_StateAction sc)"
    and ?con = "\<lambda>sc. tab @ ascii ''contractID: '' @ sc_ContractID sc"
    and ?key = "\<lambda>sc. tab @ ascii ''key: '' @ hex_string (sc_ObjectID sc)"
    and ?val = "\<lambda>sc. tab @ ascii ''value: '' @ hex_string (sc_Value sc)"
  have "?front x @ nl @ ?con x @ nl @ ?key x @ nl @ ?val x =
      ?front y @ nl @ ?con y @ nl @ ?key y @ nl @ ?val y"
    using assms by (simp add: sc_String_def)
  then have front: "?front x = ?front y"
    and bk: "?con x @ nl @ ?key x @ nl @ ?val x = ?con y @ nl @ ?key y @ nl @ ?val y"
    by (auto dest: first_line)
  from bk have "?con x @ nl @ ?key x = ?con y @ nl @ ?key y" "?val x = ?val y"
    using last_line [of "?con x @ nl @ ?key x" "?val x" "?con y @ nl @ ?key y" "?val y"] by simp_all
  moreover from this(1) have "?con x = ?con y" "?key x = ?key y"
    using last_line [of "?con x" "?key x" "?con y" "?key y"] by simp_all
  ultimately show ?thesis using front by (auto dest: hex_string_inj)
qed

lemma instr_String_inj:
  assumes "instr_String sha x = instr_String sha y"
  shows "instr_Hash sha x = instr_Hash sha y \<and> DarcID (in_ObjectID x) = DarcID (in_ObjectID y) \<and>
    in_Nonce x = in_Nonce y \<and> in_Index x = in_Index y \<and> in_Length x = in_Length y \<and>
    instr_Action x = instr_Action y \<and> length (in_Signatures x) = length (in_Signatures y)"
proof -
  note [simp] = one_line_labels
  let ?a = "\<lambda>i. ascii ''instr: '' @ hex_string (instr_Hash sha i)"
    and ?b = "\<lambda>i. tab @ ascii ''darc ID: '' @ hex_string (DarcID (in_ObjectID i))"
    and ?c = "\<lambda>i. tab @ ascii ''nonce: '' @ hex_string (in_Nonce i)"
    and ?d = "\<lambda>i. tab @ ascii ''index: '' @ dec_int (in_Index i)"
    and ?e = "\<lambda>i. tab @ ascii ''length: '' @ dec_int (in_Length i)"
    and ?f = "\<lambda>i. tab @ ascii ''action: '' @ instr_Action i"
    and ?g = "\<lambda>i. tab @ ascii ''signatures: '' @ dec_nat (length (in_Signatures i))"
  have "?a x @ nl @ ?b x @ nl @ ?c x @ nl @ ?d x @ nl @ ?e x @ nl @ ?f x @ nl @ ?g x @ nl =
      ?a y @ nl @ ?b y @ nl @ ?c y @ nl @ ?d y @ nl @ ?e y @ nl @ ?f y @ nl @ ?g y @ nl"
    using assms by (simp add: instr_String_def)
  then have "concat (map (\<lambda>u. u @ nl) [?a x, ?b x, ?c x, ?d x, ?e x]) @ ?f x @ nl @ ?g x @ nl =
      concat (map (\<lambda>u. u @ nl) [?a y, ?b y, ?c y, ?d y, ?e y]) @ ?f y @ nl @ ?g y @ nl"
    by (simp only: list.map concat.simps append_assoc append_Nil2 append_Nil)
  then have front: "[?a x, ?b x, ?c x, ?d x, ?e x] = [?a y, ?b y, ?c y, ?d y, ?e y]"
    and "?f x @ nl @ ?g x @ nl = ?f y @ nl @ ?g y @ nl"
    by (rule first_lines; simp)+
  then have "?f x @ nl @ ?g x = ?f y @ nl @ ?g y" by (simp add: nl_def)
  then have "?f x = ?f y \<and> ?g x = ?g y" by (rule last_line) simp_all
  with front show ?thesis by (auto dest: hex_string_inj dec_int_inj dec_nat_inj)
qed

end
