(* ===== verification/Flags.thy ===== *)
theory Flags
  imports Cli Printing
begin

text \<open>
  Models the flags of a command line: the package \<open>flag\<close> of Go's standard library as far as the vendored
  \<open>cli.v1\<close> uses it, and the part of that library that declares flags and evens out their names
  (\<open>flag.go\<close>, \<open>context.go\<close>). Names and values are the bytes of their strings; the environment
  variables and destinations of flags, which neither program uses, are left out.
\<close>

section \<open>Reading numbers\<close>

text \<open>
  \<open>strconv.ParseInt(s, 0, 64)\<close>: an optional sign, and a number in base 16 after \<open>0x\<close>, 8 after \<open>0\<close> and 10
  otherwise; \<open>None\<close> is a syntax or range error.
\<close>

definition digit_value :: "byte \<Rightarrow> nat option" where
  "digit_value b =
     (if 0x30 \<le> b \<and> b \<le> 0x39 then Some (unat b - 0x30)
      else if 0x61 \<le> b \<and> b \<le> 0x7a then Some (unat b - 0x61 + 10)
      else if 0x41 \<le> b \<and> b \<le> 0x5a then Some (unat b - 0x41 + 10)
      else None)"

fun parse_digits :: "nat \<Rightarrow> nat \<Rightarrow> bytes \<Rightarrow> nat option" where
  "parse_digits base acc [] = Some acc"
| "parse_digits base acc (b # bs) =
     (case digit_value b of
        None \<Rightarrow> None
      | Some v \<Rightarrow> if v < base then parse_digits base (base * acc + v) bs else None)"

text \<open>As in the releases of Go before 1.13, which know neither \<open>0b\<close> and \<open>0o\<close> nor underscores.\<close>

definition ParseUint :: "bytes \<Rightarrow> nat option" where
  "ParseUint s =
     (case s of
        [] \<Rightarrow> None
      | b # bs \<Rightarrow>
          if b \<noteq> 0x30 then parse_digits 10 0 s
          else (case bs of
              [] \<Rightarrow> Some 0
            | x # ds \<Rightarrow>
                if x = 0x78 \<or> x = 0x58 then (if ds = [] then None else parse_digits 16 0 ds)
                else parse_digits 8 0 bs))"

definition ParseInt :: "bytes \<Rightarrow> int option" where
  "ParseInt s =
     (case s of
        [] \<Rightarrow> None
      | b # bs \<Rightarrow>
          (case ParseUint (if b = 0x2b \<or> b = 0x2d then bs else s) of
             None \<Rightarrow> None
           | Some n \<Rightarrow>
               if b \<noteq> 0x2d \<and> 2 ^ 63 \<le> n then None
               else if b = 0x2d \<and> 2 ^ 63 < n then None
               else Some (if b = 0x2d then - int n else int n)))"

definition ParseBool :: "bytes \<Rightarrow> bool option" where
  "ParseBool s =
     (if s \<in> {ascii ''1'', ascii ''t'', ascii ''T'', ascii ''TRUE'', ascii ''true'', ascii ''True''} then Some True
      else if s \<in> {ascii ''0'', ascii ''f'', ascii ''F'', ascii ''FALSE'', ascii ''false'', ascii ''False''}
      then Some False else None)"

section \<open>Sets of flags\<close>

datatype flag_value = IntValue int | StringValue bytes | BoolValue bool

fun value_String :: "flag_value \<Rightarrow> bytes" where
  "value_String (IntValue i) = dec_int i"
| "value_String (StringValue s) = s"
| "value_String (BoolValue b) = (if b then ascii ''true'' else ascii ''false'')"

fun value_Set :: "flag_value \<Rightarrow> bytes \<Rightarrow> flag_value option" where
  "value_Set (IntValue i) s = map_option IntValue (ParseInt s)"
| "value_Set (StringValue t) s = Some (StringValue s)"
| "value_Set (BoolValue b) s = map_option BoolValue (ParseBool s)"

text \<open>The declared flags with their values, the names that were set, and the arguments that are left.\<close>

record flag_set =
  fs_formal :: "bytes \<rightharpoonup> flag_value"
  fs_actual :: "bytes list"
  fs_args :: "bytes list"

datatype flag_error =
  BadFlagSyntax bytes
| FlagNotDefined bytes
| ErrHelp
| InvalidValue bytes bytes
| FlagNeedsArgument bytes
| TwoForms bytes bytes

definition fs_Set :: "flag_set \<Rightarrow> bytes \<Rightarrow> bytes \<Rightarrow> flag_set option" where
  "fs_Set fs name v =
     (case fs_formal fs name of
        None \<Rightarrow> None
      | Some old \<Rightarrow>
          (case value_Set old v of
             None \<Rightarrow> None
           | Some new \<Rightarrow>
               Some (fs\<lparr>fs_formal := (fs_formal fs)(name \<mapsto> new), fs_actual := name # fs_actual fs\<rparr>)))"

text \<open>
  \<open>parseOne\<close> with the name and the value of a flag at hand: a flag that is not boolean takes the next
  argument when it has no value of its own.
\<close>

definition is_BoolValue :: "flag_value \<Rightarrow> bool" where
  "is_BoolValue v = (case v of BoolValue b \<Rightarrow> True | _ \<Rightarrow> False)"

definition set_flag :: "flag_set \<Rightarrow> bytes \<Rightarrow> bytes \<Rightarrow> (flag_error + bool) \<times> flag_set" where
  "set_flag fs name v =
     (case fs_Set fs name v of None \<Rightarrow> (Inl (InvalidValue name v), fs) | Some fs' \<Rightarrow> (Inr True, fs'))"

definition apply_flag :: "flag_set \<Rightarrow> bytes \<Rightarrow> bytes option \<Rightarrow> (flag_error + bool) \<times> flag_set" where
  "apply_flag fs name given =
     (case fs_formal fs name of
        None \<Rightarrow>
          if name = ascii ''help'' \<or> name = ascii ''h'' then (Inl ErrHelp, fs)
          else (Inl (FlagNotDefined name), fs)
      | Some v \<Rightarrow>
          if is_BoolValue v then set_flag fs name (case given of None \<Rightarrow> ascii ''true'' | Some s \<Rightarrow> s)
          else (case given of
              Some s \<Rightarrow> set_flag fs name s
            | None \<Rightarrow>
                (case fs_args fs of
                   [] \<Rightarrow> (Inl (FlagNeedsArgument name), fs)
                 | s # rest \<Rightarrow> set_flag (fs\<lparr>fs_args := rest\<rparr>) name s)))"

text \<open>The name up to the first equals sign after its first byte, and the value behind it.\<close>

definition cut_value :: "bytes \<Rightarrow> bytes \<times> bytes option" where
  "cut_value name =
     (let first = take 1 name; behind = drop 1 name; n = takeWhile (\<lambda>b. b \<noteq> 0x3d) behind in
      if length n = length behind then (name, None)
      else (first @ n, Some (drop (length n + 1) behind)))"

definition parseOne :: "flag_set \<Rightarrow> (flag_error + bool) \<times> flag_set" where
  "parseOne fs =
     (case fs_args fs of
        [] \<Rightarrow> (Inr False, fs)
      | s # rest \<Rightarrow>
          if length s < 2 \<or> s ! 0 \<noteq> 0x2d then (Inr False, fs)
          else if s = [0x2d, 0x2d] then (Inr False, fs\<lparr>fs_args := rest\<rparr>)
          else
            (let name = drop (if s ! 1 = 0x2d then 2 else 1) s in
             if name = [] \<or> hd name = 0x2d \<or> hd name = 0x3d then (Inl (BadFlagSyntax s), fs)
             else (case cut_value name of (n, given) \<Rightarrow> apply_flag (fs\<lparr>fs_args := rest\<rparr>) n given)))"

lemma fs_Set_args: "fs_Set fs name v = Some fs' \<Longrightarrow> fs_args fs' = fs_args fs"
  by (auto simp: fs_Set_def split: option.splits)

lemma set_flag_args: "set_flag fs name v = (res, fs') \<Longrightarrow> fs_args fs' = fs_args fs"
  by (auto simp: set_flag_def dest: fs_Set_args split: option.splits)

lemma apply_flag_args: "apply_flag fs name given = (Inr True, fs') \<Longrightarrow> length (fs_args fs') \<le> length (fs_args fs)"
  by (auto simp: apply_flag_def dest!: set_flag_args split: option.splits list.splits if_splits)

lemma parseOne_shorter:
  "parseOne fs = (Inr True, fs') \<Longrightarrow> length (fs_args fs') < length (fs_args fs)"
  by (auto simp: parseOne_def Let_def dest!: apply_flag_args split: list.splits if_splits prod.splits)

text \<open>The loop of \<open>FlagSet.Parse\<close>: with \<open>ContinueOnError\<close> an error ends it and is returned.\<close>

function parse_loop :: "flag_set \<Rightarrow> flag_error option \<times> flag_set" where
  "parse_loop fs =
     (case parseOne fs of
        (Inl err, fs') \<Rightarrow> (Some err, fs')
      | (Inr seen, fs') \<Rightarrow> if seen then parse_loop fs' else (None, fs'))"
  by auto

termination
  by (relation "measure (\<lambda>fs. length (fs_args fs))") (auto dest: parseOne_shorter [OF sym])

declare parse_loop.simps [simp del]

definition fs_Parse :: "flag_set \<Rightarrow> bytes list \<Rightarrow> flag_error option \<times> flag_set" where
  "fs_Parse fs arguments = parse_loop (fs\<lparr>fs_args := arguments\<rparr>)"

section \<open>The flags of the command line library\<close>

datatype cli_flag = IntFlag bytes int bytes | StringFlag bytes bytes bytes | BoolFlag bytes bytes

fun GetName :: "cli_flag \<Rightarrow> bytes" where
  "GetName (IntFlag name v usage) = name"
| "GetName (StringFlag name v usage) = name"
| "GetName (BoolFlag name usage) = name"

fun flag_default :: "cli_flag \<Rightarrow> flag_value" where
  "flag_default (IntFlag name v usage) = IntValue v"
| "flag_default (StringFlag name v usage) = StringValue v"
| "flag_default (BoolFlag name usage) = BoolValue False"

text \<open>The names of a flag: \<open>strings.Split\<close> at the commas, and \<open>strings.Trim\<close> of the spaces around each.\<close>

fun split_at :: "byte \<Rightarrow> bytes \<Rightarrow> bytes list" where
  "split_at sep [] = [[]]"
| "split_at sep (b # bs) =
     (if b = sep then [] # split_at sep bs
      else (case split_at sep bs of [] \<Rightarrow> [[b]] | p # ps \<Rightarrow> (b # p) # ps))"

definition Trim_spaces :: "bytes \<Rightarrow> bytes" where
  "Trim_spaces s = rev (dropWhile (\<lambda>b. b = 0x20) (rev (dropWhile (\<lambda>b. b = 0x20) s)))"

definition eachName :: "bytes \<Rightarrow> bytes list" where
  "eachName longName = map Trim_spaces (split_at 0x2c longName)"

text \<open>Declaring a flag a second time panics.\<close>

fun declare_names :: "bytes list \<Rightarrow> flag_value \<Rightarrow> (bytes \<rightharpoonup> flag_value) \<Rightarrow> (bytes \<rightharpoonup> flag_value) option" where
  "declare_names [] v formal = Some formal"
| "declare_names (name # names) v formal =
     (if formal name = None then declare_names names v (formal(name \<mapsto> v)) else None)"

fun declare_flags :: "cli_flag list \<Rightarrow> (bytes \<rightharpoonup> flag_value) \<Rightarrow> (bytes \<rightharpoonup> flag_value) option" where
  "declare_flags [] formal = Some formal"
| "declare_flags (f # fs) formal =
     (case declare_names (eachName (GetName f)) (flag_default f) formal of
        None \<Rightarrow> None
      | Some formal' \<Rightarrow> declare_flags fs formal')"

definition flagSet :: "cli_flag list \<Rightarrow> flag_set option" where
  "flagSet flags =
     map_option (\<lambda>formal. \<lparr>fs_formal = formal, fs_actual = [], fs_args = []\<rparr>) (declare_flags flags Map.empty)"

text \<open>
  \<open>normalizeFlags\<close>: of the names of a flag at most one may have been set, and its value is copied to the
  others. The errors of copying are ignored.
\<close>

fun set_form :: "bytes list \<Rightarrow> bytes list \<Rightarrow> bytes option \<Rightarrow> flag_error + bytes option" where
  "set_form visited [] ff = Inr ff"
| "set_form visited (name # names) ff =
     (if name \<in> set visited then
        (case ff of Some other \<Rightarrow> Inl (TwoForms name other) | None \<Rightarrow> set_form visited names (Some name))
      else set_form visited names ff)"

definition copyFlag :: "bytes \<Rightarrow> bytes \<Rightarrow> flag_set \<Rightarrow> flag_set" where
  "copyFlag name ff fs =
     (case fs_formal fs ff of
        None \<Rightarrow> fs
      | Some v \<Rightarrow> (case fs_Set fs name (value_String v) of None \<Rightarrow> fs | Some fs' \<Rightarrow> fs'))"

fun copy_to :: "bytes list \<Rightarrow> bytes list \<Rightarrow> bytes \<Rightarrow> flag_set \<Rightarrow> flag_set" where
  "copy_to visited [] ff fs = fs"
| "copy_to visited (name # names) ff fs =
     copy_to visited names ff (if name \<in> set visited then fs else copyFlag name ff fs)"

fun normalize :: "bytes list \<Rightarrow> cli_flag list \<Rightarrow> flag_set \<Rightarrow> flag_error option \<times> flag_set" where
  "normalize visited [] fs = (None, fs)"
| "normalize visited (f # flags) fs =
     (let names = eachName (GetName f) in
      if length names = 1 then normalize visited flags fs
      else (case set_form visited names None of
          Inl err \<Rightarrow> (Some err, fs)
        | Inr None \<Rightarrow> normalize visited flags fs
        | Inr (Some ff) \<Rightarrow> normalize visited flags (copy_to visited names ff fs)))"

definition normalizeFlags :: "cli_flag list \<Rightarrow> flag_set \<Rightarrow> flag_error option \<times> flag_set" where
  "normalizeFlags flags fs = normalize (fs_actual fs) flags fs"

text \<open>Looking a flag up gives the text of its value, which is read again.\<close>

definition flag_strings :: "flag_set \<Rightarrow> bytes \<rightharpoonup> bytes" where
  "flag_strings fs name = map_option value_String (fs_formal fs name)"

definition ctx_Int :: "cli_context \<Rightarrow> bytes \<Rightarrow> int" where
  "ctx_Int c name =
     (case ctx_flags c name of
        None \<Rightarrow> 0
      | Some s \<Rightarrow> (case ParseInt s of None \<Rightarrow> 0 | Some i \<Rightarrow> i))"

definition lookupBool :: "(bytes \<rightharpoonup> bytes) \<Rightarrow> bytes \<Rightarrow> bool" where
  "lookupBool flags name =
     (case flags name of
        None \<Rightarrow> False
      | Some s \<Rightarrow> (case ParseBool s of None \<Rightarrow> False | Some b \<Rightarrow> b))"

section \<open>Numbers that were printed are read back\<close>

lemma digit_value_digit: "n < 10 \<Longrightarrow> digit_value (dec_digit n) = Some n"
  by (simp add: digit_value_def unat_digit word_le_nat_alt)

lemma parse_digits_append:
  "parse_digits base acc (xs @ ys) =
     (case parse_digits base acc xs of None \<Rightarrow> None | Some n \<Rightarrow> parse_digits base n ys)"
  by (induction xs arbitrary: acc) (auto split: option.splits)

lemma parse_dec_nat: "parse_digits 10 0 (dec_nat n) = Some n"
proof (induction n rule: dec_nat.induct)
  case (1 n)
  then show ?case
    by (subst dec_nat.simps) (auto simp: digit_value_digit parse_digits_append)
qed

lemma dec_nat_first: "0 < n \<Longrightarrow> \<exists>b bs. dec_nat n = b # bs \<and> 0x31 \<le> b \<and> b \<le> 0x39"
proof (induction n rule: dec_nat.induct)
  case (1 n)
  show ?case
  proof (cases "n < 10")
    case True
    with 1(2) show ?thesis by (subst dec_nat.simps) (simp add: word_le_nat_alt unat_digit)
  next
    case False
    with 1(1) obtain b bs where "dec_nat (n div 10) = b # bs" "0x31 \<le> b" "b \<le> 0x39" by fastforce
    with False show ?thesis by (subst dec_nat.simps) simp
  qed
qed

lemma ParseUint_dec_nat: "ParseUint (dec_nat n) = Some n"
proof (cases "n = 0")
  case True
  then show ?thesis by (simp add: ParseUint_def dec_nat.simps dec_digit_def)
next
  case False
  then obtain b bs where b: "dec_nat n = b # bs" "0x31 \<le> b" using dec_nat_first by blast
  then have "b \<noteq> 0x30" by (auto simp: word_le_nat_alt)
  with b show ?thesis using parse_dec_nat [of n] by (simp add: ParseUint_def)
qed

theorem ParseInt_dec_int:
  assumes "- (2 ^ 63) \<le> i" "i < 2 ^ 63"
  shows "ParseInt (dec_int i) = Some i"
proof (cases "i < 0")
  case True
  with assms(1) have "\<not> 2 ^ 63 < nat (- i)" by (simp add: zless_nat_eq_int_zless nat_less_iff)
  with True show ?thesis by (simp add: ParseInt_def dec_int_def ParseUint_dec_nat)
next
  case False
  obtain b bs where b: "dec_nat (nat i) = b # bs" "0x30 \<le> b"
    using dec_nat_range [of _ "nat i"] by (cases "dec_nat (nat i)") auto
  then have "b \<noteq> 0x2b" "b \<noteq> 0x2d" by (auto simp: word_le_nat_alt)
  moreover from False assms(2) have "\<not> 2 ^ 63 \<le> nat i" by (simp add: le_nat_iff)
  ultimately show ?thesis using False b ParseUint_dec_nat [of "nat i"] by (simp add: ParseInt_def dec_int_def)
qed

end
