(* ===== verification/Commands.thy ===== *)
theory Commands
  imports Flags
begin

text \<open>
  Models the two programs, the \<open>main\<close> functions of \<open>app.go\<close> and \<open>conode.go\<close> with their tables of commands
  and flags, and what the vendored \<open>cli.v1\<close> does with them (\<open>app.go\<close>, \<open>command.go\<close>, \<open>help.go\<close>): the flags of
  the application are read, \<open>Before\<close> runs, the first argument chooses a command, whose own flags are read.
  Completion, subcommands and \<open>After\<close>, which neither program uses, and the layout of help texts are left
  out. \<open>InteractiveConfig\<close> and \<open>RunServer\<close> of onet are parameters, as are the group file and the network.
\<close>

section \<open>Processes\<close>

text \<open>What a process shows: the texts of the library, and what the program itself logs.\<close>

datatype 'o shown =
  AppHelp
| CommandHelp bytes
| SubcommandHelp
| VersionLine bytes bytes
| IncorrectUsage flag_error
| UsageNote flag_error
| Logged 'o

record ('w, 'o) process =
  pr_world :: 'w
  pr_debug :: int
  pr_shown :: "'o shown list"

definition print_shown :: "'o shown list \<Rightarrow> ('w, 'o) process \<Rightarrow> ('w, 'o) process" where
  "print_shown xs p = p\<lparr>pr_shown := pr_shown p @ xs\<rparr>"

fun then_do :: "'a ended \<Rightarrow> ('a \<Rightarrow> 'b ended) \<Rightarrow> 'b ended" where
  "then_do (Exits n) f = Exits n"
| "then_do NoReturn f = NoReturn"
| "then_do (Returns x) f = f x"

section \<open>Applications and their commands\<close>

text \<open>
  An action with and without an error as its result, and the action of the help command, which is also
  the one an application has when it sets none.
\<close>

datatype ('e, 'p) cli_action =
  ActionFunc "cli_context \<Rightarrow> 'p \<Rightarrow> ('e option \<times> 'p) ended"
| LegacyFunc "cli_context \<Rightarrow> 'p \<Rightarrow> 'p ended"
| HelpAction

record ('e, 'p) cli_command =
  cmd_Name :: bytes
  cmd_Aliases :: "bytes list"
  cmd_Usage :: bytes
  cmd_ArgsUsage :: bytes
  cmd_Action :: "('e, 'p) cli_action"

record ('e, 'p) cli_app =
  app_Name :: bytes
  app_Usage :: bytes
  app_Version :: bytes
  app_Commands :: "('e, 'p) cli_command list"
  app_Flags :: "cli_flag list"
  app_Before :: "cli_context \<Rightarrow> 'p \<Rightarrow> 'e option \<times> 'p"
  app_Action :: "('e, 'p) cli_action"

definition HelpFlag :: cli_flag where
  "HelpFlag = BoolFlag (ascii ''help, h'') (ascii ''show help'')"

definition VersionFlag :: cli_flag where
  "VersionFlag = BoolFlag (ascii ''version, v'') (ascii ''print the version'')"

definition helpCommand :: "('e, 'p) cli_command" where
  "helpCommand =
     \<lparr>cmd_Name = ascii ''help'', cmd_Aliases = [ascii ''h''],
      cmd_Usage = ascii ''Shows a list of commands or help for one command'', cmd_ArgsUsage = ascii ''[command]'',
      cmd_Action = HelpAction\<rparr>"

definition HasName :: "('e, 'p) cli_command \<Rightarrow> bytes \<Rightarrow> bool" where
  "HasName c name = (name = cmd_Name c \<or> name \<in> set (cmd_Aliases c))"

definition app_Command :: "('e, 'p) cli_app \<Rightarrow> bytes \<Rightarrow> ('e, 'p) cli_command option" where
  "app_Command a name = find (\<lambda>c. HasName c name) (app_Commands a)"

definition appendFlag :: "cli_flag \<Rightarrow> ('e, 'p) cli_app \<Rightarrow> ('e, 'p) cli_app" where
  "appendFlag flag a =
     (if flag \<in> set (app_Flags a) then a else a\<lparr>app_Flags := app_Flags a @ [flag]\<rparr>)"

definition app_Setup :: "('e, 'p) cli_app \<Rightarrow> ('e, 'p) cli_app" where
  "app_Setup a =
     (let a1 =
        (if app_Command a (ascii ''help'') = None
         then appendFlag HelpFlag (a\<lparr>app_Commands := app_Commands a @ [helpCommand]\<rparr>) else a) in
      appendFlag VersionFlag a1)"

section \<open>Running an application\<close>

text \<open>The error of an unknown help topic carries an exit code, with which \<open>HandleExitCoder\<close> exits.\<close>

datatype 'e run_error = FlagError flag_error | NoHelpTopic bytes | ActionError 'e

definition HandleExitCoder :: "'e run_error option \<Rightarrow> 'a ended \<Rightarrow> 'a ended" where
  "HandleExitCoder err after = (case err of Some (NoHelpTopic t) \<Rightarrow> Exits 3 | _ \<Rightarrow> after)"

definition ShowCommandHelp ::
  "('e, ('w, 'o) process) cli_app \<Rightarrow> bytes \<Rightarrow> ('w, 'o) process \<Rightarrow> 'e run_error option \<times> ('w, 'o) process" where
  "ShowCommandHelp a command p =
     (if command = [] then (None, print_shown [SubcommandHelp] p)
      else (case app_Command a command of
          Some c \<Rightarrow> (None, print_shown [CommandHelp (cmd_Name c)] p)
        | None \<Rightarrow> (Some (NoHelpTopic command), p)))"

definition HandleAction ::
  "('e, ('w, 'o) process) cli_app \<Rightarrow> ('e, ('w, 'o) process) cli_action \<Rightarrow> cli_context \<Rightarrow> ('w, 'o) process \<Rightarrow>
   ('e run_error option \<times> ('w, 'o) process) ended" where
  "HandleAction a action c p =
     (case action of
        ActionFunc f \<Rightarrow> then_do (f c p) (\<lambda>(err, p'). Returns (map_option ActionError err, p'))
      | LegacyFunc f \<Rightarrow> then_do (f c p) (\<lambda>p'. Returns (None, p'))
      | HelpAction \<Rightarrow>
          (case ctx_Args c of
             [] \<Rightarrow> Returns (None, print_shown [AppHelp] p)
           | topic # _ \<Rightarrow> Returns (ShowCommandHelp a topic p)))"

text \<open>
  \<open>Command.Run\<close> parses the flags of a command, which may also come behind its arguments: from the first
  of them on, everything up to the terminator is moved to the front. \<open>args\<close> starts with the command's name.
\<close>

definition is_flag_arg :: "bytes \<Rightarrow> bool" where
  "is_flag_arg arg = (arg \<noteq> [] \<and> hd arg = 0x2d \<and> arg \<noteq> [0x2d])"

definition reorder :: "bytes list \<Rightarrow> bytes list option" where
  "reorder args =
     (let region = takeWhile (\<lambda>a. a \<noteq> [0x2d, 0x2d]) args;
          behind = dropWhile (\<lambda>a. a \<noteq> [0x2d, 0x2d]) args;
          regular = takeWhile (\<lambda>a. \<not> is_flag_arg a) region;
          flags = dropWhile (\<lambda>a. \<not> is_flag_arg a) region in
      if flags = [] then Some (tl args)
      else if regular = [] then None
      else Some (flags @ tl regular @ behind))"

definition command_Run ::
  "('e, ('w, 'o) process) cli_app \<Rightarrow> ('e, ('w, 'o) process) cli_command \<Rightarrow> cli_context \<Rightarrow> ('w, 'o) process \<Rightarrow>
   ('e run_error option \<times> ('w, 'o) process) ended" where
  "command_Run a cmd c p =
     (case flagSet [HelpFlag] of
        None \<Rightarrow> NoReturn
      | Some fs \<Rightarrow>
          (case reorder (ctx_Args c) of
             None \<Rightarrow> NoReturn
           | Some args \<Rightarrow>
               (let (err, fs1) = fs_Parse fs args; (nerr, fs2) = normalizeFlags [HelpFlag] fs1;
                    context = \<lparr>ctx_Args = fs_args fs2, ctx_flags = flag_strings fs2,
                               ctx_app_flags = ctx_app_flags c\<rparr> in
                (case nerr of
                   Some e \<Rightarrow>
                     Returns (Some (FlagError e), snd (ShowCommandHelp a (cmd_Name cmd) (print_shown [UsageNote e] p)))
                 | None \<Rightarrow>
                     (case err of
                        Some e \<Rightarrow>
                          Returns (Some (FlagError e),
                            snd (ShowCommandHelp a (cmd_Name cmd) (print_shown [IncorrectUsage e] p)))
                      | None \<Rightarrow>
                          if lookupBool (ctx_flags context) (ascii ''h'') \<or>
                             lookupBool (ctx_flags context) (ascii ''help'')
                          then Returns (None, snd (ShowCommandHelp a (cmd_Name cmd) p))
                          else then_do (HandleAction a (cmd_Action cmd) context p)
                            (\<lambda>(err, p'). HandleExitCoder err (Returns (err, p'))))))))"

text \<open>
  \<open>App.Run\<close>. The context of the application is its own global context. \<open>arguments[1:]\<close> panics on an empty
  list of arguments.
\<close>

definition any_name :: "cli_context \<Rightarrow> cli_flag \<Rightarrow> bool" where
  "any_name c flag =
     list_ex (\<lambda>name. lookupBool (ctx_app_flags c) name \<or> lookupBool (ctx_flags c) name) (eachName (GetName flag))"

definition dispatch ::
  "('e, ('w, 'o) process) cli_app \<Rightarrow> cli_context \<Rightarrow> ('w, 'o) process \<Rightarrow>
   ('e run_error option \<times> ('w, 'o) process) ended" where
  "dispatch a context p =
     (case app_Before a context p of
        (Some e, p') \<Rightarrow> Returns (Some (ActionError e), print_shown [AppHelp] p')
      | (None, p') \<Rightarrow>
          (case (case ctx_Args context of [] \<Rightarrow> None | name # _ \<Rightarrow> app_Command a name) of
             Some cmd \<Rightarrow> command_Run a cmd context p'
           | None \<Rightarrow>
               then_do (HandleAction a (app_Action a) context p')
                 (\<lambda>(err, p''). HandleExitCoder err (Returns (err, p'')))))"

definition app_Run ::
  "('e, ('w, 'o) process) cli_app \<Rightarrow> bytes list \<Rightarrow> ('w, 'o) process \<Rightarrow>
   ('e run_error option \<times> ('w, 'o) process) ended" where
  "app_Run app arguments p =
     (let a = app_Setup app in
      (case flagSet (app_Flags a) of
         None \<Rightarrow> NoReturn
       | Some fs \<Rightarrow>
           (case arguments of
              [] \<Rightarrow> NoReturn
            | _ # args \<Rightarrow>
                (let (err, fs1) = fs_Parse fs args; (nerr, fs2) = normalizeFlags (app_Flags a) fs1;
                     context = \<lparr>ctx_Args = fs_args fs2, ctx_flags = flag_strings fs2,
                                ctx_app_flags = flag_strings fs2\<rparr> in
                 (case nerr of
                    Some e \<Rightarrow> Returns (Some (FlagError e), print_shown [UsageNote e, AppHelp] p)
                  | None \<Rightarrow>
                      (case err of
                         Some e \<Rightarrow> Returns (Some (FlagError e), print_shown [IncorrectUsage e, AppHelp] p)
                       | None \<Rightarrow>
                           if any_name context HelpFlag then Returns (None, print_shown [AppHelp] p)
                           else if any_name context VersionFlag
                           then Returns (None, print_shown [VersionLine (app_Name a) (app_Version a)] p)
                           else dispatch a context p))))))"

section \<open>The two programs\<close>

definition debug_flag :: cli_flag where
  "debug_flag = IntFlag (ascii ''debug, d'') 0 (ascii ''debug-level: 1 for terse, 5 for maximal'')"

definition set_debug :: "cli_context \<Rightarrow> ('w, 'o) process \<Rightarrow> 'e option \<times> ('w, 'o) process" where
  "set_debug c p = (None, p\<lparr>pr_debug := ctx_Int c (ascii ''debug'')\<rparr>)"

text \<open>\<open>main\<close> hands the error of the run to \<open>log.ErrFatal\<close>, which exits with code 1.\<close>

definition main_end :: "('e option \<times> 'p) ended \<Rightarrow> 'p ended" where
  "main_end result = then_do result (\<lambda>(err, p). ErrFatal err (Returns p))"

text \<open>The hash of the new chain and the two keys are what \<open>create\<close> logs at the end.\<close>

definition create_action ::
  "('p, 's, 'k) crypto \<Rightarrow> 'p \<times> 's \<Rightarrow> (bytes \<Rightarrow> service_error + 'f) \<Rightarrow> ('f \<Rightarrow> service_error + 'n list option) \<Rightarrow>
   ('n \<Rightarrow> ('p, 'n list) genesis_request \<Rightarrow> 'w \<Rightarrow> ((service_error + int \<times> 'r skipblock) \<times> 'w) option) \<Rightarrow>
   cli_context \<Rightarrow> ('w, bytes \<times> 's \<times> 'p) process \<Rightarrow> (cli_error option \<times> ('w, bytes \<times> 's \<times> 'p) process) ended" where
  "create_action cr kp open_file ReadGroupDescToml send c p =
     then_do (create cr kp open_file ReadGroupDescToml send c (pr_world p))
       (\<lambda>(res, w). Returns (case res of
            Inl err \<Rightarrow> (Some err, p\<lparr>pr_world := w\<rparr>)
          | Inr out \<Rightarrow> (None, print_shown [Logged out] (p\<lparr>pr_world := w\<rparr>))))"

definition omniledger_app ::
  "(cli_context \<Rightarrow> ('w, 'o) process \<Rightarrow> (cli_error option \<times> ('w, 'o) process) ended) \<Rightarrow>
   (cli_error, ('w, 'o) process) cli_app" where
  "omniledger_app action =
     \<lparr>app_Name = ascii ''OmniLedger app'', app_Usage = ascii ''Key/value storage for OmniLedger'',
      app_Version = ascii ''0.1'',
      app_Commands =
        [\<lparr>cmd_Name = ascii ''create'', cmd_Aliases = [ascii ''c''], cmd_Usage = ascii ''creates a new skipchain'',
          cmd_ArgsUsage = ascii ''group.toml'', cmd_Action = ActionFunc action\<rparr>],
      app_Flags = [debug_flag], app_Before = set_debug, app_Action = HelpAction\<rparr>"

definition main_app ::
  "('p, 's, 'k) crypto \<Rightarrow> 'p \<times> 's \<Rightarrow> (bytes \<Rightarrow> service_error + 'f) \<Rightarrow> ('f \<Rightarrow> service_error + 'n list option) \<Rightarrow>
   ('n \<Rightarrow> ('p, 'n list) genesis_request \<Rightarrow> 'w \<Rightarrow> ((service_error + int \<times> 'r skipblock) \<times> 'w) option) \<Rightarrow>
   bytes list \<Rightarrow> ('w, bytes \<times> 's \<times> 'p) process \<Rightarrow> ('w, bytes \<times> 's \<times> 'p) process ended" where
  "main_app cr kp open_file ReadGroupDescToml send args p =
     main_end (app_Run (omniledger_app (create_action cr kp open_file ReadGroupDescToml send)) args p)"

text \<open>
  \<open>path.Join\<close> of two elements: joined at a slash and cleaned, that is, without empty elements, dots, and
  elements followed by two dots.
\<close>

fun clean_parts :: "bool \<Rightarrow> bytes list \<Rightarrow> bytes list \<Rightarrow> bytes list" where
  "clean_parts rooted stack [] = rev stack"
| "clean_parts rooted stack (c # cs) =
     (if c = [] \<or> c = [0x2e] then clean_parts rooted stack cs
      else if c = [0x2e, 0x2e] then
        (if stack \<noteq> [] \<and> hd stack \<noteq> [0x2e, 0x2e] then clean_parts rooted (tl stack) cs
         else if rooted then clean_parts rooted stack cs
         else clean_parts rooted (c # stack) cs)
      else clean_parts rooted (c # stack) cs)"

fun join_slash :: "bytes list \<Rightarrow> bytes" where
  "join_slash [] = []"
| "join_slash [p] = p"
| "join_slash (p # ps) = p @ 0x2f # join_slash ps"

definition path_Clean :: "bytes \<Rightarrow> bytes" where
  "path_Clean path =
     (let rooted = (path \<noteq> [] \<and> hd path = 0x2f);
          cleaned = (if rooted then [0x2f] else []) @ join_slash (clean_parts rooted [] (split_at 0x2f path)) in
      if cleaned = [] then [0x2e] else cleaned)"

definition path_Join :: "bytes \<Rightarrow> bytes \<Rightarrow> bytes" where
  "path_Join dir name =
     (if dir \<noteq> [] then path_Clean (dir @ 0x2f # name) else if name \<noteq> [] then path_Clean name else [])"

definition perform :: "('w \<Rightarrow> 'w ended) \<Rightarrow> (bytes \<Rightarrow> 'w \<Rightarrow> 'w ended) \<Rightarrow> server_action \<Rightarrow> 'w \<Rightarrow> 'w ended" where
  "perform interactive run_server act w =
     (case act of Fatal \<Rightarrow> Exits 1 | InteractiveConfig \<Rightarrow> interactive w | RunServer file \<Rightarrow> run_server file w)"

definition conode_app ::
  "('w \<Rightarrow> 'w ended) \<Rightarrow> (bytes \<Rightarrow> 'w \<Rightarrow> 'w ended) \<Rightarrow> (bytes \<Rightarrow> bytes) \<Rightarrow> (cli_error, ('w, 'o) process) cli_app" where
  "conode_app interactive run_server GetConfigPath =
     \<lparr>app_Name = ascii ''omniledger'', app_Usage = ascii ''basic file for an app'', app_Version = ascii ''0.1'',
      app_Commands =
        [\<lparr>cmd_Name = ascii ''setup'', cmd_Aliases = [ascii ''s''],
          cmd_Usage = ascii ''Setup server configuration (interactive)'', cmd_ArgsUsage = [],
          cmd_Action = ActionFunc (\<lambda>c p. then_do (perform interactive run_server (setup_action c) (pr_world p))
            (\<lambda>w. Returns (None, p\<lparr>pr_world := w\<rparr>)))\<rparr>,
         \<lparr>cmd_Name = ascii ''server'', cmd_Aliases = [], cmd_Usage = ascii ''Start cothority server'',
          cmd_ArgsUsage = [],
          cmd_Action = LegacyFunc (\<lambda>c p. then_do (perform interactive run_server (runServer c) (pr_world p))
            (\<lambda>w. Returns (p\<lparr>pr_world := w\<rparr>)))\<rparr>],
      app_Flags =
        [debug_flag,
         StringFlag (ascii ''config, c'') (path_Join (GetConfigPath (ascii ''omniledger'')) (ascii ''config.bin''))
           (ascii ''Configuration file of the server'')],
      app_Before = set_debug, app_Action = HelpAction\<rparr>"

definition main_conode ::
  "('w \<Rightarrow> 'w ended) \<Rightarrow> (bytes \<Rightarrow> 'w \<Rightarrow> 'w ended) \<Rightarrow> (bytes \<Rightarrow> bytes) \<Rightarrow> bytes list \<Rightarrow> ('w, 'o) process \<Rightarrow>
   ('w, 'o) process ended" where
  "main_conode interactive run_server GetConfigPath args p =
     main_end (app_Run (conode_app interactive run_server GetConfigPath) args p)"

end
