(* ===== verification/CommandsCorrect.thy ===== *)
theory CommandsCorrect
  imports Commands
begin

text \<open>
  What the two programs do with their command lines: which arguments reach a command and with which
  flags, that \<open>create\<close> founds a skipchain from the command line, and what the commands of the server do.
\<close>

section \<open>Names\<close>

lemma flag_names:
  "eachName (GetName debug_flag) = [ascii ''debug'', ascii ''d'']"
  "eachName (GetName HelpFlag) = [ascii ''help'', ascii ''h'']"
  "eachName (GetName VersionFlag) = [ascii ''version'', ascii ''v'']"
  "eachName (ascii ''config, c'') = [ascii ''config'', ascii ''c'']"
  by code_simp+

lemma name_bytes:
  "ascii ''debug'' = [0x64, 0x65, 0x62, 0x75, 0x67]" "ascii ''d'' = [0x64]"
  "ascii ''help'' = [0x68, 0x65, 0x6c, 0x70]" "ascii ''h'' = [0x68]"
  "ascii ''version'' = [0x76, 0x65, 0x72, 0x73, 0x69, 0x6f, 0x6e]" "ascii ''v'' = [0x76]"
  "ascii ''config'' = [0x63, 0x6f, 0x6e, 0x66, 0x69, 0x67]" "ascii ''c'' = [0x63]"
  "ascii ''create'' = [0x63, 0x72, 0x65, 0x61, 0x74, 0x65]"
  "ascii ''setup'' = [0x73, 0x65, 0x74, 0x75, 0x70]" "ascii ''s'' = [0x73]"
  "ascii ''server'' = [0x73, 0x65, 0x72, 0x76, 0x65, 0x72]"
  "ascii ''-d'' = [0x2d, 0x64]" "ascii ''-c'' = [0x2d, 0x63]"
  by code_simp+

lemma bool_texts: "ParseBool (ascii ''false'') = Some False"
  by code_simp

section \<open>Parsing\<close>

lemma parse_loop_stop:
  "fs_args fs = [] \<or> \<not> is_flag_arg (hd (fs_args fs)) \<Longrightarrow> parse_loop fs = (None, fs)"
proof (subst parse_loop.simps, cases "fs_args fs")
  case (Cons s rest)
  assume "fs_args fs = [] \<or> \<not> is_flag_arg (hd (fs_args fs))"
  with Cons have "length s < 2 \<or> s ! 0 \<noteq> 0x2d"
    by (cases s; cases "tl s") (auto simp: is_flag_arg_def)
  with Cons show "(case parseOne fs of (Inl err, fs') \<Rightarrow> (Some err, fs')
      | (Inr seen, fs') \<Rightarrow> if seen then parse_loop fs' else (None, fs')) = (None, fs)"
    by (simp add: parseOne_def)
qed (simp add: parseOne_def)

lemma parse_loop_option:
  assumes "fs_args fs = (0x2d # [b]) # v # rest" "b \<noteq> 0x2d" "b \<noteq> 0x3d"
    and "fs_formal fs [b] = Some old" "\<not> is_BoolValue old" "value_Set old v = Some new"
  shows "parse_loop fs =
    parse_loop \<lparr>fs_formal = (fs_formal fs)([b] \<mapsto> new), fs_actual = [b] # fs_actual fs, fs_args = rest\<rparr>"
proof -
  have "parseOne fs = (Inr True,
      \<lparr>fs_formal = (fs_formal fs)([b] \<mapsto> new), fs_actual = [b] # fs_actual fs, fs_args = rest\<rparr>)"
    using assms by (cases fs) (simp add: parseOne_def Let_def cut_value_def apply_flag_def set_flag_def fs_Set_def)
  then show ?thesis by (subst parse_loop.simps) simp
qed

lemma normalize_unset: "normalize [] flags fs = (None, fs)"
proof (induction flags)
  case (Cons f flags)
  have "set_form [] names None = Inr None" for names by (induction names) auto
  with Cons show ?case by (simp add: Let_def)
qed simp

section \<open>Commands\<close>

definition help_flags :: "bytes \<rightharpoonup> bytes" where
  "help_flags = [ascii ''help'' \<mapsto> ascii ''false'', ascii ''h'' \<mapsto> ascii ''false'']"

lemma command_plain:
  assumes "ctx_Args c = name # rest" "\<forall>arg\<in>set (name # rest). \<not> is_flag_arg arg"
  shows "command_Run a cmd c p =
    then_do (HandleAction a (cmd_Action cmd)
        \<lparr>ctx_Args = rest, ctx_flags = help_flags, ctx_app_flags = ctx_app_flags c\<rparr> p)
      (\<lambda>(err, p'). HandleExitCoder err (Returns (err, p')))"
proof -
  let ?fs = "\<lparr>fs_formal = [ascii ''help'' \<mapsto> BoolValue False, ascii ''h'' \<mapsto> BoolValue False],
      fs_actual = [], fs_args = rest\<rparr>"
  have fs: "flagSet [HelpFlag] = Some (?fs\<lparr>fs_args := []\<rparr>)"
    by (simp add: flagSet_def flag_names name_bytes) (simp add: HelpFlag_def)
  have parse: "fs_Parse (?fs\<lparr>fs_args := []\<rparr>) rest = (None, ?fs)"
    using assms(2) parse_loop_stop [of ?fs] by (cases rest) (auto simp: fs_Parse_def)
  have "is_flag_arg [0x2d, 0x2d]" by (simp add: is_flag_arg_def)
  with assms(2) have "takeWhile (\<lambda>a. a \<noteq> [0x2d, 0x2d]) (name # rest) = name # rest"
    by (subst takeWhile_eq_all_conv) auto
  moreover from assms(2) have "dropWhile (\<lambda>a. \<not> is_flag_arg a) (name # rest) = []"
    by (subst dropWhile_eq_Nil_conv) auto
  ultimately have order: "reorder (name # rest) = Some rest"
    unfolding reorder_def by (simp only: Let_def if_True list.sel simp_thms)
  have strings: "flag_strings ?fs = help_flags"
    by (rule ext) (simp add: flag_strings_def help_flags_def)
  have "\<not> lookupBool help_flags (ascii ''h'')" "\<not> lookupBool help_flags (ascii ''help'')"
    by (simp_all add: lookupBool_def help_flags_def bool_texts)
  moreover have "normalizeFlags [HelpFlag] ?fs = (None, ?fs)"
    by (simp add: normalizeFlags_def normalize_unset del: normalize.simps)
  ultimately show ?thesis
    unfolding command_Run_def assms(1) fs by (simp add: order parse [simplified] strings)
qed

section \<open>Applications\<close>

lemma run_plain:
  assumes "flagSet (app_Flags (app_Setup app)) = Some fs" "fs_Parse fs args = (None, fs1)"
    and "normalizeFlags (app_Flags (app_Setup app)) fs1 = (None, fs2)"
    and "fs_formal fs2 (ascii ''help'') = Some (BoolValue False)" "fs_formal fs2 (ascii ''h'') = Some (BoolValue False)"
    and "fs_formal fs2 (ascii ''version'') = Some (BoolValue False)" "fs_formal fs2 (ascii ''v'') = Some (BoolValue False)"
  shows "app_Run app (prog # args) p = dispatch (app_Setup app)
    \<lparr>ctx_Args = fs_args fs2, ctx_flags = flag_strings fs2, ctx_app_flags = flag_strings fs2\<rparr> p"
proof -
  let ?c = "\<lparr>ctx_Args = fs_args fs2, ctx_flags = flag_strings fs2, ctx_app_flags = flag_strings fs2\<rparr>"
  have "\<not> any_name ?c HelpFlag" "\<not> any_name ?c VersionFlag"
    using assms(4-7) by (simp_all add: any_name_def flag_names lookupBool_def flag_strings_def bool_texts)
  with assms(1-3) show ?thesis by (simp add: app_Run_def Let_def)
qed

text \<open>The options in front of a command: a debug level, and the configuration file of the server.\<close>

definition debug_opts :: "int option \<Rightarrow> bytes list" where
  "debug_opts lvl = (case lvl of None \<Rightarrow> [] | Some i \<Rightarrow> [ascii ''-d'', dec_int i])"

definition debug_level :: "int option \<Rightarrow> int" where
  "debug_level lvl = (case lvl of None \<Rightarrow> 0 | Some i \<Rightarrow> i)"

definition level_ok :: "int option \<Rightarrow> bool" where
  "level_ok lvl = (case lvl of None \<Rightarrow> True | Some i \<Rightarrow> - (2 ^ 63) \<le> i \<and> i < 2 ^ 63)"

definition config_opts :: "bytes option \<Rightarrow> bytes list" where
  "config_opts conf = (case conf of None \<Rightarrow> [] | Some file \<Rightarrow> [ascii ''-c'', file])"

lemma debug_level_None [simp]: "debug_level None = 0"
  by (simp add: debug_level_def)

lemma level_read: "level_ok lvl \<Longrightarrow> ParseInt (dec_int (debug_level lvl)) = Some (debug_level lvl)"
  by (cases lvl) (auto simp: level_ok_def debug_level_def intro!: ParseInt_dec_int)

abbreviation base_flags :: "bytes \<rightharpoonup> flag_value" where
  "base_flags \<equiv>
     [ascii ''help'' \<mapsto> BoolValue False, ascii ''h'' \<mapsto> BoolValue False,
      ascii ''version'' \<mapsto> BoolValue False, ascii ''v'' \<mapsto> BoolValue False]"

definition app_flags :: "int \<Rightarrow> bytes \<rightharpoonup> flag_value" where
  "app_flags i = base_flags(ascii ''debug'' \<mapsto> IntValue i, ascii ''d'' \<mapsto> IntValue i)"

definition conode_flags :: "int \<Rightarrow> bytes \<Rightarrow> bytes \<rightharpoonup> flag_value" where
  "conode_flags i file = (app_flags i)(ascii ''config'' \<mapsto> StringValue file, ascii ''c'' \<mapsto> StringValue file)"

lemma flag_defaults:
  "flag_default debug_flag = IntValue 0" "flag_default HelpFlag = BoolValue False"
  "flag_default VersionFlag = BoolValue False"
  by (simp_all add: debug_flag_def HelpFlag_def VersionFlag_def)

lemma VersionFlag_other [simp]: "VersionFlag \<noteq> HelpFlag"
  using flag_names(2,3) by (auto simp: name_bytes)

lemma app_Setup_flags:
  "app_Command app (ascii ''help'') = None \<Longrightarrow> HelpFlag \<notin> set (app_Flags app) \<Longrightarrow> VersionFlag \<notin> set (app_Flags app) \<Longrightarrow>
   app_Flags (app_Setup app) = app_Flags app @ [HelpFlag, VersionFlag]"
  "app_Command app (ascii ''help'') = None \<Longrightarrow> app_Commands (app_Setup app) = app_Commands app @ [helpCommand]"
  "app_Before (app_Setup app) = app_Before app"
  "app_Action (app_Setup app) = app_Action app"
  by (auto simp: app_Setup_def appendFlag_def Let_def)

lemma omniledger_flags:
  "app_Flags (app_Setup (omniledger_app f)) = [debug_flag, HelpFlag, VersionFlag]"
  by (subst app_Setup_flags(1))
    (auto simp: omniledger_app_def app_Command_def HasName_def name_bytes debug_flag_def HelpFlag_def VersionFlag_def)

lemma omniledger_flagSet:
  "flagSet (app_Flags (app_Setup (omniledger_app f))) =
     Some \<lparr>fs_formal = app_flags 0, fs_actual = [], fs_args = []\<rparr>"
  by (simp add: omniledger_flags flagSet_def flag_names flag_defaults app_flags_def name_bytes fun_eq_iff)

lemma parse_debug:
  assumes "F (ascii ''d'') = Some (IntValue 0)" "level_ok lvl"
  shows "parse_loop \<lparr>fs_formal = F, fs_actual = A, fs_args = debug_opts lvl @ others\<rparr> =
    parse_loop \<lparr>fs_formal = F(ascii ''d'' \<mapsto> IntValue (debug_level lvl)),
      fs_actual = (if lvl = None then A else ascii ''d'' # A), fs_args = others\<rparr>"
proof (cases lvl)
  case None
  with assms(1) show ?thesis by (simp add: debug_opts_def debug_level_def map_upd_triv)
next
  case (Some i)
  with assms level_read [of lvl] show ?thesis
    by (subst parse_loop_option [where b = "0x64" and v = "dec_int i" and rest = others
          and old = "IntValue 0" and new = "IntValue i"])
      (simp_all add: debug_opts_def debug_level_def name_bytes is_BoolValue_def)
qed

lemma parse_config:
  assumes "F (ascii ''c'') = Some (StringValue dflt)"
  shows "parse_loop \<lparr>fs_formal = F, fs_actual = A, fs_args = config_opts conf @ others\<rparr> =
    parse_loop \<lparr>fs_formal = F(ascii ''c'' \<mapsto> StringValue (case conf of None \<Rightarrow> dflt | Some file \<Rightarrow> file)),
      fs_actual = (if conf = None then A else ascii ''c'' # A), fs_args = others\<rparr>"
proof (cases conf)
  case None
  with assms show ?thesis by (simp add: config_opts_def map_upd_triv)
next
  case (Some f)
  with assms show ?thesis
    by (subst parse_loop_option [where b = "0x63" and v = f and rest = others
          and old = "StringValue dflt" and new = "StringValue f"])
      (simp_all add: config_opts_def name_bytes is_BoolValue_def)
qed

text \<open>Evening out the names copies the value of the short name, if it was given, to the long one.\<close>

lemma even_out:
  assumes "eachName (GetName f) = [long, short]" "long \<notin> set A" "long \<noteq> short"
    and "F long = Some old" "F short = Some new" "short \<notin> set A \<Longrightarrow> old = new"
    and "value_Set old (value_String new) = Some new"
  shows "\<exists>A'. normalize A (f # flags) \<lparr>fs_formal = F, fs_actual = A0, fs_args = args\<rparr> =
    normalize A flags \<lparr>fs_formal = F(long \<mapsto> new), fs_actual = A', fs_args = args\<rparr>"
proof (cases "short \<in> set A")
  case True
  with assms show ?thesis by (intro exI [of _ "long # A0"]) (simp add: copyFlag_def fs_Set_def)
next
  case False
  with assms(6) have "old = new" by blast
  with False assms show ?thesis by (intro exI [of _ A0]) (simp add: map_upd_triv)
qed

lemma help_unset:
  assumes "set A \<subseteq> {ascii ''d'', ascii ''c''}"
  shows "normalize A [HelpFlag, VersionFlag] fs = (None, fs)"
proof -
  have "n \<notin> set A" if "n \<in> {ascii ''help'', ascii ''h'', ascii ''version'', ascii ''v''}" for n
    using assms that by (auto simp: name_bytes)
  then show ?thesis by (simp add: flag_names)
qed

lemma omniledger_parse:
  assumes "rest = [] \<or> \<not> is_flag_arg (hd rest)" "level_ok lvl"
  shows "app_Run (omniledger_app f) (prog # debug_opts lvl @ rest) p = dispatch (app_Setup (omniledger_app f))
    \<lparr>ctx_Args = rest, ctx_flags = map_option value_String \<circ> app_flags (debug_level lvl),
     ctx_app_flags = map_option value_String \<circ> app_flags (debug_level lvl)\<rparr> p"
proof -
  let ?A = "if lvl = None then [] else [ascii ''d'']"
  let ?F = "(app_flags 0)(ascii ''d'' \<mapsto> IntValue (debug_level lvl))"
  have d: "app_flags 0 (ascii ''d'') = Some (IntValue 0)" "app_flags 0 (ascii ''debug'') = Some (IntValue 0)"
    by (simp_all add: app_flags_def name_bytes)
  have parse: "fs_Parse \<lparr>fs_formal = app_flags 0, fs_actual = [], fs_args = []\<rparr> (debug_opts lvl @ rest) =
      (None, \<lparr>fs_formal = ?F, fs_actual = ?A, fs_args = rest\<rparr>)"
    using parse_debug [where F = "app_flags 0", OF d(1) assms(2)] assms(1) by (simp add: fs_Parse_def parse_loop_stop)
  have "\<exists>A'. normalize ?A [debug_flag, HelpFlag, VersionFlag] \<lparr>fs_formal = ?F, fs_actual = ?A, fs_args = rest\<rparr> =
      normalize ?A [HelpFlag, VersionFlag]
        \<lparr>fs_formal = ?F(ascii ''debug'' \<mapsto> IntValue (debug_level lvl)), fs_actual = A', fs_args = rest\<rparr>"
    by (rule even_out [OF flag_names(1), where old = "IntValue 0"])
      (use d assms(2) in \<open>auto simp: name_bytes level_read split: if_splits\<close>)
  moreover have "?F(ascii ''debug'' \<mapsto> IntValue (debug_level lvl)) = app_flags (debug_level lvl)"
    by (simp add: app_flags_def name_bytes fun_eq_iff)
  moreover have "set ?A \<subseteq> {ascii ''d'', ascii ''c''}" by simp
  ultimately obtain A' where norm: "normalizeFlags [debug_flag, HelpFlag, VersionFlag]
      \<lparr>fs_formal = ?F, fs_actual = ?A, fs_args = rest\<rparr> =
      (None, \<lparr>fs_formal = app_flags (debug_level lvl), fs_actual = A', fs_args = rest\<rparr>)"
    using help_unset [of ?A] by (auto simp: normalizeFlags_def simp del: normalize.simps)
  show ?thesis
    by (subst run_plain [OF omniledger_flagSet parse norm [folded omniledger_flags [of f]]])
      (simp_all add: app_flags_def name_bytes flag_strings_def [abs_def] comp_def)
qed


section \<open>The server\<close>

definition conode_config :: "(bytes \<Rightarrow> bytes) \<Rightarrow> bytes option \<Rightarrow> bytes" where
  "conode_config GetConfigPath conf =
     (case conf of
        None \<Rightarrow> path_Join (GetConfigPath (ascii ''omniledger'')) (ascii ''config.bin'')
      | Some file \<Rightarrow> file)"

definition config_flag :: "(bytes \<Rightarrow> bytes) \<Rightarrow> cli_flag" where
  "config_flag GetConfigPath =
     StringFlag (ascii ''config, c'') (conode_config GetConfigPath None) (ascii ''Configuration file of the server'')"

lemma conode_app_flags:
  "app_Flags (app_Setup (conode_app interactive run_server GetConfigPath)) =
     [debug_flag, config_flag GetConfigPath, HelpFlag, VersionFlag]"
  by (subst app_Setup_flags(1))
    (auto simp: conode_app_def conode_config_def config_flag_def app_Command_def HasName_def name_bytes debug_flag_def
      HelpFlag_def VersionFlag_def)

lemma config_flag_facts:
  "eachName (GetName (config_flag GetConfigPath)) = [ascii ''config'', ascii ''c'']"
  "flag_default (config_flag GetConfigPath) = StringValue (conode_config GetConfigPath None)"
  by (simp_all add: config_flag_def flag_names)

lemma conode_flagSet:
  "flagSet (app_Flags (app_Setup (conode_app interactive run_server GetConfigPath))) =
     Some \<lparr>fs_formal = conode_flags 0 (conode_config GetConfigPath None), fs_actual = [], fs_args = []\<rparr>"
  by (simp add: conode_app_flags flagSet_def flag_names config_flag_facts flag_defaults conode_flags_def app_flags_def
      name_bytes fun_eq_iff)

lemma conode_parse:
  fixes p :: "('w, 'o) process" and GetConfigPath :: "bytes \<Rightarrow> bytes" and conf :: "bytes option"
  assumes "rest = [] \<or> \<not> is_flag_arg (hd rest)" "level_ok lvl"
  defines "flags \<equiv> map_option value_String \<circ> conode_flags (debug_level lvl) (conode_config GetConfigPath conf)"
  shows "app_Run (conode_app interactive run_server GetConfigPath) (prog # debug_opts lvl @ config_opts conf @ rest) p =
    dispatch (app_Setup (conode_app interactive run_server GetConfigPath))
      \<lparr>ctx_Args = rest, ctx_flags = flags, ctx_app_flags = flags\<rparr> p"
proof -
  let ?D = "if lvl = None then [] else [ascii ''d'']"
  let ?A = "if conf = None then ?D else ascii ''c'' # ?D"
  let ?S = "conode_flags 0 (conode_config GetConfigPath None)"
  let ?T = "?S(ascii ''d'' \<mapsto> IntValue (debug_level lvl))"
  let ?F = "?T(ascii ''c'' \<mapsto> StringValue (conode_config GetConfigPath conf))"
  let ?G = "?F(ascii ''debug'' \<mapsto> IntValue (debug_level lvl))"
  have d: "?S (ascii ''d'') = Some (IntValue 0)"
    "?T (ascii ''c'') = Some (StringValue (conode_config GetConfigPath None))"
    by (simp_all add: conode_flags_def app_flags_def name_bytes)
  have conf: "(case conf of None \<Rightarrow> conode_config GetConfigPath None | Some file \<Rightarrow> file) =
      conode_config GetConfigPath conf"
    by (simp add: conode_config_def split: option.split)
  have parse: "fs_Parse \<lparr>fs_formal = ?S, fs_actual = [], fs_args = []\<rparr> (debug_opts lvl @ config_opts conf @ rest) =
      (None, \<lparr>fs_formal = ?F, fs_actual = ?A, fs_args = rest\<rparr>)"
    using parse_debug [where F = ?S and A = "[]" and others = "config_opts conf @ rest", OF d(1) assms(2)]
      parse_config [where F = ?T and A = ?D and others = rest and conf = conf, OF d(2)] assms(1)
    by (simp add: fs_Parse_def parse_loop_stop conf)
  have "\<exists>A'. normalize ?A [debug_flag, config_flag GetConfigPath, HelpFlag, VersionFlag]
        \<lparr>fs_formal = ?F, fs_actual = ?A, fs_args = rest\<rparr> =
      normalize ?A [config_flag GetConfigPath, HelpFlag, VersionFlag] \<lparr>fs_formal = ?G, fs_actual = A', fs_args = rest\<rparr>"
    by (rule even_out [OF flag_names(1), where old = "IntValue 0"])
      (use assms(2) in \<open>auto simp: conode_flags_def app_flags_def name_bytes level_read split: if_splits\<close>)
  moreover have "\<exists>A''. normalize ?A [config_flag GetConfigPath, HelpFlag, VersionFlag]
        \<lparr>fs_formal = ?G, fs_actual = A', fs_args = rest\<rparr> =
      normalize ?A [HelpFlag, VersionFlag]
        \<lparr>fs_formal = ?G(ascii ''config'' \<mapsto> StringValue (conode_config GetConfigPath conf)), fs_actual = A'', fs_args = rest\<rparr>"
    for A'
    by (rule even_out [OF config_flag_facts(1), where old = "StringValue (conode_config GetConfigPath None)"])
      (auto simp: conode_flags_def app_flags_def name_bytes split: if_splits)
  moreover have "?G(ascii ''config'' \<mapsto> StringValue (conode_config GetConfigPath conf)) =
      conode_flags (debug_level lvl) (conode_config GetConfigPath conf)"
    by (simp add: conode_flags_def app_flags_def name_bytes fun_eq_iff)
  moreover have "set ?A \<subseteq> {ascii ''d'', ascii ''c''}" by auto
  ultimately obtain A' where norm: "normalizeFlags [debug_flag, config_flag GetConfigPath, HelpFlag, VersionFlag]
      \<lparr>fs_formal = ?F, fs_actual = ?A, fs_args = rest\<rparr> =
      (None, \<lparr>fs_formal = conode_flags (debug_level lvl) (conode_config GetConfigPath conf), fs_actual = A', fs_args = rest\<rparr>)"
    using help_unset [of ?A] unfolding normalizeFlags_def by (metis flag_set.select_convs(2))
  let ?app = "conode_app interactive run_server GetConfigPath :: (cli_error, ('w, 'o) process) cli_app"
  have norm': "normalizeFlags (app_Flags (app_Setup ?app)) \<lparr>fs_formal = ?F, fs_actual = ?A, fs_args = rest\<rparr> =
      (None, \<lparr>fs_formal = conode_flags (debug_level lvl) (conode_config GetConfigPath conf), fs_actual = A', fs_args = rest\<rparr>)"
    using norm by (simp only: conode_app_flags)
  show ?thesis unfolding flags_def
    by (subst run_plain [OF conode_flagSet parse norm'])
      (simp_all add: conode_flags_def app_flags_def name_bytes flag_strings_def [abs_def] comp_def)
qed

section \<open>What the commands do\<close>

lemma dispatch_action:
  assumes "app_Before a = set_debug" "app_Command a name = Some cmd" "\<forall>arg\<in>set (name # args). \<not> is_flag_arg arg"
    and "fl (ascii ''debug'') = Some (dec_int (debug_level lvl))" "level_ok lvl"
  shows "dispatch a \<lparr>ctx_Args = name # args, ctx_flags = fl, ctx_app_flags = fl\<rparr> p =
    then_do (HandleAction a (cmd_Action cmd)
        \<lparr>ctx_Args = args, ctx_flags = help_flags, ctx_app_flags = fl\<rparr> (p\<lparr>pr_debug := debug_level lvl\<rparr>))
      (\<lambda>(err, p'). HandleExitCoder err (Returns (err, p')))"
  using assms command_plain [of "\<lparr>ctx_Args = name # args, ctx_flags = fl, ctx_app_flags = fl\<rparr>" name args a cmd]
  by (simp add: dispatch_def set_debug_def ctx_Int_def level_read)

lemma command_tables:
  "app_Commands (app_Setup (omniledger_app f)) = app_Commands (omniledger_app f) @ [helpCommand]"
  "app_Commands (app_Setup (conode_app interactive run_server GetConfigPath)) =
     app_Commands (conode_app interactive run_server GetConfigPath) @ [helpCommand]"
  by (rule app_Setup_flags(2); simp add: app_Command_def omniledger_app_def conode_app_def HasName_def name_bytes)+

lemma create_command:
  "cmd \<in> {ascii ''create'', ascii ''c''} \<Longrightarrow>
   \<exists>c. app_Command (app_Setup (omniledger_app f)) cmd = Some c \<and> cmd_Action c = ActionFunc f"
  unfolding app_Command_def command_tables by (auto simp: omniledger_app_def HasName_def)

lemma conode_commands:
  "cmd \<in> {ascii ''setup'', ascii ''s''} \<Longrightarrow>
   \<exists>c. app_Command (app_Setup (conode_app interactive run_server GetConfigPath)) cmd = Some c \<and>
     cmd_Action c = ActionFunc (\<lambda>c p. then_do (perform interactive run_server (setup_action c) (pr_world p))
       (\<lambda>w. Returns (None, p\<lparr>pr_world := w\<rparr>)))"
  "\<exists>c. app_Command (app_Setup (conode_app interactive run_server GetConfigPath)) (ascii ''server'') = Some c \<and>
     cmd_Action c = LegacyFunc (\<lambda>c p. then_do (perform interactive run_server (runServer c) (pr_world p))
       (\<lambda>w. Returns (p\<lparr>pr_world := w\<rparr>)))"
  unfolding app_Command_def command_tables by (auto simp: conode_app_def HasName_def name_bytes)

lemma before_set_debug:
  "app_Before (app_Setup (omniledger_app f)) = set_debug"
  "app_Before (app_Setup (conode_app interactive run_server GetConfigPath)) = set_debug"
  by (simp_all add: app_Setup_flags(3) omniledger_app_def conode_app_def)

lemma then_do_assoc: "then_do (then_do r f) g = then_do r (\<lambda>x. then_do (f x) g)"
  by (cases r) simp_all

lemma then_do_Returns: "then_do r Returns = r"
  by (cases r) simp_all

lemma words_plain:
  "\<not> is_flag_arg (ascii ''create'')" "\<not> is_flag_arg (ascii ''c'')"
  "\<not> is_flag_arg (ascii ''setup'')" "\<not> is_flag_arg (ascii ''s'')" "\<not> is_flag_arg (ascii ''server'')"
  by (simp_all add: is_flag_arg_def name_bytes)

lemma debug_text:
  "(map_option value_String \<circ> app_flags i) (ascii ''debug'') = Some (dec_int i)"
  "(map_option value_String \<circ> conode_flags i file) (ascii ''debug'') = Some (dec_int i)"
  "(map_option value_String \<circ> conode_flags i file) (ascii ''config'') = Some file"
  by (simp_all add: app_flags_def conode_flags_def name_bytes)

text \<open>
  \<open>create\<close>, under either of its names and with any debug level in front, gets the arguments behind it; its
  error ends the process with code 1.
\<close>

theorem app_runs_create:
  assumes "level_ok lvl" "cmd \<in> {ascii ''create'', ascii ''c''}" "\<forall>arg\<in>set args. \<not> is_flag_arg arg"
  shows "main_app cr kp open_file ReadGroupDescToml send (prog # debug_opts lvl @ cmd # args) p =
    then_do (create cr kp open_file ReadGroupDescToml send
        \<lparr>ctx_Args = args, ctx_flags = help_flags,
         ctx_app_flags = map_option value_String \<circ> app_flags (debug_level lvl)\<rparr> (pr_world p))
      (\<lambda>(res, w). case res of
          Inl err \<Rightarrow> Exits 1
        | Inr out \<Rightarrow> Returns (print_shown [Logged out] (p\<lparr>pr_world := w, pr_debug := debug_level lvl\<rparr>)))"
proof -
  let ?f = "create_action cr kp open_file ReadGroupDescToml send"
  let ?a = "app_Setup (omniledger_app ?f)"
  let ?fl = "map_option value_String \<circ> app_flags (debug_level lvl)"
  obtain c where c: "app_Command ?a cmd = Some c" "cmd_Action c = ActionFunc ?f"
    using create_command [OF assms(2)] by blast
  have plain: "\<forall>arg\<in>set (cmd # args). \<not> is_flag_arg arg" using assms(2,3) words_plain by auto
  then have "cmd # args = [] \<or> \<not> is_flag_arg (hd (cmd # args))" by simp
  note run = omniledger_parse [OF this assms(1)] dispatch_action [where lvl = lvl
      and fl = "map_option value_String \<circ> app_flags (debug_level lvl)", OF before_set_debug(1) c(1) plain debug_text(1) assms(1)]
  show ?thesis unfolding main_app_def run c(2)
    by (auto simp: HandleAction_def main_end_def create_action_def then_do_assoc HandleExitCoder_def ErrFatal_def
        print_shown_def intro!: arg_cong [where f = "then_do _"] split: sum.split)
qed

text \<open>How a wrong command line ends: with code 1 for a wrong number of arguments or an unknown flag, and
  with code 3 for an unknown command, which is taken for a help topic.\<close>

theorem create_needs_one_argument:
  assumes "level_ok lvl" "cmd \<in> {ascii ''create'', ascii ''c''}" "\<forall>arg\<in>set args. \<not> is_flag_arg arg" "length args \<noteq> 1"
  shows "main_app cr kp open_file ReadGroupDescToml send (prog # debug_opts lvl @ cmd # args) p = Exits 1"
  using assms(4) by (simp add: app_runs_create [OF assms(1-3)] create_def)

theorem unknown_command_exits:
  assumes "level_ok lvl" "\<not> is_flag_arg name" "name \<noteq> []"
    and "name \<notin> {ascii ''create'', ascii ''c'', ascii ''help'', ascii ''h''}"
  shows "main_app cr kp open_file ReadGroupDescToml send (prog # debug_opts lvl @ name # args) p = Exits 3"
proof -
  let ?f = "create_action cr kp open_file ReadGroupDescToml send"
  have none: "app_Command (app_Setup (omniledger_app ?f)) name = None"
    unfolding app_Command_def command_tables using assms(4)
    by (auto simp: omniledger_app_def helpCommand_def HasName_def)
  have action: "app_Action (app_Setup (omniledger_app ?f)) = HelpAction"
    by (simp add: app_Setup_flags(4)) (simp add: omniledger_app_def)
  have "name # args = [] \<or> \<not> is_flag_arg (hd (name # args))" using assms(2) by simp
  note run = omniledger_parse [OF this assms(1)]
  show ?thesis unfolding main_app_def run
    by (simp add: dispatch_def before_set_debug set_debug_def none action HandleAction_def ShowCommandHelp_def assms(3)
        HandleExitCoder_def main_end_def)
qed

theorem unknown_flag_exits:
  assumes "b \<noteq> 0x2d" "b \<noteq> 0x3d" "[b] \<notin> {ascii ''d'', ascii ''h'', ascii ''v''}"
  shows "main_app cr kp open_file ReadGroupDescToml send (prog # [0x2d, b] # args) p = Exits 1"
proof -
  let ?fs = "\<lparr>fs_formal = app_flags 0, fs_actual = [], fs_args = args\<rparr>"
  have "app_flags 0 [b] = None" using assms(3) by (simp add: app_flags_def name_bytes)
  with assms have "parseOne (?fs\<lparr>fs_args := [0x2d, b] # args\<rparr>) = (Inl (FlagNotDefined [b]), ?fs)"
    by (simp add: parseOne_def cut_value_def apply_flag_def name_bytes)
  then have "fs_Parse \<lparr>fs_formal = app_flags 0, fs_actual = [], fs_args = []\<rparr> ([0x2d, b] # args) =
      (Some (FlagNotDefined [b]), ?fs)"
    by (subst fs_Parse_def, subst parse_loop.simps) simp
  moreover have "normalizeFlags flags ?fs = (None, ?fs)" for flags
    by (simp add: normalizeFlags_def normalize_unset del: normalize.simps)
  ultimately show ?thesis
    by (simp add: main_app_def app_Run_def omniledger_flagSet Let_def main_end_def ErrFatal_def)
qed

text \<open>\<open>server\<close> starts the server with the given configuration file, or the default one.\<close>

theorem conode_runs_server:
  fixes p :: "('w, 'o) process"
  assumes "level_ok lvl"
  shows "main_conode interactive run_server GetConfigPath
      (prog # debug_opts lvl @ config_opts conf @ [ascii ''server'']) p =
    then_do (run_server (conode_config GetConfigPath conf) (pr_world p))
      (\<lambda>w. Returns (p\<lparr>pr_debug := debug_level lvl, pr_world := w\<rparr>))"
proof -
  let ?a = "app_Setup (conode_app interactive run_server GetConfigPath :: (cli_error, ('w, 'o) process) cli_app)"
  obtain c where c: "app_Command ?a (ascii ''server'') = Some c"
    "cmd_Action c = LegacyFunc (\<lambda>c p. then_do (perform interactive run_server (runServer c) (pr_world p))
       (\<lambda>w. Returns (p\<lparr>pr_world := w\<rparr>)))"
    using conode_commands(2) by blast
  have plain: "\<forall>arg\<in>set [ascii ''server'']. \<not> is_flag_arg arg" by (simp add: words_plain)
  then have "[ascii ''server''] = [] \<or> \<not> is_flag_arg (hd [ascii ''server''])" by simp
  note run = conode_parse [OF this assms] dispatch_action [where lvl = lvl
      and fl = "map_option value_String \<circ> conode_flags (debug_level lvl) (conode_config GetConfigPath conf)",
      OF before_set_debug(2) c(1) plain debug_text(2) assms]
  show ?thesis unfolding main_conode_def run c(2)
    by (simp add: HandleAction_def main_end_def then_do_assoc HandleExitCoder_def ErrFatal_def runServer_def
        perform_def ctx_GlobalString_def debug_text(3) del: comp_apply)
qed

text \<open>
  \<open>setup\<close> asks for a configuration also when it is given a configuration file or a debug level, which its
  action means to refuse.
\<close>

theorem conode_setup_never_refuses:
  fixes p :: "('w, 'o) process"
  assumes "level_ok lvl" "cmd \<in> {ascii ''setup'', ascii ''s''}"
  shows "main_conode interactive run_server GetConfigPath (prog # debug_opts lvl @ config_opts conf @ [cmd]) p =
    then_do (interactive (pr_world p)) (\<lambda>w. Returns (p\<lparr>pr_debug := debug_level lvl, pr_world := w\<rparr>))"
proof -
  let ?a = "app_Setup (conode_app interactive run_server GetConfigPath :: (cli_error, ('w, 'o) process) cli_app)"
  obtain c where c: "app_Command ?a cmd = Some c"
    "cmd_Action c = ActionFunc (\<lambda>c p. then_do (perform interactive run_server (setup_action c) (pr_world p))
       (\<lambda>w. Returns (None, p\<lparr>pr_world := w\<rparr>)))"
    using conode_commands(1) [OF assms(2)] by blast
  have plain: "\<forall>arg\<in>set [cmd]. \<not> is_flag_arg arg" using assms(2) words_plain by auto
  then have "[cmd] = [] \<or> \<not> is_flag_arg (hd [cmd])" by simp
  note run = conode_parse [OF this assms(1)] dispatch_action [where lvl = lvl
      and fl = "map_option value_String \<circ> conode_flags (debug_level lvl) (conode_config GetConfigPath conf)",
      OF before_set_debug(2) c(1) plain debug_text(2) assms(1)]
  have "dom help_flags = {ascii ''h'', ascii ''help''}" by (simp add: help_flags_def)
  then have "setup_action \<lparr>ctx_Args = [], ctx_flags = help_flags, ctx_app_flags = fl\<rparr> = InteractiveConfig" for fl
    by (simp add: setup_action_def ctx_String_def help_flags_def name_bytes)
  then show ?thesis unfolding main_conode_def run c(2)
    by (simp add: HandleAction_def main_end_def then_do_assoc HandleExitCoder_def ErrFatal_def perform_def)
qed

text \<open>Without a command the binary shows its help; it does not start a server.\<close>

theorem conode_alone_shows_help:
  fixes p :: "('w, 'o) process"
  assumes "level_ok lvl"
  shows "main_conode interactive run_server GetConfigPath (prog # debug_opts lvl @ config_opts conf) p =
    Returns (print_shown [AppHelp] (p\<lparr>pr_debug := debug_level lvl\<rparr>))"
proof -
  have action: "app_Action (app_Setup (conode_app interactive run_server GetConfigPath :: (cli_error, ('w, 'o) process) cli_app)) = HelpAction"
    by (simp add: app_Setup_flags(4)) (simp add: conode_app_def)
  have "[] = [] \<or> \<not> is_flag_arg (hd [])" by simp
  note run = conode_parse [OF this assms, of interactive run_server GetConfigPath prog conf p, unfolded append_Nil2]
  show ?thesis unfolding main_conode_def run
    by (simp add: dispatch_def before_set_debug action set_debug_def ctx_Int_def debug_text(2) [unfolded comp_def]
        level_read [OF assms] HandleAction_def HandleExitCoder_def main_end_def ErrFatal_def)
qed

end
