(* ===== verification/LaterBlocks.thy ===== *)
theory LaterBlocks
  imports StateChanges Reachable Ordering
begin

text \<open>
  What is in a block that \<open>createNewBlock\<close> makes after the genesis block: how the transactions that were
  proposed, those that pass the verification, those in their sorted order and those that are accepted
  follow from each other, and which of them the header of the stored block is made of.
\<close>

lemma subseq_mset: "subseq xs ys \<Longrightarrow> mset xs \<subseteq># mset ys"
  by (induction rule: list_emb.induct) (auto intro: subset_mset.trans)

lemma getCollection_frame:
  "getCollection env s scID = Some (c, s') \<Longrightarrow> contracts s' = contracts s \<and> skipdb s' = skipdb s"
  by (auto simp: getCollection_def Let_def elim!: bind_SomeE split: option.split_asm)

text \<open>The proposed transactions are those that pass.\<close>

lemma prepare_block_later:
  assumes "scID \<noteq> []" "GetLatest env (skipdb s) (GetByID env (skipdb s) scID) = Inr sb"
    and "getCollection env s (SkipChainID sb) = Some (c, s1)"
    and "\<forall>t \<in> set cts. \<forall>i \<in> set t. verdict env c i \<noteq> None" "[] \<notin> set cts"
  shows "prepare_block env s scID r cts =
    (if filter (passes env c) cts = [] then Some (Inl NoValidTransaction, if cts = [] then s else s1)
     else do {
       (cdb, s2) \<leftarrow> getCollection env s1 scID;
       Some (Inr (if r \<noteq> None then sb\<lparr>sb_Roster := r\<rparr> else sb, cdb_coll cdb, filter (passes env c) cts), s2)
     })"
proof -
  have "(\<forall>t \<in> set cts. t = []) \<longleftrightarrow> cts = []" using assms(5) by (cases cts) auto
  then show ?thesis
    using assms(1-3) verifyAndFilterTxs_filter [OF assms(3,4)]
    by (auto simp: prepare_block_def SkipChainID_def Let_def del: verifyAndFilterTxs.simps)
qed

lemma createNewBlock_later:
  assumes made: "createNewBlock env s now scID r cts = Some (Inr latest, s')"
    and later: "scID \<noteq> []" "GetLatest env (skipdb s) (GetByID env (skipdb s) scID) = Inr sb"
      "getCollection env s (SkipChainID sb) = Some (c, s1)"
      "\<forall>t \<in> set cts. \<forall>i \<in> set t. verdict env c i \<noteq> None" "[] \<notin> set cts"
  obtains sorted cdb s2 mr ctsOK scs buf where
    "sortTransactions (env_sha env) (marshal_tx env) (unmarshal_tx env) (filter (passes env c) cts) = Inr sorted"
    "getCollection env s1 scID = Some (cdb, s2)"
    "createStateChanges (env_sha env) (contracts s) (cdb_coll cdb) sorted = Some (mr, ctsOK, scs)"
    "marshal_header env
       \<lparr>CollectionRoot = mr, ClientTransactionHash = cts_Hash (env_sha env) ctsOK,
        StateChangesHash = scs_Hash (env_sha env) (encode_change env) scs, Timestamp = now\<rparr> = Inr buf"
    "StoreSkipBlock env (skipdb s) ((if r \<noteq> None then sb\<lparr>sb_Roster := r\<rparr> else sb)\<lparr>sb_Data := buf\<rparr>) scID =
       (Inr latest, skipdb s')"
proof -
  define nb where "nb = (if r \<noteq> None then sb\<lparr>sb_Roster := r\<rparr> else sb)"
  let ?passed = "filter (passes env c) cts"
  note prep = prepare_block_later [OF later, of r, folded nb_def]
  have some: "?passed \<noteq> []" using made by (auto simp: createNewBlock_def prep)
  with made obtain cdb s2 where cdb: "getCollection env s1 scID = Some (cdb, s2)"
    by (auto simp: createNewBlock_def prep elim!: bind_SomeE)
  have "contracts s2 = contracts s" "skipdb s2 = skipdb s"
    using getCollection_frame [OF cdb] getCollection_frame [OF later(3)] by simp_all
  with made some cdb obtain sorted where
    sorted: "sortTransactions (env_sha env) (marshal_tx env) (unmarshal_tx env) ?passed = Inr sorted"
    by (auto simp: createNewBlock_def prep split: sum.split_asm)
  with made some cdb \<open>contracts s2 = contracts s\<close> obtain mr ctsOK scs where
    changes: "createStateChanges (env_sha env) (contracts s) (cdb_coll cdb) sorted = Some (mr, ctsOK, scs)"
    by (auto simp: createNewBlock_def prep elim!: bind_SomeE)
  let ?header = "\<lparr>CollectionRoot = mr, ClientTransactionHash = cts_Hash (env_sha env) ctsOK,
        StateChangesHash = scs_Hash (env_sha env) (encode_change env) scs, Timestamp = now\<rparr>"
  have m: "(case marshal_header env ?header of
      Inl err \<Rightarrow> (Inl MarshalError, s2)
    | Inr buf \<Rightarrow> (let (reply, db') = StoreSkipBlock env (skipdb s2) (nb\<lparr>sb_Data := buf\<rparr>) scID
                 in (reply, s2\<lparr>skipdb := db'\<rparr>))) = (Inr latest, s')"
    using made some cdb sorted changes \<open>contracts s2 = contracts s\<close>
    by (simp add: createNewBlock_def prep Let_def)
  then obtain buf where buf: "marshal_header env ?header = Inr buf" by (cases "marshal_header env ?header") simp_all
  with m have "StoreSkipBlock env (skipdb s) (nb\<lparr>sb_Data := buf\<rparr>) scID = (Inr latest, skipdb s')"
    using \<open>skipdb s2 = skipdb s\<close> by (auto simp: case_prod_beta Let_def prod_eq_iff)
  with that sorted cdb changes buf show thesis by (simp only: nb_def)
qed

end
