(* ===== verification/ServiceProps.thy ===== *)
theory ServiceProps
  imports CommandsCorrect DarcProps LaterBlocks
begin

text \<open>The properties of the service.\<close>

section \<open>The inputs of the witnesses\<close>

text \<open>A hash function that also tells keys of up to 96 bytes apart.\<close>

definition fold_sha :: "bytes \<Rightarrow> bytes" where
  "fold_sha x = map2 (+) (demo_sha x) (map2 (+) (demo_sha (drop 32 x)) (demo_sha (drop 64 x)))"

definition svc_darc :: "byte darc" where
  "svc_darc = NewDarc (AList.update (ascii ''Spawn_x'') (ascii ''ed25519:07'') (Rules demo_darc)) [1]"

definition svc_id :: bytes where "svc_id = GetID fold_sha svc_darc"

definition svc_interval :: bytes where "svc_interval = the (PutVarint (replicate 8 0) defaultInterval)"

definition svc_block :: "byte list skipblock" where
  "svc_block = NewSkipBlock\<lparr>sb_Hash := [1], sb_Roster := Some [7]\<rparr>"

definition svc_env :: "(byte, byte, unit, byte list, bool) env" where
  "svc_env = \<lparr>env_crypto = demo_crypto, env_sha = fold_sha, decode_darc = (\<lambda>b. Inr svc_darc),
     encode_darc = (\<lambda>d. Inr [9]), encode_config = (\<lambda>c. Inr [8]),
     decode_config = (\<lambda>b. Inr \<lparr>BlockInterval = defaultInterval\<rparr>), encode_change = (\<lambda>c. Some []),
     marshal_tx = (\<lambda>t. Inr [0]), unmarshal_tx = (\<lambda>b. Inr (genesis_tx svc_id [9] svc_interval)),
     marshal_header = (\<lambda>h. Inr (CollectionRoot h)),
     unmarshal_header = (\<lambda>b. Inr (Some \<lparr>CollectionRoot = b, ClientTransactionHash = [], StateChangesHash = [], Timestamp = 0\<rparr>)),
     GetByID = (\<lambda>d i. if i = [1] then Some svc_block else None),
     GetLatest = (\<lambda>d b. case b of None \<Rightarrow> Inl UnknownSkipchain | Some b' \<Rightarrow> Inr b'),
     StoreSkipBlock = (\<lambda>d b i. (Inr (b\<lparr>sb_Hash := [1]\<rparr>), True)),
     GetAllSkipchains = (\<lambda>d. Inr (if d then [[1]] else [])),
     Save_storage = (\<lambda>t. None)\<rparr>"

definition svc_start :: "(byte, bool) service" where
  "svc_start = \<lparr>collectionDB = Map.empty, disk = Map.empty, queueWorkers = Map.empty, queues_closed = False,
     contracts = [ContractConfigID \<mapsto> ContractConfig demo_crypto fold_sha (decode_darc svc_env) (encode_config svc_env),
                  ContractDarcID \<mapsto> ContractDarc], PropTimeout = 10000000000, stored = Inr None, skipdb = False\<rparr>"

lemma svc_env [simp]: "env_crypto svc_env = demo_crypto" "env_sha svc_env = fold_sha"
  "decode_darc svc_env b = Inr svc_darc" "encode_darc svc_env d = Inr [9]" "encode_config svc_env cfg = Inr [8]"
  "decode_config svc_env b = Inr \<lparr>BlockInterval = defaultInterval\<rparr>"
  by (simp_all add: svc_env_def)

lemma fold_hash [simp]: "hash_ok fold_sha"
  using demo_hash by (simp add: hash_ok_def fold_sha_def)

lemma svc_id: "length svc_id = 32" "svc_id \<noteq> ZeroDarc"
  by code_simp+

lemma svc_keys: "inj_on fold_sha (genesis_ids svc_id \<union> keykind ` genesis_ids svc_id)"
proof -
  let ?ks = "[ZeroDarc @ ZeroNonce, svc_id @ ZeroNonce, svc_id @ OneNonce]"
  have "distinct (map fold_sha (?ks @ map keykind ?ks))" by code_simp
  then have "inj_on fold_sha (set (?ks @ map keykind ?ks))" by (simp only: distinct_map)
  then show ?thesis by (simp add: genesis_ids_def insert_commute Un_commute)
qed

lemma svc_genesis_keys: "inj_on fold_sha (genesis_ids svc_id)"
  using svc_keys by (rule inj_on_subset) simp

text \<open>A database in which the state changes of the genesis block are stored.\<close>

definition stored_db :: "(bytes \<Rightarrow> bytes) \<Rightarrow> state_change list \<Rightarrow> collection_db" where
  "stored_db sha scs = snd (the (store_all (Store sha) (the (newCollectionDB sha None)) scs))"

lemma stored_db:
  assumes "inj_on sha K" "[] \<notin> K" "hash_ok sha" "\<forall>t \<in> set scs. storable K t" "spec_changes Map.empty scs = Inr m"
    and "bucket_keys_ok K"
  shows "db_ok sha K (stored_db sha scs)" "ledger (cdb_coll (stored_db sha scs)) = m"
proof -
  obtain c where c: "New sha [Data, Data] = Some c" "ledger_ok sha K c" "ledger c = Map.empty"
    using New_ledger [OF assms(3,1,2)] by metis
  let ?db = "\<lparr>cdb_bucket = [], cdb_coll = c\<rparr>"
  have new: "newCollectionDB sha None = Some ?db" using c(1) by (simp add: newCollectionDB_def)
  have "db_ok sha K ?db" using c assms(6) by (simp add: db_ok_def bucket_ok_def)
  from db_store.store_all_changes [OF this assms(4), of m] c(3) assms(5) new
  show "db_ok sha K (stored_db sha scs)" "ledger (cdb_coll (stored_db sha scs)) = m"
    by (auto simp: stored_db_def)
qed

definition svc_db :: collection_db where
  "svc_db = stored_db fold_sha (genesis_changes svc_id [9] [8])"

lemma svc_bucket_keys: "bucket_keys_ok (genesis_ids svc_id)"
proof -
  have len: "length k = 64" if "k \<in> genesis_ids svc_id" for k
    using that svc_id(1) by (auto simp: genesis_ids_def)
  moreover have "length k = 72" if "k \<in> keykind ` genesis_ids svc_id" for k
    using that len by (auto simp: length_keykind)
  ultimately show ?thesis by (fastforce simp: bucket_keys_ok_def)
qed

lemma svc_db: "db_ok fold_sha (genesis_ids svc_id) svc_db" "ledger (cdb_coll svc_db) = genesis_ledger svc_id [9] [8]"
proof -
  have "\<forall>t \<in> set (genesis_changes svc_id [9] [8]). storable (genesis_ids svc_id) t"
    using ids_in svc_id(1)
    by (auto simp: storable_def genesis_changes_def NewStateChange_def ContractConfigID_def ContractDarcID_def ascii_def)
  from stored_db [OF svc_genesis_keys ids_nonempty fold_hash this genesis_spec [OF svc_id(2)] svc_bucket_keys]
  show "db_ok fold_sha (genesis_ids svc_id) svc_db" "ledger (cdb_coll svc_db) = genesis_ledger svc_id [9] [8]"
    unfolding svc_db_def by blast+
qed

lemma svc_ledger_ok: "ledger_ok fold_sha (genesis_ids svc_id) (cdb_coll svc_db)"
  using svc_db(1) by (simp add: db_ok_def)

definition svc_running :: "(byte, bool) service" where
  "svc_running = svc_start\<lparr>collectionDB := [hex_string [1] \<mapsto> svc_db],
     queueWorkers := [[1] \<mapsto> createQueueWorker defaultInterval]\<rparr>"

text \<open>An instruction that spawns an instance of contract \<open>x\<close>, unsigned and signed by the owner.\<close>

definition svc_unsigned :: "byte instruction" where
  "svc_unsigned = \<lparr>in_ObjectID = \<lparr>DarcID = svc_id, InstanceID = ZeroNonce\<rparr>, in_Nonce = ZeroNonce,
     in_Index = 0, in_Length = 1, in_Spawn = Some \<lparr>sp_ContractID = [0x78], sp_Args = []\<rparr>, in_Invoke = None,
     in_Delete = False, in_Signatures = []\<rparr>"

definition svc_signed :: "byte instruction" where
  "svc_signed = (case SignBy demo_crypto fold_sha [demo_signer 7] svc_unsigned of Some (Inr i) \<Rightarrow> i)"

lemma svc_collection: "getCollection svc_env svc_running [1] = Some (svc_db, svc_running)"
  by (simp add: getCollection_def svc_running_def)

lemma svc_latest: "GetLatest svc_env d (GetByID svc_env d [1]) = Inr svc_block"
  by (simp add: svc_env_def)

lemma svc_verdict:
  assumes "in_ObjectID i = \<lparr>DarcID = svc_id, InstanceID = ZeroNonce\<rparr>"
  shows "verdict svc_env svc_db i =
    map_option (map_option DarcError) (request_Verify demo_crypto fold_sha (ToDarcRequest fold_sha i) svc_darc)"
  using GetValueContract_ledger [OF svc_ledger_ok, of "svc_id @ ZeroNonce"] svc_id(2) assms
  by (simp add: verdict_def svc_db(2) genesis_ledger_def oid_Slice_def toObjectID_def ContractDarcID_def)

lemma svc_darc_of: "in_ObjectID i = \<lparr>DarcID = svc_id, InstanceID = ZeroNonce\<rparr> \<Longrightarrow> darc_of svc_env svc_db i = Some svc_darc"
  using svc_id(2)
  by (simp add: darc_of_def svc_db(2) genesis_ledger_def darc_key_def oid_Slice_def toObjectID_def ContractDarcID_def)

section \<open>The ledger\<close>







text \<open>C13: The database on disk and in memory refine one ledger: \<open>Store\<close> of a state change the ledger
  refuses gives the error and changes nothing, and of one the ledger accepts changes the collection and
  the bucket to those of the new ledger.\<close>

theorem store_refines_ledger:
  assumes "db_ok sha K db" "storable K t"
  shows "case spec_change (ledger (cdb_coll db)) t of
      Inl e \<Rightarrow> Store sha db t = Some (Some e, db)
    | Inr m \<Rightarrow> \<exists>db'. Store sha db t = Some (None, db') \<and> db_ok sha K db' \<and> ledger (cdb_coll db') = m"
  using db_store.store_refuses [OF assms] db_store.store_changes [OF assms] by (auto split: sum.splits)

theorem store_refines_ledger_witness:
  "\<exists>db'. Store fold_sha svc_db (NewStateChange Update (toObjectID svc_id) ContractDarcID [4]) = Some (None, db') \<and>
     db_ok fold_sha (genesis_ids svc_id) db' \<and>
     ledger (cdb_coll db') = (genesis_ledger svc_id [9] [8])(svc_id @ ZeroNonce \<mapsto> ([4], ContractDarcID))"
proof -
  have "storable (genesis_ids svc_id) (NewStateChange Update (toObjectID svc_id) ContractDarcID [4])"
    by (simp add: storable_def NewStateChange_def oid_Slice_def toObjectID_def genesis_ids_def ContractDarcID_def ascii_def)
  from store_refines_ledger [OF svc_db(1) this] show ?thesis
    using svc_id(2)
    by (simp add: svc_db(2) spec_change_def NewStateChange_def oid_Slice_def toObjectID_def genesis_ledger_def Let_def)
qed

section \<open>Authorization\<close>

text \<open>An instruction is authorized when the darc it is for is in the ledger, it is signed, the darc has a
  rule for its action, all signatures are the last signer's and are valid, and the rule holds for this
  signer (who stands in for all of them).\<close>

definition authorized :: "('p, 's, 'k, 'r, 'd) env \<Rightarrow> collection_db \<Rightarrow> 'p instruction \<Rightarrow> bool" where
  "authorized env c instr \<longleftrightarrow>
    (\<exists>d. darc_of env c instr = Some d \<and> in_Signatures instr \<noteq> [] \<and>
      GetBaseID (env_sha env) d = DarcID (in_ObjectID instr) \<and>
      Contains (Rules d) (instr_Action instr) \<and>
      (\<forall>s \<in> set (in_Signatures instr). identity_Verify (env_crypto env) (last_signer instr)
        (request_Hash (env_crypto env) (env_sha env) (ToDarcRequest (env_sha env) instr)) (sig_bytes s) = Some None) \<and>
      evalExpr_nil (rule_at (Rules d) (instr_Action instr))
        (map (\<lambda>_. identity_String (env_crypto env) (last_signer instr)) (in_Signatures instr)) = Some None)"

lemma verdict_authorized:
  "ledger_ok (env_sha env) K (cdb_coll c) \<Longrightarrow> verdict env c i = Some None \<longleftrightarrow> authorized env c i"
  unfolding authorized_def by (rule accepted_instruction)

lemma svc_authorized: "authorized svc_env svc_db svc_signed"
proof -
  have "in_ObjectID svc_signed = \<lparr>DarcID = svc_id, InstanceID = ZeroNonce\<rparr>" by code_simp
  moreover have "in_Signatures svc_signed \<noteq> [] \<and>
      GetBaseID fold_sha svc_darc = DarcID (in_ObjectID svc_signed) \<and>
      Contains (Rules svc_darc) (instr_Action svc_signed) \<and>
      (\<forall>s \<in> set (in_Signatures svc_signed). identity_Verify demo_crypto (last_signer svc_signed)
        (request_Hash demo_crypto fold_sha (ToDarcRequest fold_sha svc_signed)) (sig_bytes s) = Some None) \<and>
      evalExpr_nil (rule_at (Rules svc_darc) (instr_Action svc_signed))
        (map (\<lambda>_. identity_String demo_crypto (last_signer svc_signed)) (in_Signatures svc_signed)) = Some None"
    by code_simp
  ultimately show ?thesis using svc_darc_of [of svc_signed] by (simp add: authorized_def)
qed

lemma svc_verdicts: "verdict svc_env svc_db svc_signed = Some None"
  "verdict svc_env svc_db svc_unsigned = Some (Some (DarcError NoSignatures))"
proof -
  have "in_ObjectID svc_signed = \<lparr>DarcID = svc_id, InstanceID = ZeroNonce\<rparr>"
    "in_ObjectID svc_unsigned = \<lparr>DarcID = svc_id, InstanceID = ZeroNonce\<rparr>"
    "request_Verify demo_crypto fold_sha (ToDarcRequest fold_sha svc_signed) svc_darc = Some None"
    "request_Verify demo_crypto fold_sha (ToDarcRequest fold_sha svc_unsigned) svc_darc = Some (Some NoSignatures)"
    by code_simp+
  then show "verdict svc_env svc_db svc_signed = Some None"
    "verdict svc_env svc_db svc_unsigned = Some (Some (DarcError NoSignatures))"
    by (simp_all add: svc_verdict)
qed

text \<open>C3: Every later block holds authorized transactions only: when \<open>createNewBlock\<close> makes a block after the
  genesis block, the header of the block it stores is the one of transactions \<open>ctsOK\<close> that are among the
  given ones, none more often than it was given, and of which every instruction is authorized by the
  darc it is for. They are those that \<open>createStateChanges\<close> accepts of the authorized transactions in their
  sorted order; it may drop more of them, but no transaction that is not authorized comes before it.\<close>

theorem block_authorized:
  assumes made: "createNewBlock env s now scID r cts = Some (Inr latest, s')"
    and later: "scID \<noteq> []" "GetLatest env (skipdb s) (GetByID env (skipdb s) scID) = Inr sb"
      "getCollection env s (SkipChainID sb) = Some (c, s1)"
      "\<forall>t \<in> set cts. \<forall>i \<in> set t. verdict env c i \<noteq> None" "[] \<notin> set cts"
    and ok: "ledger_ok (env_sha env) K (cdb_coll c)"
    and enc: "\<And>t. t \<in> set cts \<Longrightarrow> marshal_tx env t = Inr (enc t)"
      "\<And>t. t \<in> set cts \<Longrightarrow> unmarshal_tx env (enc t) = Inr t"
  shows "\<exists>sorted cdb s2 mr ctsOK scs buf.
    sortTransactions (env_sha env) (marshal_tx env) (unmarshal_tx env)
      (filter (\<lambda>t. \<forall>i \<in> set t. authorized env c i) cts) = Inr sorted \<and>
    getCollection env s1 scID = Some (cdb, s2) \<and>
    createStateChanges (env_sha env) (contracts s) (cdb_coll cdb) sorted = Some (mr, ctsOK, scs) \<and>
    mset ctsOK \<subseteq># mset (filter (\<lambda>t. \<forall>i \<in> set t. authorized env c i) cts) \<and>
    marshal_header env
      \<lparr>CollectionRoot = mr, ClientTransactionHash = cts_Hash (env_sha env) ctsOK,
       StateChangesHash = scs_Hash (env_sha env) (encode_change env) scs, Timestamp = now\<rparr> = Inr buf \<and>
    StoreSkipBlock env (skipdb s) ((if r \<noteq> None then sb\<lparr>sb_Roster := r\<rparr> else sb)\<lparr>sb_Data := buf\<rparr>) scID =
      (Inr latest, skipdb s')"
proof -
  have passes: "passes env c = (\<lambda>t. \<forall>i \<in> set t. authorized env c i)"
    using verdict_authorized [OF ok] by (simp add: fun_eq_iff passes_def)
  obtain sorted where sorted: "sortTransactions (env_sha env) (marshal_tx env) (unmarshal_tx env)
      (filter (passes env c) cts) = Inr sorted" "mset sorted = mset (filter (passes env c) cts)"
    using sortTransactions_sorts [of "filter (passes env c) cts" "marshal_tx env" enc "unmarshal_tx env" "env_sha env"] enc
    by (auto simp del: mset_filter)
  show ?thesis
  proof (rule createNewBlock_later [OF made later], goal_cases)
    case (1 sorted' cdb s2 mr ctsOK scs buf)
    then have "mset ctsOK \<subseteq># mset (filter (passes env c) cts)"
      using sorted createStateChanges_subseq subseq_mset by (metis sum.inject(2))
    with 1 show ?thesis unfolding passes by blast
  qed
qed

text \<open>The service with a contract \<open>x\<close> that changes the entry of the darc, and an encoding that tells the
  two transactions apart. The unsigned transaction is left out.\<close>

definition blk_change :: state_change where
  "blk_change = NewStateChange Update (toObjectID svc_id) ContractDarcID [4]"

definition blk_env :: "(byte, byte, unit, byte list, bool) env" where
  "blk_env = svc_env\<lparr>marshal_tx := (\<lambda>t. Inr [of_nat (length (in_Signatures (hd t)))]),
     unmarshal_tx := (\<lambda>b. Inr (if b = [0] then [svc_unsigned] else [svc_signed]))\<rparr>"

definition blk_running :: "(byte, bool) service" where
  "blk_running = svc_running\<lparr>contracts := [[0x78] \<mapsto> (\<lambda>c i coins. Some (Inr ([blk_change], [])))]\<rparr>"

lemma blk_env [simp]: "env_crypto blk_env = demo_crypto" "env_sha blk_env = fold_sha"
  "decode_darc blk_env b = Inr svc_darc"
  by (simp_all add: blk_env_def)

lemma blk_same: "verdict blk_env = verdict svc_env"
  unfolding fun_eq_iff verdict_def blk_env svc_env by simp

lemma blk_found: "getCollection blk_env blk_running [1] = Some (svc_db, blk_running)"
  "GetLatest blk_env d (GetByID blk_env d [1]) = Inr svc_block" "SkipChainID svc_block = [1]"
  by (simp add: getCollection_def blk_running_def svc_running_def)
    (simp_all add: blk_env_def svc_env_def, simp add: SkipChainID_def svc_block_def NewSkipBlock_def)

lemma blk_coding:
  "t \<in> {[svc_unsigned], [svc_signed]} \<Longrightarrow>
    unmarshal_tx blk_env [of_nat (length (in_Signatures (hd t)))] = Inr t"
proof -
  have "length (in_Signatures svc_unsigned) = 0" "length (in_Signatures svc_signed) = 1" by code_simp+
  then show "t \<in> {[svc_unsigned], [svc_signed]} \<Longrightarrow>
    unmarshal_tx blk_env [of_nat (length (in_Signatures (hd t)))] = Inr t"
    by (auto simp: blk_env_def)
qed

lemma blk_changes:
  "\<exists>mr. createStateChanges fold_sha (contracts blk_running) (cdb_coll svc_db) [[svc_signed]] =
    Some (mr, [[svc_signed]], [blk_change])"
proof -
  let ?answers = "[[0x78] \<mapsto> \<lambda>m i. Inr [blk_change]] :: byte answers"
  have "sc_ObjectID blk_change \<in> genesis_ids svc_id"
    by (simp add: blk_change_def NewStateChange_def oid_Slice_def toObjectID_def genesis_ids_def)
  then have f: "contracts_answer fold_sha (genesis_ids svc_id) (contracts blk_running) ?answers"
    by (auto simp: contracts_answer_def blk_running_def split: if_splits)
  have signed: "in_Spawn svc_signed = Some \<lparr>sp_ContractID = [0x78], sp_Args = []\<rparr>"
    "oid_Slice (in_ObjectID svc_signed) \<noteq> []" by code_simp+
  have "\<exists>m. spec_changes (ledger (cdb_coll svc_db)) [blk_change] = Inr m"
    using svc_id(2)
    by (simp add: svc_db(2) blk_change_def spec_change_def NewStateChange_def oid_Slice_def toObjectID_def
        genesis_ledger_def Let_def)
  then have "spec_run ?answers (ledger (cdb_coll svc_db)) [[svc_signed]] = [([svc_signed], True, [blk_change])]"
    using signed(1) by (auto simp: instruction_effect_def kind_of_def)
  with createStateChanges_correct [OF svc_ledger_ok f, of "[[svc_signed]]"] signed(2) show ?thesis
    by (auto simp: instr_ok_def accepted_def all_changes_def)
qed

theorem block_authorized_witness:
  "\<exists>latest s' cdb s2 mr ctsOK scs.
     createNewBlock blk_env blk_running 0 [1] None [[svc_unsigned], [svc_signed]] = Some (Inr latest, s') \<and>
     getCollection blk_env blk_running [1] = Some (cdb, s2) \<and>
     createStateChanges fold_sha (contracts blk_running) (cdb_coll cdb) [[svc_signed]] = Some (mr, ctsOK, scs) \<and>
     mset ctsOK \<subseteq># {#[svc_signed]#} \<and> ctsOK = [[svc_signed]]"
proof -
  let ?ts = "[[svc_unsigned], [svc_signed]]"
  let ?enc = "\<lambda>t. [of_nat (length (in_Signatures (hd t)))]"
  have v: "\<forall>t \<in> set ?ts. \<forall>i \<in> set t. verdict blk_env svc_db i \<noteq> None"
    using svc_verdicts by (simp add: blk_same)
  have m: "marshal_tx blk_env t = Inr (?enc t)" for t by (simp add: blk_env_def)
  have auth: "filter (\<lambda>t. \<forall>i \<in> set t. authorized blk_env svc_db i) ?ts = [[svc_signed]]"
    using svc_verdicts verdict_authorized [of blk_env "genesis_ids svc_id" svc_db] svc_ledger_ok
    by (simp add: blk_same flip: verdict_authorized)
  have sorted: "sortTransactions fold_sha (marshal_tx blk_env) (unmarshal_tx blk_env) [[svc_signed]] = Inr [[svc_signed]]"
    using sortTransactions_sorts [of "[[svc_signed]]" "marshal_tx blk_env" ?enc "unmarshal_tx blk_env" fold_sha]
      m blk_coding [of "[svc_signed]"] by auto
  obtain mr where mr: "createStateChanges fold_sha (contracts blk_running) (cdb_coll svc_db) [[svc_signed]] =
      Some (mr, [[svc_signed]], [blk_change])"
    using blk_changes by blast
  have "prepare_block blk_env blk_running [1] None ?ts = Some (Inr (svc_block, cdb_coll svc_db, [[svc_signed]]), blk_running)"
    using prepare_block_later [of "[1]" blk_env blk_running svc_block svc_db blk_running ?ts None] v svc_verdicts
    by (simp add: blk_same blk_found passes_def)
  then obtain latest s' where made: "createNewBlock blk_env blk_running 0 [1] None ?ts = Some (Inr latest, s')"
    using sorted mr by (simp add: createNewBlock_def Let_def) (simp add: blk_env_def svc_env_def)
  show ?thesis
    using block_authorized [OF made _ blk_found(2) _ v _ _ m, of blk_running "genesis_ids svc_id"] auth sorted mr
      blk_coding blk_found(1,3) svc_ledger_ok made
    by auto
qed

text \<open>C37: An action whose rule asks for two different keys can never be done: \<open>ToDarcRequest\<close> gives every
  signature the identity of the last signer, so that whoever signs, the other key is missing.\<close>

theorem two_owners_rejected:
  assumes "ledger_ok (env_sha env) K (cdb_coll c)" "darc_of env c instr = Some d"
    and "rule_at (Rules d) (instr_Action instr) = InitAndExpr (map (identity_String (env_crypto env)) owners)"
    and "\<forall>i \<in> set owners. key_id (env_crypto env) i"
    and "i \<in> set owners" "j \<in> set owners" "identity_String (env_crypto env) i \<noteq> identity_String (env_crypto env) j"
  shows "verdict env c instr \<noteq> Some None"
  by (rule two_owners_never_pass [OF assms])

text \<open>The same ledger, read with a darc whose rule asks for the keys 7 and 8.\<close>

definition two_env :: "(byte, byte, unit, byte list, bool) env" where
  "two_env = svc_env\<lparr>decode_darc := (\<lambda>b. Inr (NewDarc [(ascii ''Spawn_x'', ascii ''ed25519:07 & ed25519:08'')] [1]))\<rparr>"

theorem two_owners_rejected_witness: "verdict two_env svc_db svc_signed \<noteq> Some None"
proof (rule two_owners_rejected)
  have two: "env_sha two_env = fold_sha" "env_crypto two_env = demo_crypto"
    by (simp_all add: two_env_def)
  then show "ledger_ok (env_sha two_env) (genesis_ids svc_id) (cdb_coll svc_db)" using svc_ledger_ok by simp
  have "in_ObjectID svc_signed = \<lparr>DarcID = svc_id, InstanceID = ZeroNonce\<rparr>" by code_simp
  then show "darc_of two_env svc_db svc_signed =
      Some (NewDarc [(ascii ''Spawn_x'', ascii ''ed25519:07 & ed25519:08'')] [1])"
    using svc_darc_of [of svc_signed]
    by (simp add: darc_of_def two_env_def split: option.splits prod.splits if_splits)
  have "rule_at [(ascii ''Spawn_x'', ascii ''ed25519:07 & ed25519:08'')] (instr_Action svc_signed) =
      InitAndExpr [ascii ''ed25519:07'', ascii ''ed25519:08'']"
    "ascii ''ed25519:07'' \<noteq> ascii ''ed25519:08''"
    by code_simp+
  then show "rule_at (Rules (NewDarc [(ascii ''Spawn_x'', ascii ''ed25519:07 & ed25519:08'')] [1])) (instr_Action svc_signed) =
      InitAndExpr (map (identity_String (env_crypto two_env)) [demo_id 7, demo_id 8])"
    "identity_String (env_crypto two_env) (demo_id 7) \<noteq> identity_String (env_crypto two_env) (demo_id 8)"
    by (simp_all add: NewDarc_def two demo_id_string)
  show "\<forall>i \<in> set [demo_id 7, demo_id 8]. key_id (env_crypto two_env) i" using demo_key_id by (simp add: two)
qed simp_all

section \<open>The genesis block\<close>

text \<open>C16: A request for a skipchain with a well-formed darc succeeds, when the encoders do: the service
  makes one transaction, runs the configuration contract on it, and hands the skipchain a block whose
  header commits to this transaction and to the three state changes that store the reference to the
  darc, the darc and the configuration; a worker with the requested interval is started for the new
  skipchain.\<close>

theorem genesis_block_made:
  fixes env :: "('p, 's, 'k, 'r, 'd) env"
  defines "sha \<equiv> env_sha env"
  assumes hash: "hash_ok sha" "inj_on sha (genesis_ids darcID)" "darcID \<noteq> ZeroDarc"
    and req: "gr_Version req = CurrentVersion" "gr_GenesisDarc req = d" "gr_Roster req = roster"
      "Rules d \<noteq> []" "darc_Verify (env_crypto env) sha (Some d) = Some (None, d')"
      "GetID sha d = darcID" "interval = (if gr_BlockInterval req = 0 then defaultInterval else gr_BlockInterval req)"
      "PutVarint (replicate 8 0) interval = Some buf"
    and dec: "ToProto (encode_darc env) (Some d) = Inr darcBuf" "decode_darc env darcBuf = Inr d1"
      "Rules d1 \<noteq> []" "darc_Verify (env_crypto env) sha (Some d1) = Some (None, d1')"
      "encode_config env \<lparr>BlockInterval = interval\<rparr> = Inr configBuf"
      "marshal_tx env (genesis_tx darcID darcBuf buf) = Inr txBuf"
      "unmarshal_tx env txBuf = Inr (genesis_tx darcID darcBuf buf)"
    and reg: "contracts s ContractConfigID =
      Some (ContractConfig (env_crypto env) sha (decode_darc env) (encode_config env))"
    and header: "marshal_header env
      \<lparr>CollectionRoot = [], ClientTransactionHash = cts_Hash sha [genesis_tx darcID darcBuf buf :: 'p instruction list],
       StateChangesHash = scs_Hash sha (encode_change env) (genesis_changes darcID darcBuf configBuf),
       Timestamp = now\<rparr> = Inr headerBuf"
    and stored: "StoreSkipBlock env (skipdb s) (genesis_block roster headerBuf) [] = (Inr sb, db')"
  shows "CreateGenesisBlock env s now req =
    Some (Inr (CurrentVersion, sb),
      (save env (s\<lparr>skipdb := db'\<rparr>))\<lparr>queueWorkers :=
        (queueWorkers s)(SkipChainID sb \<mapsto> createQueueWorker interval)\<rparr>)"
  using assms unfolding sha_def by (intro CreateGenesisBlock_succeeds)

definition svc_request :: "(byte, byte list) genesis_request" where
  "svc_request = \<lparr>gr_Version = 1, gr_Roster = [7], gr_GenesisDarc = svc_darc, gr_BlockInterval = 0\<rparr>"

lemma svc_interval: "PutVarint (replicate 8 0) defaultInterval = Some svc_interval"
  by code_simp

text \<open>The service afterwards: it knows the chain, runs a worker, and has saved its timeout.\<close>

definition svc_founded :: "(byte, bool) service" where
  "svc_founded = svc_start\<lparr>queueWorkers := [[1] \<mapsto> createQueueWorker defaultInterval],
     stored := Inr (Some (Some 10000000000)), skipdb := True\<rparr>"

lemma svc_founding:
  "CurrentVersion = 1" "Rules svc_darc \<noteq> []"
  "darc_Verify demo_crypto fold_sha (Some svc_darc) = Some (None, Some svc_darc)"
  "save svc_env (svc_start\<lparr>skipdb := True\<rparr>) = svc_start\<lparr>stored := Inr (Some (Some 10000000000)), skipdb := True\<rparr>"
  "SkipChainID ((genesis_block [7] [] :: byte list skipblock)\<lparr>sb_Hash := [1]\<rparr>) = [1]"
  "queueWorkers svc_start = Map.empty"
  "contracts svc_start ContractConfigID =
     Some (ContractConfig demo_crypto fold_sha (decode_darc svc_env) (encode_config svc_env))"
  by (simp_all add: CurrentVersion_def save_def SkipChainID_def genesis_block_def NewSkipBlock_def svc_start_def
      ContractConfigID_def ContractDarcID_def ascii_def, simp_all add: svc_env_def)
    (code_simp+)

lemmas svc_request_facts = svc_genesis_keys svc_id(2) svc_request_def svc_founding svc_id_def [symmetric]
  svc_interval ToProto_def

lemma svc_genesis:
  "CreateGenesisBlock svc_env svc_start 0 svc_request =
     Some (Inr (1, genesis_block [7] []\<lparr>sb_Hash := [1]\<rparr>), svc_founded)"
proof -
  let ?sb = "(genesis_block [7] [] :: byte list skipblock)\<lparr>sb_Hash := [1]\<rparr>"
  have "CreateGenesisBlock svc_env svc_start 0 svc_request =
     Some (Inr (CurrentVersion, ?sb),
       (save svc_env (svc_start\<lparr>skipdb := True\<rparr>))\<lparr>queueWorkers := (queueWorkers svc_start)
         (SkipChainID ?sb \<mapsto> createQueueWorker defaultInterval)\<rparr>)"
    by (rule CreateGenesisBlock_succeeds [where darcID = svc_id and buf = svc_interval and darcBuf = "[9]"
          and configBuf = "[8]" and txBuf = "[0]" and d = svc_darc and ?d1.0 = svc_darc and headerBuf = "[]"])
      (simp_all add: svc_request_facts, simp_all add: svc_env_def)
  then show ?thesis by (simp add: svc_founding svc_founded_def)
qed

theorem genesis_block_made_witness:
  "CreateGenesisBlock svc_env svc_start 0 svc_request =
     Some (Inr (CurrentVersion, (genesis_block [7] [])\<lparr>sb_Hash := [1]\<rparr>),
       (save svc_env (svc_start\<lparr>skipdb := True\<rparr>))\<lparr>queueWorkers := (queueWorkers svc_start)
         (SkipChainID ((genesis_block [7] [] :: byte list skipblock)\<lparr>sb_Hash := [1]\<rparr>) \<mapsto> createQueueWorker defaultInterval)\<rparr>)"
  by (rule genesis_block_made [where ?darcID = svc_id and buf = svc_interval and darcBuf = "[9]" and configBuf = "[8]"
        and txBuf = "[0]" and d = svc_darc and ?d1.0 = svc_darc and headerBuf = "[]"])
    (simp_all add: svc_request_facts, simp_all add: svc_env_def)

text \<open>The command \<open>create\<close> on its own: it founds a skipchain with a darc of the new key.\<close>

theorem create_founds_skipchain:
  fixes env :: "('p, 's, 'k, 'n list, 'd) env" and point :: 'p
  defines "sha \<equiv> env_sha env" and "d \<equiv> founder_darc (env_crypto env) point"
  defines "darcID \<equiv> GetID sha d"
  assumes given: "ctx_Args c = [name]" "open_file name = Inr f" "ReadGroupDescToml f = Inr (Some (node # nodes))"
    and hash: "hash_ok sha" "inj_on sha (genesis_ids darcID)" "darcID \<noteq> ZeroDarc"
    and dec: "encode_darc env (darc_Copy d) = Inr darcBuf" "decode_darc env darcBuf = Inr (darc_Copy d)"
      "PutVarint (replicate 8 0) defaultInterval = Some intervalBuf"
      "encode_config env \<lparr>BlockInterval = defaultInterval\<rparr> = Inr configBuf"
      "marshal_tx env (genesis_tx darcID darcBuf intervalBuf) = Inr txBuf"
      "unmarshal_tx env txBuf = Inr (genesis_tx darcID darcBuf intervalBuf)"
    and reg: "contracts s ContractConfigID =
      Some (ContractConfig (env_crypto env) sha (decode_darc env) (encode_config env))"
    and header: "marshal_header env
      \<lparr>CollectionRoot = [],
       ClientTransactionHash = cts_Hash sha [genesis_tx darcID darcBuf intervalBuf :: 'p instruction list],
       StateChangesHash = scs_Hash sha (encode_change env) (genesis_changes darcID darcBuf configBuf),
       Timestamp = now\<rparr> = Inr headerBuf"
    and kept: "StoreSkipBlock env (skipdb s) (genesis_block (node # nodes) headerBuf) [] = (Inr sb, db')"
    and first: "\<forall>msg s. send node msg s = CreateGenesisBlock env s now msg"
  shows "rule_at (Rules d) (ascii ''Spawn_dummy'') = identity_String (env_crypto env) (NewIdentityEd25519 point) \<and>
    create (env_crypto env) (point, secret) open_file ReadGroupDescToml send c s =
      Returns (Inr (sb_Hash sb, secret, point),
        (save env (s\<lparr>skipdb := db'\<rparr>))\<lparr>queueWorkers :=
          (queueWorkers s)(SkipChainID sb \<mapsto> createQueueWorker defaultInterval)\<rparr>)"
  unfolding d_def
  by (intro conjI founder_rules(2) create_founds [where send = send and node = node and nodes = nodes and name = name and f = f and open_file = open_file
      and ReadGroupDescToml = ReadGroupDescToml, OF given hash [unfolded sha_def d_def darcID_def]
      dec [unfolded sha_def d_def darcID_def] reg [unfolded sha_def] header [unfolded sha_def d_def darcID_def] kept first])

definition cli_darc :: "byte darc" where
  "cli_darc = founder_darc demo_crypto 7"

definition cli_id :: bytes where
  "cli_id = GetID fold_sha cli_darc"

definition cli_env :: "(byte, byte, unit, byte list, bool) env" where
  "cli_env = svc_env\<lparr>decode_darc := (\<lambda>b. Inr (darc_Copy cli_darc)),
     unmarshal_tx := (\<lambda>b. Inr (genesis_tx cli_id [9] svc_interval))\<rparr>"

definition cli_start :: "(byte, bool) service" where
  "cli_start = svc_start\<lparr>contracts :=
     [ContractConfigID \<mapsto> ContractConfig demo_crypto fold_sha (decode_darc cli_env) (encode_config cli_env)]\<rparr>"

lemma cli_keys: "inj_on fold_sha (genesis_ids cli_id)" "cli_id \<noteq> ZeroDarc"
proof -
  have "distinct (map fold_sha [ZeroDarc @ ZeroNonce, cli_id @ ZeroNonce, cli_id @ OneNonce])" by code_simp
  then have "inj_on fold_sha (set [ZeroDarc @ ZeroNonce, cli_id @ ZeroNonce, cli_id @ OneNonce])"
    by (simp only: distinct_map)
  then show "inj_on fold_sha (genesis_ids cli_id)" by (simp add: genesis_ids_def insert_commute)
  show "cli_id \<noteq> ZeroDarc" by code_simp
qed

theorem create_founds_skipchain_witness:
  "\<exists>s'. create demo_crypto (7, 7) (\<lambda>name. if name = [1] then Inr () else Inl UnknownSkipchain) (\<lambda>f. Inr (Some [5, 6]))
     (\<lambda>n msg s. if n = 5 then CreateGenesisBlock cli_env s 0 msg else None)
     \<lparr>ctx_Args = [[1]], ctx_flags = Map.empty, ctx_app_flags = Map.empty\<rparr> cli_start = Returns (Inr ([1], 7, 7), s')"
proof -
  note facts = svc_env_def cli_env_def
  show ?thesis
    using create_founds_skipchain [where env = cli_env and point = 7 and secret = 7 and node = 5 and nodes = "[6]"
        and open_file = "\<lambda>name. if name = [1] then Inr () else Inl UnknownSkipchain" and name = "[1]" and f = "()"
        and ReadGroupDescToml = "\<lambda>f. Inr (Some [5, 6])" and s = cli_start and now = 0 and darcBuf = "[9]"
        and intervalBuf = svc_interval and configBuf = "[8]" and txBuf = "[0]" and headerBuf = "[]" and db' = True
        and c = "\<lparr>ctx_Args = [[1]], ctx_flags = Map.empty, ctx_app_flags = Map.empty\<rparr>"
        and sb = "(genesis_block [5, 6] [])\<lparr>sb_Hash := [1]\<rparr>"
        and send = "\<lambda>n msg s. if n = 5 then CreateGenesisBlock cli_env s 0 msg else None"]
      cli_keys svc_interval
    by (simp add: facts cli_start_def cli_darc_def [symmetric] cli_id_def [symmetric])
qed

text \<open>C40: The program \<open>app.go\<close>, started with \<open>create\<close> (or \<open>c\<close>) and a group file, with or without a debug level
  in front, founds a skipchain: given a group file with at least one server, it makes a darc that only the
  new key owns, signs for and may spawn \<open>dummy\<close> instances with, sends it to the first server of the
  group, whatever the others would do with it, whose service makes the genesis block with it and starts a worker with the default interval, and logs the
  hash of the block and the key pair, when the encoders succeed and the decoder of darcs inverts the
  encoder.\<close>

theorem create_from_command_line:
  fixes env :: "('p, 's, 'k, 'n list, 'd) env" and point :: 'p
  defines "sha \<equiv> env_sha env" and "d \<equiv> founder_darc (env_crypto env) point"
  defines "darcID \<equiv> GetID sha d"
  assumes line: "cmd \<in> {ascii ''create'', ascii ''c''}" "\<not> is_flag_arg name" "level_ok lvl"
    and given: "open_file name = Inr f" "ReadGroupDescToml f = Inr (Some (node # nodes))"
    and hash: "hash_ok sha" "inj_on sha (genesis_ids darcID)" "darcID \<noteq> ZeroDarc"
    and dec: "encode_darc env (darc_Copy d) = Inr darcBuf" "decode_darc env darcBuf = Inr (darc_Copy d)"
      "PutVarint (replicate 8 0) defaultInterval = Some intervalBuf"
      "encode_config env \<lparr>BlockInterval = defaultInterval\<rparr> = Inr configBuf"
      "marshal_tx env (genesis_tx darcID darcBuf intervalBuf) = Inr txBuf"
      "unmarshal_tx env txBuf = Inr (genesis_tx darcID darcBuf intervalBuf)"
    and reg: "contracts s ContractConfigID =
      Some (ContractConfig (env_crypto env) sha (decode_darc env) (encode_config env))"
    and header: "marshal_header env
      \<lparr>CollectionRoot = [],
       ClientTransactionHash = cts_Hash sha [genesis_tx darcID darcBuf intervalBuf :: 'p instruction list],
       StateChangesHash = scs_Hash sha (encode_change env) (genesis_changes darcID darcBuf configBuf),
       Timestamp = now\<rparr> = Inr headerBuf"
    and kept: "StoreSkipBlock env (skipdb s) (genesis_block (node # nodes) headerBuf) [] = (Inr sb, db')"
    and first: "\<forall>msg s. send node msg s = CreateGenesisBlock env s now msg"
  shows "rule_at (Rules d) (ascii ''Spawn_dummy'') = identity_String (env_crypto env) (NewIdentityEd25519 point) \<and>
    main_app (env_crypto env) (point, secret) open_file ReadGroupDescToml send (prog # debug_opts lvl @ [cmd, name])
        \<lparr>pr_world = s, pr_debug = level, pr_shown = shown\<rparr> =
      Returns
        \<lparr>pr_world = (save env (s\<lparr>skipdb := db'\<rparr>))\<lparr>queueWorkers :=
           (queueWorkers s)(SkipChainID sb \<mapsto> createQueueWorker defaultInterval)\<rparr>,
         pr_debug = debug_level lvl, pr_shown = shown @ [Logged (sb_Hash sb, secret, point)]\<rparr>"
proof -
  let ?c = "\<lparr>ctx_Args = [name], ctx_flags = help_flags,
      ctx_app_flags = map_option value_String \<circ> app_flags (debug_level lvl)\<rparr>"
  have "ctx_Args ?c = [name]" by simp
  note create = create_founds_skipchain [where env = env and point = point and name = name and c = ?c
      and open_file = open_file and ReadGroupDescToml = ReadGroupDescToml and secret = secret and send = send
      and node = node and nodes = nodes, OF this given hash [unfolded sha_def d_def darcID_def]
      dec [unfolded sha_def d_def darcID_def] reg [unfolded sha_def] header [unfolded sha_def d_def darcID_def] kept first]
  have "\<forall>arg\<in>set [name]. \<not> is_flag_arg arg" using line(2) by simp
  with create show ?thesis by (simp add: app_runs_create [OF line(3,1)] d_def print_shown_def)
qed

theorem create_from_command_line_witness:
  "\<exists>s'. main_app demo_crypto (7, 7) (\<lambda>name. if name = [1] then Inr () else Inl UnknownSkipchain) (\<lambda>f. Inr (Some [5, 6]))
     (\<lambda>n msg s. if n = 5 then CreateGenesisBlock cli_env s 0 msg else None) ([0] # debug_opts (Some 3) @ [ascii ''create'', [1]])
     \<lparr>pr_world = cli_start, pr_debug = 1, pr_shown = []\<rparr> =
   Returns \<lparr>pr_world = s', pr_debug = 3, pr_shown = [Logged ([1], 7, 7)]\<rparr>"
proof -
  note facts = svc_env_def cli_env_def
  have line: "\<not> is_flag_arg [1]" "level_ok (Some 3)" by (simp_all add: is_flag_arg_def level_ok_def)
  show ?thesis
    using create_from_command_line [where env = cli_env and point = 7 and secret = 7 and node = 5 and nodes = "[6]"
        and open_file = "\<lambda>name. if name = [1] then Inr () else Inl UnknownSkipchain" and name = "[1]" and f = "()"
        and ReadGroupDescToml = "\<lambda>f. Inr (Some [5, 6])" and s = cli_start and now = 0 and darcBuf = "[9]"
        and intervalBuf = svc_interval and configBuf = "[8]" and txBuf = "[0]" and headerBuf = "[]" and db' = True
        and cmd = "ascii ''create''" and lvl = "Some 3" and prog = "[0]" and level = 1 and shown = "[]"
        and sb = "(genesis_block [5, 6] [])\<lparr>sb_Hash := [1]\<rparr>"
        and send = "\<lambda>n msg s. if n = 5 then CreateGenesisBlock cli_env s 0 msg else None"]
      cli_keys svc_interval line
    by (simp add: facts cli_start_def cli_darc_def [symmetric] cli_id_def [symmetric] debug_level_def)
qed

text \<open>C17: Round trip: a service whose ledger is the one of the genesis block reads back the block interval
  the configuration was made with, and the genesis darc, as far as the decoders invert the encoders.\<close>

theorem genesis_config_readable:
  assumes "ledger_ok (env_sha env) K (cdb_coll db)" "length darcID = 32" "darcID \<noteq> ZeroDarc"
    and "ledger (cdb_coll db) = genesis_ledger darcID darcBuf configBuf"
    and "collectionDB s (hex_string scID) = Some db"
    and "decode_config env configBuf = Inr \<lparr>BlockInterval = interval\<rparr>" "decode_darc env darcBuf = Inr d"
  shows "loadBlockInterval env s scID = Some ((interval, None), s) \<and>
    loadLatestDarc env s scID darcID = Some (Inr d, s)"
  using genesis_readable [OF assms(1-5)] assms(6,7) by (simp add: loadBlockInterval_def)

theorem genesis_config_readable_witness:
  "loadBlockInterval svc_env svc_running [1] = Some ((defaultInterval, None), svc_running) \<and>
   loadLatestDarc svc_env svc_running [1] svc_id = Some (Inr svc_darc, svc_running)"
  by (rule genesis_config_readable [where K = "genesis_ids svc_id"]) (simp_all add: svc_ledger_ok svc_id svc_db(2) svc_running_def)

text \<open>After a restart the stored configuration is not readable: a service that opens the bucket in
  which the genesis ledger was stored answers that the entry is no configuration, because \<open>loadAll\<close>
  looks for the contract IDs under another key than the one \<open>Store\<close> writes them to.\<close>

theorem stored_genesis_unreadable:
  assumes "db_ok (env_sha env) (genesis_ids darcID) db"
    and "ledger (cdb_coll db) = genesis_ledger darcID darcBuf configBuf"
    and "length darcID = 32" "darcID \<noteq> ZeroDarc"
    and "inj_on (env_sha env) (genesis_ids darcID \<union> keykind ` genesis_ids darcID)"
    and "collectionDB s (hex_string scID) = None" "disk s (hex_string scID) = Some (cdb_bucket db)"
  shows "\<exists>s'. loadConfig env s scID = Some (Inl NotConfig, s')"
  by (rule genesis_lost [OF assms])

theorem stored_genesis_unreadable_witness:
  "\<exists>s'. loadConfig svc_env (svc_start\<lparr>disk := [hex_string [1] \<mapsto> cdb_bucket svc_db]\<rparr>) [1] = Some (Inl NotConfig, s')"
proof (rule stored_genesis_unreadable)
  show "db_ok (env_sha svc_env) (genesis_ids svc_id) svc_db" using svc_db(1) by simp
  show "inj_on (env_sha svc_env) (genesis_ids svc_id \<union> keykind ` genesis_ids svc_id)" using svc_keys by simp
qed (simp_all add: svc_db(2) svc_id svc_start_def)

text \<open>C31: The bound on the interval: the buffer of eight bytes holds the intervals below 2 to the 55
  nanoseconds (about 417 days), and a request with a longer one and an otherwise valid darc makes
  \<open>CreateGenesisBlock\<close> panic.\<close>

theorem long_interval_panics:
  assumes "gr_Version req = CurrentVersion" "ToProto (encode_darc env) (Some (gr_GenesisDarc req)) = Inr darcBuf"
    and "darc_Verify (env_crypto env) (env_sha env) (Some (gr_GenesisDarc req)) = Some (None, d')"
    and "Rules (gr_GenesisDarc req) \<noteq> []" "2 ^ 55 \<le> sint (gr_BlockInterval req)"
  shows "CreateGenesisBlock env s now req = None"
proof -
  have "(2 :: nat) ^ 55 \<le> nat (sint (gr_BlockInterval req))" using assms(5) by (simp add: le_nat_iff)
  then have "PutVarint (replicate 8 0) (gr_BlockInterval req) = None"
    unfolding PutVarint_panics using zigzag_nonneg [of "gr_BlockInterval req"] assms(5) by simp
  moreover have "gr_BlockInterval req \<noteq> 0" using assms(5) by auto
  ultimately show ?thesis using assms by (simp add: CreateGenesisBlock_def Let_def)
qed

theorem long_interval_panics_witness:
  "CreateGenesisBlock svc_env svc_start 0 (svc_request\<lparr>gr_BlockInterval := 2 ^ 60\<rparr>) = None"
proof (rule long_interval_panics)
  show "darc_Verify (env_crypto svc_env) (env_sha svc_env) (Some (gr_GenesisDarc (svc_request\<lparr>gr_BlockInterval := 2 ^ 60\<rparr>))) =
      Some (None, Some svc_darc)"
    "Rules (gr_GenesisDarc (svc_request\<lparr>gr_BlockInterval := 2 ^ 60\<rparr>)) \<noteq> []"
    "2 ^ 55 \<le> sint (gr_BlockInterval (svc_request\<lparr>gr_BlockInterval := 2 ^ 60\<rparr>))"
    by (code_simp)+
qed (simp_all add: svc_request_def CurrentVersion_def ToProto_def)

section \<open>The service over time\<close>

text \<open>C25: The order of the transactions in a block does not depend on the order in which they came, as
  long as they can be encoded and decoded and no two different ones have the same salted hash.\<close>

theorem block_order_independent:
  assumes "hash_ok sha" "mset ts = mset ts'"
    and "\<And>t. t \<in> set ts \<Longrightarrow> marshal t = Inr (enc t)" "\<And>t. t \<in> set ts \<Longrightarrow> unmarshal (enc t) = Inr t"
    and "inj_on (\<lambda>b. sha (xorTransactions sha (map enc ts) @ b)) (enc ` set ts)"
  shows "sortTransactions sha marshal unmarshal ts = sortTransactions sha marshal unmarshal ts' \<and>
    (\<exists>sorted. sortTransactions sha marshal unmarshal ts = Inr sorted \<and> mset sorted = mset ts)"
proof
  show "sortTransactions sha marshal unmarshal ts = sortTransactions sha marshal unmarshal ts'"
    by (rule sortTransactions_order [OF assms(1,2), where enc = enc]) (use assms(3-5) in auto)
  show "\<exists>sorted. sortTransactions sha marshal unmarshal ts = Inr sorted \<and> mset sorted = mset ts"
    using sortTransactions_sorts [of ts marshal enc unmarshal sha] assms(3,4) by blast
qed

definition len_marshal :: "byte client_tx \<Rightarrow> service_error + bytes" where
  "len_marshal t = Inr [of_nat (length t)]"

definition len_unmarshal :: "bytes \<Rightarrow> service_error + byte client_tx" where
  "len_unmarshal b = Inr (replicate (unat (hd b)) svc_unsigned)"

theorem block_order_independent_witness:
  "sortTransactions fold_sha len_marshal len_unmarshal [[svc_unsigned], [svc_unsigned, svc_unsigned]] =
   sortTransactions fold_sha len_marshal len_unmarshal [[svc_unsigned, svc_unsigned], [svc_unsigned]]"
proof -
  let ?ts = "[[svc_unsigned], [svc_unsigned, svc_unsigned]]"
  let ?salted = "\<lambda>b. fold_sha (xorTransactions fold_sha [[1], [2]] @ b)"
  have "distinct (map ?salted [[1], [2]])" by code_simp
  then have inj: "inj_on ?salted {[1], [2]}" by auto
  have two: "replicate 2 x = [x, x]" for x :: "byte instruction" by (simp add: numeral_2_eq_2)
  have "len_unmarshal [of_nat (length t)] = Inr t" if "t \<in> set ?ts" for t
    using that by (auto simp: len_unmarshal_def two)
  with block_order_independent [where enc = "\<lambda>t. [of_nat (length t)]" and marshal = len_marshal
      and unmarshal = len_unmarshal and ts = ?ts and ts' = "[[svc_unsigned, svc_unsigned], [svc_unsigned]]", OF fold_hash]
  show ?thesis using inj by (simp add: len_marshal_def add_mset_commute)
qed

text \<open>C26: After the genesis block no block can be made: in every state a service can reach from a fresh
  disk, creating a block for a known skipchain fails, because nothing ever stores a state change and so
  no darc is found that would authorize an instruction.\<close>

theorem no_block_after_genesis:
  assumes "hash_ok (env_sha env)" "reachable env s" "scID \<noteq> []" "\<forall>t \<in> set cts. t \<noteq> []"
  shows "\<exists>e s'. createNewBlock env s now scID r cts = Some (Inl e, s') \<and> e \<in> {NoLatestBlock, NoValidTransaction}"
  by (rule no_later_block [OF assms])

text \<open>A node that has just been started, with no skipchain.\<close>

lemma first_start: "reachable svc_env svc_start"
proof (rule reachable.start)
  show "newService svc_env (Inr None) Map.empty False = Some (Inr svc_start)"
    by (simp add: newService_def tryLoad_def svc_start_def Let_def) (simp add: svc_env_def registerContract_def)
qed (simp add: fresh_disk_def)

theorem no_block_after_genesis_witness:
  "\<exists>e s'. createNewBlock svc_env svc_start 0 [1] None [[svc_signed]] = Some (Inl e, s') \<and>
     e \<in> {NoLatestBlock, NoValidTransaction}"
  by (rule no_block_after_genesis) (simp_all add: first_start)

text \<open>The node that made the genesis block.\<close>

lemma svc_founded_reachable: "reachable svc_env svc_founded"
  by (rule reachable.step [OF first_start service_step.genesis [OF svc_genesis]])

text \<open>C24: What happens to the transactions that clients send: when the worker of a skipchain is idle and
  running, every sequence of transactions that clients send to the first node of their roster is accepted;
  at the end of the interval the worker asks \<open>createNewBlock\<close> for a block of exactly these transactions, in
  the order in which they came, and its queue is empty afterwards, whether there is a block or not. So
  being accepted is not being included: in every state a service can reach, the block is refused, and the
  accepted transactions are lost.\<close>

theorem worker_hands_over:
  fixes s :: "('p, 'd) service"
    and send :: "'n \<Rightarrow> 'p add_request \<Rightarrow> ('p, 'd) service \<Rightarrow> ((service_error + int) \<times> ('p, 'd) service) option"
  assumes idle: "queueWorkers s scID = Some w" "wk_running w" "wk_ts w = []"
    and clients: "\<forall>req s. send node req s = AddTransaction s req" "txs \<noteq> []" "[] \<notin> set txs"
    and known: "GetLatest env (skipdb s) (GetByID env (skipdb s) scID) = Inr sb"
  defines "s1 \<equiv> s\<lparr>queueWorkers := (queueWorkers s)(scID \<mapsto> w\<lparr>wk_ts := txs\<rparr>)\<rparr>"
  shows "send_all send (node # nodes) scID txs s = Some s1 \<and>
    worker_epoch env s1 now scID =
      (case createNewBlock env s1 now scID (sb_Roster sb) txs of
         None \<Rightarrow> None
       | Some (res, s2) \<Rightarrow> Some (Some res, s2\<lparr>queueWorkers := (queueWorkers s2)(scID \<mapsto> w\<lparr>wk_ts := []\<rparr>)\<rparr>)) \<and>
    (hash_ok (env_sha env) \<and> reachable env s \<and> scID \<noteq> [] \<longrightarrow>
      (\<exists>e s2. worker_epoch env s1 now scID = Some (Some (Inl e), s2) \<and>
        e \<in> {NoLatestBlock, NoValidTransaction} \<and> queueWorkers s2 scID = Some w))"
  unfolding s1_def
  using client_batch [where send = send and node = node, OF idle clients known]
    client_batch_lost [where send = send and node = node, OF idle clients known]
  by blast

theorem worker_hands_over_witness:
  "\<exists>s1 e s2. send_all (\<lambda>n req s. if n = 3 then AddTransaction s req else None) [3 :: nat, 4] [1]
       [[svc_unsigned], [svc_signed]] svc_founded = Some s1 \<and>
     worker_epoch svc_env s1 0 [1] = Some (Some (Inl e), s2) \<and>
     queueWorkers s2 [1] = Some (createQueueWorker defaultInterval)"
proof -
  have "queueWorkers svc_founded [1] = Some (createQueueWorker defaultInterval)" by (simp add: svc_founded_def)
  note handed = worker_hands_over [OF this, where send = "\<lambda>n req s. if n = 3 then AddTransaction s req else None"
      and node = "3 :: nat" and nodes = "[4]" and txs = "[[svc_unsigned], [svc_signed]]" and env = svc_env
      and sb = svc_block and now = 0]
  have idle: "wk_running (createQueueWorker defaultInterval)" "wk_ts (createQueueWorker defaultInterval) = []"
    by (simp_all add: createQueueWorker_def)
  show ?thesis
    using handed [OF idle, THEN conjunct1] handed [OF idle, THEN conjunct2, THEN conjunct2]
      svc_latest svc_founded_reachable
    by (auto simp del: send_all.simps)
qed

text \<open>C27: A node that knows a skipchain cannot be started again: from every state a service can reach, by
  handlers, workers and earlier restarts, starting again on what the node has on disk ends with the error
  of loading the configuration, which was never stored.\<close>

theorem restart_fails:
  fixes env :: "('p, 's, 'k, 'r, 'd) env"
  assumes "hash_ok (env_sha env)" "reachable env s" "GetAllSkipchains env (skipdb s) = Inr (h # hs)"
  shows "restart env s = Some (Inl (CollError NoMatch))"
  by (rule no_restart_reachable [OF assms])

theorem restart_fails_witness: "restart svc_env svc_founded = Some (Inl (CollError NoMatch))"
  by (rule restart_fails [OF _ svc_founded_reachable]) (simp_all add: svc_founded_def, simp add: svc_env_def)

end
