(* ===== verification/Spec2Isabelle.thy ===== *)
theory Spec2Isabelle
  imports CollectionProps ProofProps DarcProps ServiceProps
begin

text \<open>
  A verification development for the OmniLedger of \<open>src/omniledger\<close> (Go): an authenticated key/value
  database, access control by darcs, and the service that makes blocks of transactions.

  \<^bold>\<open>The program.\<close> A \<open>Collection\<close> (package \<open>collection\<close>) is a Merkle trie: every key lies at the leaf
  its SHA-256 path leads to, every node has a label that hashes what is below it, and the label of the
  root commits to the whole map. Nodes may keep all of it, or only part and absorb proofs. A darc
  (package \<open>darc\<close>) says by expressions over identities who may do what, and evolves by versions that
  the owners of the version before sign. The service (package \<open>service\<close>) keeps one collection per
  skipchain, whose keys are object IDs and whose values are pairs of a value and a contract ID; it
  checks the instructions of a transaction against the darcs in the collection, lets contracts turn
  them into state changes, and puts hashes of all this into a block of the skipchain.

  \<^bold>\<open>Where the code is modelled.\<close> The theories follow the files of the source.
  \<^item> Package \<open>collection\<close>: \<open>Byteslice\<close> (byteslice.go), \<open>Field\<close> (field.go), \<open>Scope\<close> (scope.go, flag.go),
    \<open>Protobuf\<close> (the encoding of the one message that node.go hashes), \<open>Node\<close> (node.go,
    singlenode.go), \<open>Collection\<close> (collection.go), \<open>Transaction\<close> (transaction.go), \<open>Manipulators\<close>
    (manipulators.go), \<open>Records\<close> (getters.go, record.go, navigators.go), \<open>Proofs\<close> (proof.go, the proofs
    of getters.go, verifiers.go), \<open>Updates\<close> (update.go), \<open>TestChecks\<close> (testctx.go).
  \<^item> Package \<open>darc\<close>: \<open>Combinators\<close> (expression/expression.go as it is built from the combinators, tokens
    and scanner of the vendored goparsec, whose definitions are there too), \<open>Expression\<close> (the
    recursive-descent parser this amounts to, and the evaluation), \<open>Darc\<close> (data, identities, rules and hashes
    of darc.go and struct.go), \<open>DarcVerify\<close> (signing, requests, evolution and the evaluation of
    expressions in darc.go).
  \<^item> Package \<open>service\<close>: \<open>Instructions\<close> (transaction.go), \<open>CollectionDB\<close> (struct.go over bolt buckets),
    \<open>Varint\<close> (the part of encoding/binary it uses), \<open>Contracts\<close> (contracts.go), \<open>ServiceProof\<close>
    (proof.go), \<open>Service\<close> and \<open>Blocks\<close> (service.go, messages.go, the genesis request of api.go), \<open>Client\<close>
    (the client of api.go).
  \<^item> \<open>Printing\<close> (the \<open>String\<close> methods of darc.go and transaction.go).
  \<^item> The command line: \<open>Cli\<close> (the commands of app.go and conode.go), \<open>Flags\<close> (flags, as Go's package \<open>flag\<close> and
    the vendored cli.v1 read them), \<open>Commands\<close> (how cli.v1 chooses and runs a command, and the \<open>main\<close>
    functions with their tables).

  \<^bold>\<open>How state and failure correspond.\<close> A Go value is a record or a datatype with the fields of its
  type; an operation with a receiver takes it and returns the new one. A panic is \<open>None\<close> of an option, an
  error value is \<open>Inl\<close> of a sum or the first component of a pair. The values of nodes are arrays that two
  nodes can share, so they live in a store and nodes hold addresses; that is how \<open>rollback_keeps_write\<close>
  can be seen at all. Parents and paths are implicit in the recursion from the root. Integers have their
  width where it matters (stakes, versions and intervals are 64-bit words). Handlers of the service are
  functions on its state, and \<open>service_step\<close> is the relation of the steps its goroutines take.

  \<^bold>\<open>What is assumed.\<close> SHA-256 is a parameter; \<open>hash_ok\<close> says its digests have 32 bytes. Where two digests
  must differ, the set on which the function is injective is named in the property (\<open>secure_on\<close>,
  \<open>inj_on\<close>). Signatures, X509 parsing, protobuf encoders and decoders, and the skipchain (lookup, storing,
  forward links) are parameters with no hidden laws: a property that needs one has it as a hypothesis.

  \<^bold>\<open>What the lemmas show.\<close>
  \<^item> The invariant of trees and the map they stand for: \<open>Invariant\<close>, \<open>TreeOps\<close>. Every operation keeps it
    and does to the map what it should: \<open>AddCorrect\<close>, \<open>SetCorrect\<close>, \<open>RemoveCorrect\<close>, \<open>CollectCorrect\<close>,
    \<open>CollectionCorrect\<close>, \<open>Lifecycle\<close> (creation, clones, the end of a transaction).
  \<^item> The tree is as small as possible (\<open>Shape\<close>), hence the root a function of the contents, and the
    contents a function of the root (\<open>Canonical\<close>). On a collection that knows everything the operations
    are exact (\<open>Full\<close>), and so is every history of them (\<open>Histories\<close>), while calls with values of the
    wrong types leave no trace (\<open>Typing\<close>). What \<open>Rollback\<close> restores, and when, is in \<open>Rollbacks\<close>, what it
    does not in \<open>Aliasing\<close>; \<open>Walks\<close> inverts the walks for the inductions over them.
  \<^item> Proofs are complete and sound (\<open>ProofCorrect\<close>); nodes that keep part of the tree stay parts of the
    full one when they absorb proofs (\<open>Views\<close>) and when both do the same writes, in a transaction or
    outside (\<open>PartViews\<close>, \<open>LightWrites\<close>). Updates do to the collection what their calls do to a map
    (\<open>UpdatesCorrect\<close>), and to a part of it what they do to the whole (\<open>LightUpdates\<close>: the locale
    \<open>lockstep\<close> is what a program needs of two collections to run on them alike).
    Navigation along a stake field finds every key in proportion to its stake (\<open>NavigateCorrect\<close>).
    The checks of the package's tests, which know nothing of the invariant, pass (\<open>TestChecks\<close>).
  \<^item> The parser made of combinators is the recursive-descent parser (\<open>CombinatorsCorrect\<close>), and parsing
    an expression inverts printing it (\<open>ExprCorrect\<close>); delegation (\<open>Delegation\<close>); evolution, IDs and
    rules of darcs (\<open>DarcCorrect\<close>); requests (\<open>Requests\<close>).
  \<^item> The ledger, an abstract map with state changes: the locale \<open>change_store\<close> is the contract of a store,
    kept by the collection (\<open>Ledger\<close>) and by collection and disk (\<open>LedgerDB\<close>). \<open>spec_run\<close> specifies what
    the answers of the contracts do to the ledger, and \<open>createStateChanges\<close> implements it (\<open>StateChanges\<close>).
    Which instructions pass (\<open>Authorization\<close>), reachable states and workers (\<open>Reachable\<close>), the order of
    transactions (\<open>Ordering\<close>), what is in a block after the genesis block (\<open>LaterBlocks\<close>), what becomes of
    the transactions of clients (\<open>Client\<close>), proofs of the service
    (\<open>ServiceProofCorrect\<close>), the genesis block from request to ledger (\<open>GenesisCorrect\<close>)
    and from the command line (\<open>Cli\<close>, \<open>CommandsCorrect\<close>, which also says what the programs do with which
    arguments: \<open>conode\<close> without a command starts no server, and its \<open>setup\<close> never refuses). The texts of state changes and instructions are unambiguous (\<open>Printing\<close>).
  \<^item> The locale \<open>merkle_field\<close> is the contract of a field; \<open>Field\<close> interprets it for both fields.

  The properties C1 to C40 are in \<open>CollectionProps\<close>, \<open>ProofProps\<close>, \<open>DarcProps\<close> and \<open>ServiceProps\<close>, each with
  an input at which its hypotheses hold; the inputs are in \<open>Examples\<close> and at the head of these theories.
  C35 to C38, C26, C27, C31 and the end of C24 state what the code does where this is not what it means
  to do.

  \<^bold>\<open>Fuel and termination.\<close> The walks down a tree end because a path has 256 bits or because the tree is
  finite. The parser takes fuel, and \<open>Evaluate\<close> starts it with more than any input uses
  (\<open>parse_enough\<close>); the circular combinators take fuel for twice the length of the input (\<open>parser_run\<close>). \<open>evalExpr\<close> may delegate for ever: its fuel is an argument, and
  \<open>delegation_terminates\<close> says how much is enough. \<open>follow\<close>, the walk along the skipchain, is a partial
  function; \<open>service_proof_verifies\<close> shows that it returns.

  \<^bold>\<open>Not modelled.\<close> Key generation and the network between client and service are parameters (\<open>Client\<close>, \<open>Cli\<close>),
  and so are the interactive set-up and the server loop of onet (\<open>Commands\<close>). Logging and the registration of
  messages and handlers are left out. Of the vendored libraries only what the code uses of goparsec, cli.v1,
  bolt and the protobuf encoding is modelled. The map \<open>collectionDB\<close> is read and
  written by several goroutines without a lock; the model takes every handler as one step.
\<close>

end
